(* ===== verification/Prelude.thy ===== *)
theory Prelude
  imports Main "HOL-Library.Word" "HOL-Library.AList"
begin

text \<open>
  Shared ground of the development: the fact collections of the components, Python's
  exceptions and results, and the library lemmas on lists that several components need.
\<close>

unbundle bit_operations_syntax

section \<open>Fact collections\<close>

named_theorems byte_simps \<open>byte-level reading of 64-bit buffer words\<close>
named_theorems range_intros \<open>range facts of bytes and words\<close>
named_theorems beat_simps \<open>beats, their enables and their splitting\<close>

section \<open>Python results\<close>

text \<open>
  An operation that can raise returns a sum: \<open>Inl\<close> carries the exception, \<open>Inr\<close> the value.
\<close>

datatype py_exn =
  IndexError | KeyError | ValueError | TypeError | AttributeError | OverflowError
| NameError | NotImplementedError | QueueFull | RuntimeError | OtherError

type_synonym 'a py_result = "py_exn + 'a"

definition bind_result :: "'a py_result \<Rightarrow> ('a \<Rightarrow> 'b py_result) \<Rightarrow> 'b py_result" where
  "bind_result m f = (case m of Inl e \<Rightarrow> Inl e | Inr x \<Rightarrow> f x)"

lemma bind_result_simps [simp]:
  "bind_result (Inl e) f = Inl e"
  "bind_result (Inr x) f = f x"
  by (simp_all add: bind_result_def)

lemma bind_result_Inr: "bind_result m f = Inr y \<longleftrightarrow> (\<exists>x. m = Inr x \<and> f x = Inr y)"
  by (cases m) auto

text \<open>Python's \<open>xs[i]\<close>: a negative index counts from the end, out of range raises.\<close>

definition py_index :: "'a list \<Rightarrow> int \<Rightarrow> 'a py_result" where
  "py_index xs i =
     (let j = (if i < 0 then i + int (length xs) else i)
      in if 0 \<le> j \<and> j < int (length xs) then Inr (xs ! nat j) else Inl IndexError)"

lemma py_index_nat [simp]: "i < length xs \<Longrightarrow> py_index xs (int i) = Inr (xs ! i)"
  by (simp add: py_index_def)

lemma py_index_nonneg:
  "0 \<le> i \<Longrightarrow> i < int (length xs) \<Longrightarrow> py_index xs i = Inr (xs ! nat i)"
  by (simp add: py_index_def)

lemma py_index_beyond: "int (length xs) \<le> i \<Longrightarrow> py_index xs i = Inl IndexError"
  by (simp add: py_index_def)

text \<open>Python's py_slice \<open>xs[a:b]\<close> for bounds that are not negative.\<close>

definition py_slice :: "nat \<Rightarrow> nat \<Rightarrow> 'a list \<Rightarrow> 'a list" where
  "py_slice a b xs = take (b - a) (drop a xs)"

lemma py_slice_0 [simp]: "py_slice 0 n xs = take n xs"
  by (simp add: py_slice_def)

lemma length_py_slice: "length (py_slice a b xs) = min (b - a) (length xs - a)"
  by (simp add: py_slice_def)

lemma py_slice_beyond: "length xs \<le> a \<Longrightarrow> py_slice a b xs = []"
  by (simp add: py_slice_def)

section \<open>Lists\<close>

lemma take_append_drop_take: "k \<le> n \<Longrightarrow> take k xs @ take (n - k) (drop k xs) = take n xs"
  by (metis le_add_diff_inverse take_add)

lemma nth_py_slice: "i < b - a \<Longrightarrow> a + i < length xs \<Longrightarrow> py_slice a b xs ! i = xs ! (a + i)"
  by (simp add: py_slice_def)

text \<open>A new key of an association list goes to the end, as in a Python dictionary.\<close>

lemma update_new: "k \<notin> fst ` set d \<Longrightarrow> AList.update k v d = d @ [(k, v)]"
  by (induction d) auto

text \<open>A loop that threads a state through a list of inputs and collects the outputs.\<close>

fun run_loop :: "('s \<Rightarrow> 'i \<Rightarrow> 's \<times> 'o) \<Rightarrow> 's \<Rightarrow> 'i list \<Rightarrow> 's \<times> 'o list" where
  "run_loop f s [] = (s, [])"
| "run_loop f s (i # is) =
     (let (s1, out) = f s i; (s2, outs) = run_loop f s1 is in (s2, out # outs))"

lemma run_loop_append:
  "run_loop f s (xs @ ys) =
     (let (s1, o1) = run_loop f s xs; (s2, o2) = run_loop f s1 ys in (s2, o1 @ o2))"
  by (induction xs arbitrary: s) (auto simp: Let_def split: prod.splits)

lemma run_loop_joined:
  "run_loop f s xs = (s1, o1) \<Longrightarrow> run_loop f s1 ys = (s2, o2) \<Longrightarrow> run_loop f s (xs @ ys) = (s2, o1 @ o2)"
  by (simp add: run_loop_append)

lemma length_run_loop [simp]: "length (snd (run_loop f s xs)) = length xs"
  by (induction xs arbitrary: s) (simp_all add: Let_def split_beta)

text \<open>The same for a step that can raise; the first exception ends the loop.\<close>

fun run_result :: "('s \<Rightarrow> 'i \<Rightarrow> ('s \<times> 'o) py_result) \<Rightarrow> 's \<Rightarrow> 'i list \<Rightarrow> ('s \<times> 'o list) py_result" where
  "run_result f s [] = Inr (s, [])"
| "run_result f s (i # is) =
     bind_result (f s i) (\<lambda>(s1, out).
     bind_result (run_result f s1 is) (\<lambda>(s2, outs). Inr (s2, out # outs)))"

lemma run_result_append:
  "run_result f s (xs @ ys) =
     bind_result (run_result f s xs) (\<lambda>(s1, o1).
     bind_result (run_result f s1 ys) (\<lambda>(s2, o2). Inr (s2, o1 @ o2)))"
proof (induction xs arbitrary: s)
  case Nil
  then show ?case by (cases "run_result f s ys") auto
next
  case (Cons x xs)
  show ?case
  proof (cases "f s x")
    case (Inr r)
    obtain s1 out where r: "r = (s1, out)" by (cases r)
    show ?thesis using Cons [of s1] Inr r
      by (cases "run_result f s1 xs") (auto simp: bind_result_def split: sum.splits prod.splits)
  qed simp
qed

lemma run_result_joined:
  "run_result f s xs = Inr (s1, o1) \<Longrightarrow> run_result f s1 ys = Inr (s2, o2) \<Longrightarrow>
   run_result f s (xs @ ys) = Inr (s2, o1 @ o2)"
  by (simp add: run_result_append)

lemma length_run_result: "run_result f s xs = Inr (s', os) \<Longrightarrow> length os = length xs"
  by (induction xs arbitrary: s os) (auto simp: bind_result_Inr)

text \<open>A loop that only changes its state and can raise.\<close>

fun fold_result :: "('s \<Rightarrow> 'i \<Rightarrow> 's py_result) \<Rightarrow> 's \<Rightarrow> 'i list \<Rightarrow> 's py_result" where
  "fold_result f s [] = Inr s"
| "fold_result f s (i # is) = bind_result (f s i) (\<lambda>s1. fold_result f s1 is)"

lemma fold_result_append:
  "fold_result f s (xs @ ys) = bind_result (fold_result f s xs) (\<lambda>s1. fold_result f s1 ys)"
proof (induction xs arbitrary: s)
  case (Cons x xs)
  then show ?case by (cases "f s x") simp_all
qed simp

section \<open>Transition systems with an invariant\<close>

text \<open>
  The contract of every clocked component: a step function, a start state and an invariant
  the start state has and every step on an admissible input keeps.
\<close>

locale clocked =
  fixes step :: "'s \<Rightarrow> 'i \<Rightarrow> 's \<times> 'o"
    and start :: 's
    and admissible :: "'i \<Rightarrow> bool"
    and inv :: "'s \<Rightarrow> bool"
  assumes inv_start: "inv start"
    and inv_step: "inv s \<Longrightarrow> admissible i \<Longrightarrow> inv (fst (step s i))"
begin

lemma inv_run:
  "inv s \<Longrightarrow> list_all admissible is \<Longrightarrow> inv (fst (run_loop step s is))"
proof (induction "is" arbitrary: s)
  case Nil
  then show ?case by simp
next
  case (Cons i rest)
  from Cons.prems have "inv (fst (step s i))" by (simp add: inv_step)
  with Cons show ?case by (simp add: Let_def split_beta)
qed

lemma inv_reachable: "list_all admissible is \<Longrightarrow> inv (fst (run_loop step start is))"
  by (rule inv_run [OF inv_start])

end

text \<open>
  A clocked component whose outputs satisfy a guarantee whenever the invariant holds: then
  every output of a run does.
\<close>

locale guarded_clocked = clocked +
  fixes good :: "'c \<Rightarrow> bool"
  assumes good_step: "inv s \<Longrightarrow> admissible i \<Longrightarrow> good (snd (step s i))"
begin

lemma good_run:
  "inv s \<Longrightarrow> list_all admissible is \<Longrightarrow> list_all good (snd (run_loop step s is))"
proof (induction "is" arbitrary: s)
  case Nil
  then show ?case by simp
next
  case (Cons i rest)
  then have "inv (fst (step s i))" and "good (snd (step s i))"
    by (simp_all add: inv_step good_step)
  with Cons show ?case by (simp add: Let_def split_beta)
qed

end

end
