(* ===== verification/Py_Bytes.thy ===== *)
theory Py_Bytes
  imports Prelude
begin

text \<open>
  Python's byte strings and the integer conversions the program calls on them:
  \<open>int.from_bytes\<close>, \<open>int.to_bytes\<close>, \<open>struct.unpack\<close> and \<open>bin(x).count("1")\<close>. A byte string
  is a list of integers between 0 and 255. None of this is code of the repository, so
  nothing here is mapped; the components below call it.
\<close>

definition is_byte :: "int \<Rightarrow> bool" where
  "is_byte b \<longleftrightarrow> 0 \<le> b \<and> b < 256"

definition is_bytes :: "int list \<Rightarrow> bool" where
  "is_bytes bs \<longleftrightarrow> list_all is_byte bs"

lemma is_bytes_simps [simp]:
  "is_bytes []"
  "is_bytes (b # bs) \<longleftrightarrow> is_byte b \<and> is_bytes bs"
  "is_bytes (xs @ ys) \<longleftrightarrow> is_bytes xs \<and> is_bytes ys"
  "is_bytes (replicate n b) \<longleftrightarrow> n = 0 \<or> is_byte b"
  "is_bytes (rev xs) \<longleftrightarrow> is_bytes xs"
  by (auto simp: is_bytes_def list_all_iff)

lemma is_bytes_take [simp, intro]: "is_bytes bs \<Longrightarrow> is_bytes (take n bs)"
  by (auto simp: is_bytes_def list_all_iff dest: in_set_takeD)

lemma is_bytes_drop [simp, intro]: "is_bytes bs \<Longrightarrow> is_bytes (drop n bs)"
  by (auto simp: is_bytes_def list_all_iff dest: in_set_dropD)

lemma is_bytes_nth: "is_bytes bs \<Longrightarrow> i < length bs \<Longrightarrow> is_byte (bs ! i)"
  by (simp add: is_bytes_def list_all_length)

lemma is_byte_zero [simp]: "is_byte 0"
  by (simp add: is_byte_def)

section \<open>Byte strings as integers\<close>

definition from_be :: "int list \<Rightarrow> int" where
  "from_be bs = foldl (\<lambda>a b. 256 * a + b) 0 bs"

fun from_le :: "int list \<Rightarrow> int" where
  "from_le [] = 0"
| "from_le (b # bs) = b + 256 * from_le bs"

fun to_le :: "nat \<Rightarrow> int \<Rightarrow> int list" where
  "to_le 0 n = []"
| "to_le (Suc k) n = n mod 256 # to_le k (n div 256)"

definition to_be :: "nat \<Rightarrow> int \<Rightarrow> int list" where
  "to_be k n = rev (to_le k n)"

text \<open>Padding with zeros, written out.\<close>

lemma zeros_read: "replicate 5 (0::int) = [0, 0, 0, 0, 0]" "replicate 7 (0::int) = [0, 0, 0, 0, 0, 0, 0]"
  by (simp_all add: numeral_eq_Suc)

lemma from_be_rev: "from_be bs = from_le (rev bs)"
proof -
  have "foldl (\<lambda>a b. 256 * a + b) 0 (rev cs) = from_le cs" for cs :: "int list"
    by (induction cs) simp_all
  from this [of "rev bs"] show ?thesis by (simp add: from_be_def)
qed

lemma from_le_range:
  "is_bytes bs \<Longrightarrow> 0 \<le> from_le bs \<and> from_le bs < 256 ^ length bs"
  by (induction bs) (auto simp: is_byte_def)

lemma from_be_range:
  "is_bytes bs \<Longrightarrow> 0 \<le> from_be bs \<and> from_be bs < 256 ^ length bs"
  using from_le_range [of "rev bs"] by (simp add: from_be_rev)

lemma length_to_le [simp]: "length (to_le k n) = k"
  by (induction k arbitrary: n) simp_all

lemma length_to_be [simp]: "length (to_be k n) = k"
  by (simp add: to_be_def)

lemma is_bytes_to_le [simp]: "is_bytes (to_le k n)"
  by (induction k arbitrary: n) (simp_all add: is_byte_def)

lemma is_bytes_to_be [simp]: "is_bytes (to_be k n)"
  by (simp add: to_be_def)

lemma to_le_from_le: "is_bytes bs \<Longrightarrow> to_le (length bs) (from_le bs) = bs"
  by (induction bs) (auto simp: is_byte_def)

lemma to_be_from_be: "is_bytes bs \<Longrightarrow> to_be (length bs) (from_be bs) = bs"
  using to_le_from_le [of "rev bs"] by (simp add: to_be_def from_be_rev)

lemma from_le_to_le: "0 \<le> n \<Longrightarrow> n < 256 ^ k \<Longrightarrow> from_le (to_le k n) = n"
proof (induction k arbitrary: n)
  case 0
  then show ?case by simp
next
  case (Suc k)
  then have "n div 256 < 256 ^ k" and "0 \<le> n div 256" by simp_all
  with Suc.IH have "from_le (to_le k (n div 256)) = n div 256" by blast
  then show ?case by simp
qed

lemma from_be_to_be: "0 \<le> n \<Longrightarrow> n < 256 ^ k \<Longrightarrow> from_be (to_be k n) = n"
  by (simp add: to_be_def from_be_rev from_le_to_le)

lemma nth_to_le: "j < k \<Longrightarrow> to_le k n ! j = n div 256 ^ j mod 256"
proof (induction k arbitrary: n j)
  case 0
  then show ?case by simp
next
  case (Suc k)
  show ?case
  proof (cases j)
    case 0
    then show ?thesis by simp
  next
    case (Suc i)
    then have "to_le k (n div 256) ! i = n div 256 div 256 ^ i mod 256"
      using Suc.prems Suc.IH by simp
    then show ?thesis using Suc by (simp add: zdiv_zmult2_eq)
  qed
qed

lemma nth_to_be: "j < k \<Longrightarrow> to_be k n ! j = n div 256 ^ (k - 1 - j) mod 256"
  by (simp add: to_be_def rev_nth nth_to_le)

section \<open>Population count\<close>

fun ones :: "nat \<Rightarrow> nat" where
  "ones n = (if n = 0 then 0 else n mod 2 + ones (n div 2))"

declare ones.simps [simp del]

lemma ones_0 [simp]: "ones 0 = 0"
  by (simp add: ones.simps)

lemma ones_even: "ones (2 * n) = ones n"
  by (cases "n = 0") (simp_all add: ones.simps [of "2 * n"])

lemma ones_odd: "ones (Suc (2 * n)) = Suc (ones n)"
  by (simp add: ones.simps [of "Suc (2 * n)"])

definition popcount :: "int \<Rightarrow> nat" where
  "popcount k = ones (nat k)"

text \<open>The mask with the low \<open>n\<close> bits set, \<open>(1 << n) - 1\<close>, has \<open>n\<close> bits set.\<close>

lemma popcount_mask [simp]: "popcount (2 ^ n - 1) = n"
proof -
  have "ones (2 ^ n - 1) = n"
  proof (induction n)
    case 0
    then show ?case by simp
  next
    case (Suc n)
    have "1 \<le> (2::nat) ^ n" by simp
    then have "(2::nat) ^ Suc n - 1 = Suc (2 * (2 ^ n - 1))"
      unfolding power_Suc by arith
    then show ?case using Suc by (simp only: ones_odd)
  qed
  then show ?thesis by (simp add: popcount_def nat_diff_distrib nat_power_eq)
qed

lemma popcount_255 [simp]: "popcount 255 = 8"
  using popcount_mask [of 8] by simp

lemma ones_le: "n < 2 ^ k \<Longrightarrow> ones n \<le> k"
proof (induction k arbitrary: n)
  case 0
  then show ?case by simp
next
  case (Suc k)
  then have "ones (n div 2) \<le> k" by simp
  moreover have "n mod 2 \<le> 1" by simp
  ultimately show ?case by (subst ones.simps) (simp add: add_le_mono order_trans)
qed

lemma popcount_le_8: "keep < 256 \<Longrightarrow> popcount keep \<le> 8"
  using ones_le [of "nat keep" 8] by (simp add: popcount_def)

lemma popcount_push_mask [simp]: "popcount (push_bit k (mask n)) = n"
proof -
  have shift: "ones (2 ^ k * x) = ones x" for x
    by (induction k) (simp_all add: ones_even mult.assoc)
  have "nat (push_bit k (mask n)) = 2 ^ k * (2 ^ n - 1)"
    by (simp add: push_bit_eq_mult mask_eq_exp_minus_1 nat_mult_distrib nat_diff_distrib nat_power_eq)
  moreover have "ones (2 ^ n - 1) = n"
    using popcount_mask [of n] by (simp add: popcount_def nat_diff_distrib nat_power_eq)
  ultimately show ?thesis by (simp add: popcount_def shift)
qed

end
