(* ===== verification/Pcap_Files.thy ===== *)
theory Pcap_Files
  imports Py_Bytes
begin

text \<open>
  Reading pcap files: \<open>pcap_frames\<close> of \<open>ip_export/netlist_sim/gen_frames.py\<close>, \<open>pcap_msgs\<close> of
  \<open>parser_model.py\<close> and \<open>pcap_frames\<close> of \<open>eval_sim.py\<close>. The file is a byte list. The outer loop
  always stops; the inner loops, which walk the length-prefixed PITCH messages of a payload,
  raise on a cut message and do not return on a length byte of zero, so their result is an
  option (no result) of a sum (exception).
\<close>

section \<open>Records of the file\<close>

text \<open>\<open>struct.unpack("<IIII", ...)\<close> or \<open>">IIII"\<close>, of which only the third value is used.\<close>

definition unpack_u32 :: "bool \<Rightarrow> int list \<Rightarrow> nat" where
  "unpack_u32 swap bs = nat (if swap then from_le bs else from_be bs)"

definition pcap_swapped :: "int list \<Rightarrow> bool" where
  "pcap_swapped d \<longleftrightarrow> take 4 d = [0xd4, 0xc3, 0xb2, 0xa1]"

text \<open>The offset of each record header with the record's captured length.\<close>

function pcap_spans :: "bool \<Rightarrow> int list \<Rightarrow> nat \<Rightarrow> (nat \<times> nat) list" where
  "pcap_spans swap d off =
     (if off + 16 \<le> length d then
        (let incl = unpack_u32 swap (py_slice (off + 8) (off + 12) d)
         in (off, incl) # pcap_spans swap d (off + 16 + incl))
      else [])"
  by pat_completeness auto
termination
  by (relation "measure (\<lambda>(swap, d, off). length d - off)") auto

declare pcap_spans.simps [simp del]

definition pcap_frames :: "int list \<Rightarrow> int list list" where
  "pcap_frames d =
     map (\<lambda>(off, incl). py_slice (off + 16) (off + 16 + incl) d) (pcap_spans (pcap_swapped d) d 24)"

text \<open>The payload behind 42 bytes of Ethernet, IPv4 and UDP headers.\<close>

definition record_payload :: "int list \<Rightarrow> nat \<Rightarrow> nat \<Rightarrow> int list" where
  "record_payload d off incl = py_slice (off + 16 + 42) (off + 16 + incl) d"

section \<open>The messages of a payload\<close>

partial_function (option) msg_offsets ::
    "int list \<Rightarrow> nat \<Rightarrow> (nat \<times> int \<times> int) list \<Rightarrow> (nat \<times> int \<times> int) list py_result option" where
  "msg_offsets p k msgs =
     (if k < length p then
        (if k + 1 < length p
         then msg_offsets p (k + nat (p ! k)) (msgs @ [(k, p ! k, p ! (k + 1))])
         else Some (Inl IndexError))
      else Some (Inr msgs))"

partial_function (option) msg_slices ::
    "int list \<Rightarrow> nat \<Rightarrow> int list list \<Rightarrow> int list list option" where
  "msg_slices p k msgs =
     (if k < length p
      then msg_slices p (k + nat (p ! k)) (msgs @ [py_slice k (k + nat (p ! k)) p])
      else Some msgs)"

text \<open>The whole file: the first record whose walk raises or never ends decides.\<close>

fun collect_msgs :: "int list \<Rightarrow> (nat \<times> nat) list \<Rightarrow>
    (nat \<times> (nat \<times> int \<times> int) list) list py_result option" where
  "collect_msgs d [] = Some (Inr [])"
| "collect_msgs d ((off, incl) # spans) =
     (let p = record_payload d off incl
      in case msg_offsets p 8 [] of
           None \<Rightarrow> None
         | Some (Inl e) \<Rightarrow> Some (Inl e)
         | Some (Inr msgs) \<Rightarrow>
             (case collect_msgs d spans of
                None \<Rightarrow> None
              | Some (Inl e) \<Rightarrow> Some (Inl e)
              | Some (Inr rest) \<Rightarrow> Some (Inr ((length p, msgs) # rest))))"

definition pcap_msgs :: "int list \<Rightarrow> (nat \<times> (nat \<times> int \<times> int) list) list py_result option" where
  "pcap_msgs d = collect_msgs d (pcap_spans (pcap_swapped d) d 24)"

text \<open>\<open>eval_sim.py\<close> keeps the bytes of each message.\<close>

fun collect_slices :: "int list \<Rightarrow> (nat \<times> nat) list \<Rightarrow> (nat \<times> int list list) list option" where
  "collect_slices d [] = Some []"
| "collect_slices d ((off, incl) # spans) =
     (let p = record_payload d off incl
      in case msg_slices p 8 [] of
           None \<Rightarrow> None
         | Some msgs \<Rightarrow> map_option (\<lambda>rest. (length p, msgs) # rest) (collect_slices d spans))"

definition eval_pcap_frames :: "int list \<Rightarrow> (nat \<times> int list list) list option" where
  "eval_pcap_frames d = collect_slices d (pcap_spans (pcap_swapped d) d 24)"

section \<open>Files as they are written\<close>

text \<open>A record header with both lengths, and a file of such records (little-endian).\<close>

definition pcap_record :: "int list \<Rightarrow> int list \<Rightarrow> int list" where
  "pcap_record stamp frame =
     stamp @ to_le 4 (int (length frame)) @ to_le 4 (int (length frame)) @ frame"

definition pcap_file :: "int list \<Rightarrow> (int list \<times> int list) list \<Rightarrow> int list" where
  "pcap_file hdr recs =
     [0xd4, 0xc3, 0xb2, 0xa1] @ hdr @ concat (map (\<lambda>(stamp, frame). pcap_record stamp frame) recs)"

definition wf_pcap :: "int list \<Rightarrow> (int list \<times> int list) list \<Rightarrow> bool" where
  "wf_pcap hdr recs \<longleftrightarrow> length hdr = 20 \<and>
     list_all (\<lambda>(stamp, frame). length stamp = 8 \<and> length frame < 2 ^ 32) recs"

text \<open>The spans of a file whose records start at offset \<open>off\<close>.\<close>

fun spans_of :: "nat \<Rightarrow> (int list \<times> int list) list \<Rightarrow> (nat \<times> nat) list" where
  "spans_of off [] = []"
| "spans_of off ((stamp, frame) # recs) =
     (off, length frame) # spans_of (off + 16 + length frame) recs"

lemma pcap_spans_end: "length d < off + 16 \<Longrightarrow> pcap_spans swap d off = []"
  by (subst pcap_spans.simps) simp

lemma pcap_spans_step:
  assumes "length pre = off" and "length stamp = 8" and "length frame < 2 ^ 32"
    and "d = pre @ pcap_record stamp frame @ rest"
  shows "pcap_spans True d off = (off, length frame) # pcap_spans True d (off + 16 + length frame)"
proof -
  have "py_slice (off + 8) (off + 12) d = to_le 4 (int (length frame))"
    using assms by (simp add: py_slice_def pcap_record_def)
  moreover have "from_le (to_le 4 (int (length frame))) = int (length frame)"
    using assms(3) by (intro from_le_to_le) simp_all
  ultimately have "unpack_u32 True (py_slice (off + 8) (off + 12) d) = length frame"
    by (simp add: unpack_u32_def)
  moreover have "off + 16 \<le> length d" using assms by (simp add: pcap_record_def)
  ultimately show ?thesis by (subst pcap_spans.simps) (simp add: Let_def)
qed

lemma pcap_spans_records:
  assumes "list_all (\<lambda>(stamp, frame). length stamp = 8 \<and> length frame < 2 ^ 32) recs"
    and "length pre = off" and "length rest < 16"
    and "d = pre @ concat (map (\<lambda>(stamp, frame). pcap_record stamp frame) recs) @ rest"
  shows "pcap_spans True d off = spans_of off recs"
  using assms
proof (induction recs arbitrary: pre off)
  case Nil
  then show ?case by (simp add: pcap_spans_end)
next
  case (Cons r recs)
  obtain stamp frame where r: "r = (stamp, frame)" by (cases r)
  have ok: "length stamp = 8" "length frame < 2 ^ 32" using Cons.prems(1) by (simp_all add: r)
  let ?rest = "concat (map (\<lambda>(stamp, frame). pcap_record stamp frame) recs) @ rest"
  have d: "d = pre @ pcap_record stamp frame @ ?rest" using Cons.prems(4) by (simp add: r)
  have "pcap_spans True d (off + 16 + length frame) = spans_of (off + 16 + length frame) recs"
    by (rule Cons.IH [of "pre @ pcap_record stamp frame"])
      (use Cons.prems ok r in \<open>simp_all add: pcap_record_def\<close>)
  then show ?case
    using pcap_spans_step [OF Cons.prems(2) ok d] by (simp add: r)
qed

lemma pcap_file_spans:
  "wf_pcap hdr recs \<Longrightarrow> length rest < 16 \<Longrightarrow>
   pcap_spans True (pcap_file hdr recs @ rest) 24 = spans_of 24 recs"
  by (rule pcap_spans_records [of _ "[0xd4, 0xc3, 0xb2, 0xa1] @ hdr"])
    (simp_all add: wf_pcap_def pcap_file_def)

lemma spans_frames:
  assumes "length pre = off" and "list_all (\<lambda>(stamp, frame). length stamp = 8 \<and> length frame < 2 ^ 32) recs"
  shows "map (\<lambda>(off, incl). py_slice (off + 16) (off + 16 + incl)
      (pre @ concat (map (\<lambda>(stamp, frame). pcap_record stamp frame) recs) @ rest))
    (spans_of off recs) = map snd recs"
  using assms
proof (induction recs arbitrary: pre off)
  case Nil
  then show ?case by simp
next
  case (Cons r recs)
  obtain stamp frame where r: "r = (stamp, frame)" by (cases r)
  have "length stamp = 8" using Cons.prems by (simp add: r)
  with Cons.IH [of "pre @ pcap_record stamp frame"] Cons.prems show ?case
    by (simp add: r) (simp add: pcap_record_def py_slice_def add.assoc)
qed

lemma pcap_file_frames:
  assumes "wf_pcap hdr recs" and "length rest < 16"
  shows "pcap_frames (pcap_file hdr recs @ rest) = map snd recs"
proof -
  have "pcap_swapped (pcap_file hdr recs @ rest)" by (simp add: pcap_swapped_def pcap_file_def)
  moreover have "length ([0xd4, 0xc3, 0xb2, 0xa1] @ hdr) = 24" using assms(1) by (simp add: wf_pcap_def)
  from spans_frames [OF this, of recs rest]
  have "map (\<lambda>(off, incl). py_slice (off + 16) (off + 16 + incl) (pcap_file hdr recs @ rest))
      (spans_of 24 recs) = map snd recs"
    using assms(1) by (simp add: wf_pcap_def pcap_file_def)
  ultimately show ?thesis using pcap_file_spans [OF assms] by (simp add: pcap_frames_def)
qed

section \<open>Walking the messages\<close>

text \<open>A message as the walk needs it: at least two bytes, the first of them the length.\<close>

definition walkable :: "int list \<Rightarrow> bool" where
  "walkable m \<longleftrightarrow> 2 \<le> length m \<and> hd m = int (length m)"

fun offsets_of :: "nat \<Rightarrow> int list list \<Rightarrow> (nat \<times> int \<times> int) list" where
  "offsets_of k [] = []"
| "offsets_of k (m # ms) = (k, int (length m), m ! 1) # offsets_of (k + length m) ms"

lemma walkable_ne: "walkable m \<Longrightarrow> m \<noteq> []"
  by (cases m) (simp_all add: walkable_def)

lemma walk_front:
  assumes "p = pre @ m @ rest" and "walkable m"
  shows "p ! length pre = int (length m)" "p ! (length pre + 1) = m ! 1"
    "length pre + 1 < length p" "py_slice (length pre) (length pre + length m) p = m"
  using assms by (auto simp: walkable_def nth_append py_slice_def hd_conv_nth)

lemma msg_offsets_walk:
  "list_all walkable ms \<Longrightarrow> p = pre @ concat ms \<Longrightarrow>
   msg_offsets p (length pre) acc = Some (Inr (acc @ offsets_of (length pre) ms))"
proof (induction ms arbitrary: pre acc)
  case Nil
  then show ?case by (simp add: msg_offsets.simps)
next
  case (Cons m ms)
  then have p: "p = pre @ m @ concat ms" and m: "walkable m" by simp_all
  from Cons.IH [of "pre @ m"] Cons.prems walk_front [OF p m] walkable_ne [OF m]
  show ?case by (subst msg_offsets.simps) (simp add: walkable_def)
qed

lemma msg_slices_walk:
  "list_all walkable ms \<Longrightarrow> p = pre @ concat ms \<Longrightarrow>
   msg_slices p (length pre) acc = Some (acc @ ms)"
proof (induction ms arbitrary: pre acc)
  case Nil
  then show ?case by (simp add: msg_slices.simps)
next
  case (Cons m ms)
  then have p: "p = pre @ m @ concat ms" and m: "walkable m" by simp_all
  from Cons.IH [of "pre @ m"] Cons.prems walk_front [OF p m] walkable_ne [OF m]
  show ?case by (subst msg_slices.simps) (simp add: walkable_def)
qed

lemma msg_offsets_stuck:
  assumes "msg_offsets p k acc = Some r" and "k + 1 < length p" and "p ! k \<le> 0"
  shows False
proof -
  have "k + 1 < length p \<longrightarrow> p ! k \<le> 0 \<longrightarrow> False"
  proof (rule msg_offsets.raw_induct [where P = "\<lambda>p k acc r. k + 1 < length p \<longrightarrow> p ! k \<le> 0 \<longrightarrow> False",
        OF _ assms(1)], intro impI)
    fix f p k acc r
    assume IH: "\<And>p k acc r. f p k acc = Some r \<Longrightarrow> k + 1 < length p \<longrightarrow> p ! k \<le> 0 \<longrightarrow> False"
      and eq: "(if k < length p then if k + 1 < length p
             then f p (k + nat (p ! k)) (acc @ [(k, p ! k, p ! (k + 1))])
             else Some (Inl IndexError) else Some (Inr acc)) = Some r"
      and k: "k + 1 < length p" "p ! k \<le> 0"
    from eq k have "f p k (acc @ [(k, p ! k, p ! (k + 1))]) = Some r" by simp
    with IH k show False by blast
  qed
  with assms(2,3) show ?thesis by blast
qed

lemma msg_offsets_zero_length: 
  assumes "list_all walkable ms" and "p = pre @ concat ms @ 0 # b # rest"
  shows "msg_offsets p (length pre) acc = None"
  using assms
proof (induction ms arbitrary: pre acc)
  case Nil
  then have "p ! length pre = 0" "length pre + 1 < length p" by (simp_all add: nth_append)
  then show ?case using msg_offsets_stuck [of p "length pre" acc] by (metis not_None_eq order_refl)
next
  case (Cons m ms)
  then have p: "p = pre @ m @ (concat ms @ 0 # b # rest)" and m: "walkable m" by simp_all
  from Cons.IH [of "pre @ m"] Cons.prems walk_front [OF p m] walkable_ne [OF m]
  show ?case by (subst msg_offsets.simps) (simp add: walkable_def)
qed

section \<open>Properties\<close>

text \<open>C34. Reading a capture file returns exactly the frames that were written to it, in order, for any
  number of records and frame lengths below 2 to the 32, with fewer than 16 stray bytes at the
  end of the file ignored.\<close>
theorem pcap_frames_roundtrip:
  assumes "wf_pcap hdr recs" and "length rest < 16"
  shows "pcap_frames (pcap_file hdr recs @ rest) = map snd recs"
  by (rule pcap_file_frames [OF assms])

theorem pcap_frames_roundtrip_witness:
  "pcap_frames (pcap_file (replicate 20 0) [(replicate 8 0, [1, 2, 3]), (replicate 8 7, [])] @ [9, 9])
     = [[1, 2, 3], []]"
  using pcap_frames_roundtrip [of "replicate 20 0" "[(replicate 8 0, [1, 2, 3]), (replicate 8 7, [])]" "[9, 9]"]
  by (simp add: wf_pcap_def)

text \<open>C39. The walk of \<open>pcap_msgs\<close> over the length-prefixed messages behind the unit header returns
  every message's offset, length and type when each message's first byte is its length; when a
  length byte of zero follows (the zero padding of a short Ethernet frame, for one), the walk never
  returns.\<close>
theorem message_walk:
  assumes "length hdr = 8" and "list_all walkable ms"
  shows "msg_offsets (hdr @ concat ms) 8 [] = Some (Inr (offsets_of 8 ms)) \<and>
    msg_offsets (hdr @ concat ms @ 0 # b # rest) 8 [] = None"
proof
  show "msg_offsets (hdr @ concat ms) 8 [] = Some (Inr (offsets_of 8 ms))"
    using msg_offsets_walk [OF assms(2) refl, of hdr "[]"] assms(1) by simp
  show "msg_offsets (hdr @ concat ms @ 0 # b # rest) 8 [] = None"
    using msg_offsets_zero_length [OF assms(2) refl, of hdr b rest "[]"] assms(1) by simp
qed

theorem message_walk_witness:
  "msg_offsets (replicate 8 0 @ [6, 0x20, 1, 2, 3, 4] @ [3, 0x99, 5]) 8 [] =
     Some (Inr [(8, 6, 0x20), (14, 3, 0x99)]) \<and>
   msg_offsets (replicate 8 0 @ [6, 0x20, 1, 2, 3, 4] @ [3, 0x99, 5] @ [0, 0, 0]) 8 [] = None"
  using message_walk [of "replicate 8 0" "[[6, 0x20, 1, 2, 3, 4], [3, 0x99, 5]]" 0 "[0]"]
  by (simp add: walkable_def)

end
