(* ===== verification/Py_Text.thy ===== *)
theory Py_Text
  imports Prelude
begin

text \<open>
  The text operations of Python that the program uses: \<open>str.split()\<close>, iteration over the lines
  of a file, integers printed in decimal and in padded hexadecimal, and \<open>int(s, base)\<close>. They are
  the language's, not the repository's; the lemmas are the round trips the components need.
\<close>

section \<open>White space and words\<close>

definition is_space :: "char \<Rightarrow> bool" where
  "is_space c \<longleftrightarrow> of_char c \<in> {9, 10, 11, 12, 13, 28, 29, 30, 31, 32, 133, 160 :: nat}"

fun split_words :: "string \<Rightarrow> string \<Rightarrow> string list" where
  "split_words w [] = (if w = [] then [] else [w])"
| "split_words w (c # cs) =
     (if is_space c then (if w = [] then split_words [] cs else w # split_words [] cs)
      else split_words (w @ [c]) cs)"

definition py_split :: "string \<Rightarrow> string list" where
  "py_split s = split_words [] s"

definition is_token :: "string \<Rightarrow> bool" where
  "is_token w \<longleftrightarrow> w \<noteq> [] \<and> list_all (\<lambda>c. \<not> is_space c) w"

lemma split_words_token:
  "list_all (\<lambda>c. \<not> is_space c) t \<Longrightarrow> split_words w (t @ cs) = split_words (w @ t) cs"
  by (induction t arbitrary: w) simp_all

fun join_words :: "string list \<Rightarrow> string" where
  "join_words [] = []"
| "join_words [w] = w"
| "join_words (w # v # ws) = w @ '' '' @ join_words (v # ws)"

lemma py_split_join:
  assumes "list_all is_token ws" and "is_space c"
  shows "py_split (join_words ws @ [c]) = ws"
proof -
  have sp: "is_space (CHR '' '')" by (simp add: is_space_def)
  from assms(1) show ?thesis unfolding py_split_def
  proof (induction ws rule: join_words.induct)
    case 1
    then show ?case using assms(2) by simp
  next
    case (2 w)
    then show ?case using assms(2) by (simp add: is_token_def split_words_token)
  next
    case (3 w v ws)
    then show ?case using sp by (simp add: is_token_def split_words_token)
  qed
qed

section \<open>Lines\<close>

text \<open>Text mode: carriage returns end a line like newlines, and the line keeps one newline.\<close>

fun py_lines :: "string \<Rightarrow> string \<Rightarrow> string list" where
  "py_lines l [] = (if l = [] then [] else [l])"
| "py_lines l (c # cs) =
     (if c = CHR 10 then (l @ [CHR 10]) # py_lines [] cs
      else if c = CHR 13 then
        (l @ [CHR 10]) # py_lines [] (if cs \<noteq> [] \<and> hd cs = CHR 10 then tl cs else cs)
      else py_lines (l @ [c]) cs)"

definition plain_line :: "string \<Rightarrow> bool" where
  "plain_line l \<longleftrightarrow> list_all (\<lambda>c. c \<noteq> CHR 10 \<and> c \<noteq> CHR 13) l"

lemma py_lines_plain:
  "plain_line l \<Longrightarrow> py_lines k (l @ CHR 10 # cs) = (k @ l @ [CHR 10]) # py_lines [] cs"
  by (induction l arbitrary: k) (simp_all add: plain_line_def)

lemma py_lines_concat:
  "list_all plain_line ls \<Longrightarrow>
   py_lines [] (concat (map (\<lambda>l. l @ [CHR 10]) ls)) = map (\<lambda>l. l @ [CHR 10]) ls"
  by (induction ls) (simp_all add: py_lines_plain)

section \<open>Printing numbers\<close>

definition digit_char :: "nat \<Rightarrow> char" where
  "digit_char d = (if d < 10 then char_of (48 + d) else char_of (87 + d))"

fun nat_digits :: "nat \<Rightarrow> nat \<Rightarrow> string" where
  "nat_digits base n =
     (if n < base \<or> base < 2 then [digit_char n]
      else nat_digits base (n div base) @ [digit_char (n mod base)])"

declare nat_digits.simps [simp del]

definition to_dec :: "nat \<Rightarrow> string" where
  "to_dec n = nat_digits 10 n"

definition pad_zeros :: "nat \<Rightarrow> string \<Rightarrow> string" where
  "pad_zeros w s = replicate (w - length s) (CHR ''0'') @ s"

definition to_hex :: "nat \<Rightarrow> nat \<Rightarrow> string" where
  "to_hex w n = pad_zeros w (nat_digits 16 n)"

section \<open>Reading numbers\<close>

definition digit_val :: "char \<Rightarrow> nat option" where
  "digit_val c =
     (let k = of_char c :: nat
      in if 48 \<le> k \<and> k \<le> 57 then Some (k - 48)
         else if 97 \<le> k \<and> k \<le> 122 then Some (k - 87)
         else if 65 \<le> k \<and> k \<le> 90 then Some (k - 55)
         else None)"

text \<open>Digits with single underscores between them; the flag says that a digit came last.\<close>

fun read_digits :: "nat \<Rightarrow> bool \<Rightarrow> nat \<Rightarrow> string \<Rightarrow> nat option" where
  "read_digits base seen acc [] = (if seen then Some acc else None)"
| "read_digits base seen acc (c # cs) =
     (if c = CHR ''_'' then (if seen then read_digits base False acc cs else None)
      else case digit_val c of
             None \<Rightarrow> None
           | Some d \<Rightarrow> if d < base then read_digits base True (base * acc + d) cs else None)"

definition strip_prefix :: "nat \<Rightarrow> string \<Rightarrow> bool \<times> string" where
  "strip_prefix base s =
     (if base = 16 \<and> (take 2 s = ''0x'' \<or> take 2 s = ''0X'') then (True, drop 2 s) else (False, s))"

definition read_nat :: "nat \<Rightarrow> string \<Rightarrow> nat option" where
  "read_nat base s = (let (pre, t) = strip_prefix base s in read_digits base pre 0 t)"

definition py_strip :: "string \<Rightarrow> string" where
  "py_strip s = rev (dropWhile is_space (rev (dropWhile is_space s)))"

definition py_int :: "nat \<Rightarrow> string \<Rightarrow> int py_result" where
  "py_int base s0 =
     (let s = py_strip s0;
          (neg, t) = (case s of c # cs \<Rightarrow>
              if c = CHR ''-'' then (True, cs) else if c = CHR ''+'' then (False, cs) else (False, s)
            | [] \<Rightarrow> (False, s))
      in if t = [] then Inl ValueError
         else case read_nat base t of
                None \<Rightarrow> Inl ValueError
              | Some n \<Rightarrow> Inr (if neg then - int n else int n))"

section \<open>Round trips\<close>

lemma digit_char_code: "d < 16 \<Longrightarrow> of_char (digit_char d) = (if d < 10 then 48 + d else 87 + d :: nat)"
  by (simp add: digit_char_def)

lemma digit_char_val: "d < 16 \<Longrightarrow> digit_val (digit_char d) = Some d"
  by (simp add: digit_val_def digit_char_code Let_def)

lemma char_codeD: "c = d \<Longrightarrow> (of_char c :: nat) = of_char d"
  by simp

lemma digit_char_plain:
  assumes "d < 16"
  shows "\<not> is_space (digit_char d)" "digit_char d \<noteq> CHR ''_''" "digit_char d \<noteq> CHR ''-''"
    "digit_char d \<noteq> CHR ''+''" "digit_char d \<noteq> CHR ''x''" "digit_char d \<noteq> CHR ''X''"
    "digit_char d \<noteq> CHR 10" "digit_char d \<noteq> CHR 13"
  using assms by (auto simp: is_space_def digit_char_code dest!: char_codeD split: if_splits)

definition digit_string :: "nat \<Rightarrow> string \<Rightarrow> bool" where
  "digit_string base s \<longleftrightarrow> s \<noteq> [] \<and> list_all (\<lambda>c. \<exists>d < base. c = digit_char d) s"

lemma nat_digits_string: "2 \<le> base \<Longrightarrow> digit_string base (nat_digits base n)"
proof (induction base n rule: nat_digits.induct)
  case (1 base n)
  moreover have "\<exists>d<base. digit_char (n mod base) = digit_char d"
    by (rule exI [of _ "n mod base"]) (use "1.prems" in simp)
  ultimately show ?case by (subst nat_digits.simps) (auto simp: digit_string_def)
qed

lemma read_digits_append:
  "base \<le> 16 \<Longrightarrow> list_all (\<lambda>c. \<exists>d < base. c = digit_char d) s \<Longrightarrow>
   read_digits base seen acc (s @ t) =
     read_digits base (seen \<or> s \<noteq> []) (foldl (\<lambda>a c. base * a + the (digit_val c)) acc s) t"
proof (induction s arbitrary: seen acc)
  case Nil
  then show ?case by simp
next
  case (Cons c s)
  then obtain d where "d < base" "c = digit_char d" by auto
  with Cons show ?case by (simp add: digit_char_val digit_char_plain)
qed

lemma fold_digits:
  "2 \<le> base \<Longrightarrow> base \<le> 16 \<Longrightarrow>
   foldl (\<lambda>a c. base * a + the (digit_val c)) 0 (nat_digits base n) = n"
proof (induction base n rule: nat_digits.induct)
  case (1 base n)
  moreover have "n mod base < base" using "1.prems" by simp
  then have "n mod base < 16" using "1.prems" by linarith
  ultimately show ?case by (subst nat_digits.simps) (auto simp: digit_char_val)
qed

lemma fold_zeros:
  "foldl (\<lambda>a c. base * a + the (digit_val c)) 0 (replicate k (CHR ''0'')) = (0::nat)"
  by (induction k) (simp_all add: digit_val_def Let_def)

lemma zero_digit: "CHR ''0'' = digit_char 0"
proof -
  have "of_char (digit_char 0) = (of_char (CHR ''0'') :: nat)" by (simp add: digit_char_code)
  then show ?thesis by (metis char_of_char)
qed

lemma pad_digit_string:
  "0 < base \<Longrightarrow> digit_string base s \<Longrightarrow> digit_string base (pad_zeros w s)"
  by (auto simp: digit_string_def pad_zeros_def zero_digit list_all_iff)

lemma digit_string_facts:
  assumes "digit_string base s" "base \<le> 16"
  shows "is_token s" "plain_line s" "py_strip s = s" "strip_prefix base s = (False, s)"
    and "hd s \<noteq> CHR ''-''" "hd s \<noteq> CHR ''+''"
proof -
  have c: "\<exists>d < 16. c = digit_char d" if "c \<in> set s" for c
    using assms that unfolding digit_string_def list_all_iff by (meson less_le_trans)
  then have nospace: "\<not> is_space c" if "c \<in> set s" for c using that digit_char_plain by blast
  show "is_token s" using assms nospace by (auto simp: is_token_def digit_string_def list_all_iff)
  show "plain_line s" using c digit_char_plain by (fastforce simp: plain_line_def list_all_iff)
  have "dropWhile is_space s = s" "dropWhile is_space (rev s) = rev s"
    using nospace by (cases s, simp, simp) (cases s rule: rev_cases, simp_all add: nospace)
  then show "py_strip s = s" by (simp add: py_strip_def)
  have "c \<notin> set s" if "c = CHR ''x'' \<or> c = CHR ''X''" for c
    using c that digit_char_plain(5,6) by metis
  then have "take 2 s \<noteq> ''0x''" "take 2 s \<noteq> ''0X''"
    by (metis in_set_takeD list.set_intros)+
  then show "strip_prefix base s = (False, s)" by (simp add: strip_prefix_def)
  have "hd s \<in> set s" using assms by (simp add: digit_string_def)
  then show "hd s \<noteq> CHR ''-''" "hd s \<noteq> CHR ''+''" using c digit_char_plain(3,4) by metis+
qed

lemma py_int_digits:
  assumes "digit_string base s" "base \<le> 16" "2 \<le> base"
  shows "py_int base s = Inr (int (foldl (\<lambda>a c. base * a + the (digit_val c)) 0 s))"
proof -
  note facts = digit_string_facts [OF assms(1,2)]
  have s: "s \<noteq> []" "list_all (\<lambda>c. \<exists>d < base. c = digit_char d) s"
    using assms(1) by (simp_all add: digit_string_def)
  from read_digits_append [OF assms(2) s(2), of False 0 "[]"] s(1)
  have "read_nat base s = Some (foldl (\<lambda>a c. base * a + the (digit_val c)) 0 s)"
    by (simp add: read_nat_def facts(4))
  then show ?thesis using s(1) facts(3,5,6) by (cases s) (simp_all add: py_int_def)
qed

lemma py_int_hex [simp]: "py_int 16 (to_hex w n) = Inr (int n)"
proof -
  have d: "digit_string 16 (nat_digits 16 n)" by (rule nat_digits_string) simp
  have "foldl (\<lambda>a c. 16 * a + the (digit_val c)) 0 (to_hex w n) = n"
    using fold_digits [of 16 n] by (simp add: to_hex_def pad_zeros_def fold_zeros)
  then show ?thesis using py_int_digits [OF pad_digit_string [OF _ d], of w] by (simp add: to_hex_def)
qed

lemma py_int_dec [simp]: "py_int 10 (to_dec n) = Inr (int n)"
  using py_int_digits [OF nat_digits_string, of 10 n] fold_digits [of 10 n] by (simp add: to_dec_def)

lemma to_hex_facts: "is_token (to_hex w n)" "plain_line (to_hex w n)"
  using digit_string_facts [OF pad_digit_string [OF _ nat_digits_string], of 16 w n]
  by (simp_all add: to_hex_def)

lemma to_dec_facts: "is_token (to_dec n)" "plain_line (to_dec n)"
  using digit_string_facts [OF nat_digits_string, of 10 n] by (simp_all add: to_dec_def)

section \<open>Splitting text into lines\<close>

text \<open>\<open>str.splitlines()\<close>: the line ends are dropped; besides newlines the vertical tab, form feed, file,
  group and record separators and the next-line character end a line.\<close>

definition line_end :: "char \<Rightarrow> bool" where
  "line_end c \<longleftrightarrow> of_char c \<in> {10, 11, 12, 13, 28, 29, 30, 133 :: nat}"

fun split_lines :: "string \<Rightarrow> string \<Rightarrow> string list" where
  "split_lines l [] = (if l = [] then [] else [l])"
| "split_lines l (c # cs) =
     (if c = CHR 13 then l # split_lines [] (if cs \<noteq> [] \<and> hd cs = CHR 10 then tl cs else cs)
      else if line_end c then l # split_lines [] cs
      else split_lines (l @ [c]) cs)"

definition py_splitlines :: "string \<Rightarrow> string list" where
  "py_splitlines s = split_lines [] s"

definition one_line :: "string \<Rightarrow> bool" where
  "one_line l \<longleftrightarrow> list_all (\<lambda>c. \<not> line_end c) l"

lemma one_line_simps [simp]:
  "one_line []" "one_line (c # l) \<longleftrightarrow> \<not> line_end c \<and> one_line l" "one_line (k @ l) \<longleftrightarrow> one_line k \<and> one_line l"
  by (simp_all add: one_line_def)

lemma split_lines_one: "one_line l \<Longrightarrow> split_lines k (l @ CHR 10 # cs) = (k @ l) # split_lines [] cs"
  by (induction l arbitrary: k) (auto simp: line_end_def)

lemma splitlines_concat:
  "list_all one_line ls \<Longrightarrow> py_splitlines (concat (map (\<lambda>l. l @ [CHR 10]) ls)) = ls"
  unfolding py_splitlines_def by (induction ls) (simp_all add: split_lines_one)

lemma digit_char_one_line: "d < 16 \<Longrightarrow> \<not> line_end (digit_char d)"
  by (simp add: line_end_def digit_char_code)

lemma digit_string_one_line: "digit_string base s \<Longrightarrow> base \<le> 16 \<Longrightarrow> one_line s"
  unfolding digit_string_def one_line_def list_all_iff
  by (metis digit_char_one_line less_le_trans)

section \<open>Hexadecimal bytes\<close>

text \<open>\<open>bytes.fromhex\<close>: pairs of digits, ASCII white space between pairs is skipped.\<close>

definition hex_val :: "char \<Rightarrow> nat option" where
  "hex_val c = (case digit_val c of Some d \<Rightarrow> if d < 16 then Some d else None | None \<Rightarrow> None)"

fun py_fromhex :: "string \<Rightarrow> int list py_result" where
  "py_fromhex [] = Inr []"
| "py_fromhex (c # cs) =
     (if of_char c \<in> {9, 10, 11, 12, 13, 32 :: nat} then py_fromhex cs
      else case cs of
             [] \<Rightarrow> Inl ValueError
           | d # rest \<Rightarrow>
               (case (hex_val c, hex_val d) of
                  (Some x, Some y) \<Rightarrow> bind_result (py_fromhex rest) (\<lambda>bs. Inr (int (16 * x + y) # bs))
                | _ \<Rightarrow> Inl ValueError))"

lemma to_hex_2: "b < 256 \<Longrightarrow> to_hex 2 b = [digit_char (b div 16), digit_char (b mod 16)]"
proof -
  assume b: "b < 256"
  show ?thesis
  proof (cases "b < 16")
    case True
    then have "nat_digits 16 b = [digit_char b]" by (subst nat_digits.simps) simp
    then show ?thesis using True zero_digit by (simp add: to_hex_def pad_zeros_def)
  next
    case False
    then have "nat_digits 16 b = nat_digits 16 (b div 16) @ [digit_char (b mod 16)]"
      by (subst nat_digits.simps) simp
    moreover have "b div 16 < 16" using b by simp
    then have "nat_digits 16 (b div 16) = [digit_char (b div 16)]"
      by (subst nat_digits.simps) simp
    ultimately show ?thesis by (simp add: to_hex_def pad_zeros_def)
  qed
qed

lemma fromhex_byte: "b < 256 \<Longrightarrow> py_fromhex (to_hex 2 b @ cs) = bind_result (py_fromhex cs) (\<lambda>bs. Inr (int b # bs))"
proof -
  assume b: "b < 256"
  then have d: "b div 16 < 16" "b mod 16 < 16" by simp_all
  have "of_char (digit_char (b div 16)) \<notin> {9, 10, 11, 12, 13, 32 :: nat}"
    using d(1) by (auto simp: digit_char_code)
  then show ?thesis using b d by (simp add: to_hex_2 hex_val_def digit_char_val)
qed

lemma length_nat_digits: "2 \<le> base \<Longrightarrow> 0 < w \<Longrightarrow> n < base ^ w \<Longrightarrow> length (nat_digits base n) \<le> w"
proof (induction base n arbitrary: w rule: nat_digits.induct)
  case (1 base n)
  show ?case
  proof (cases "n < base")
    case True
    then show ?thesis using "1.prems" by (subst nat_digits.simps) simp
  next
    case False
    then obtain v where w: "w = Suc v" "0 < v" using "1.prems" by (cases w; cases "w - 1") auto
    have "n < base ^ v * base" using "1.prems"(3) by (simp add: w mult.commute)
    then have "n div base < base ^ v" by (rule less_mult_imp_div_less)
    then have "length (nat_digits base (n div base)) \<le> v" using "1.IH" "1.prems" False w by simp
    then show ?thesis using False "1.prems" w by (subst nat_digits.simps) simp
  qed
qed

lemma length_to_hex: "0 < w \<Longrightarrow> n < 16 ^ w \<Longrightarrow> length (to_hex w n) = w"
  using length_nat_digits [of 16 w n] by (simp add: to_hex_def pad_zeros_def)

lemma to_hex_string: "digit_string 16 (to_hex w n)"
  unfolding to_hex_def by (intro pad_digit_string nat_digits_string) simp_all

lemma to_dec_string: "digit_string 10 (to_dec n)"
  unfolding to_dec_def by (rule nat_digits_string) simp

text \<open>Splitting ignores the white space around a text.\<close>

lemma split_words_lead: "split_words [] (dropWhile is_space s) = split_words [] s"
  by (induction s) auto

lemma split_words_trail: "list_all is_space t \<Longrightarrow> split_words w (s @ t) = split_words w s"
proof (induction s arbitrary: w)
  case Nil
  then show ?case by (induction t arbitrary: w) auto
qed simp

lemma py_split_strip: "py_split (py_strip s) = py_split s"
proof -
  have "s = rev (dropWhile is_space (rev s)) @ rev (takeWhile is_space (rev s))" for s
    by (metis rev_append rev_rev_ident takeWhile_dropWhile_id)
  moreover have "list_all is_space (rev (takeWhile is_space (rev s)))" for s
    by (auto simp: list_all_iff dest: set_takeWhileD)
  ultimately have "split_words [] (rev (dropWhile is_space (rev s))) = split_words [] s" for s
    using split_words_trail by metis
  then show ?thesis by (simp add: py_split_def py_strip_def split_words_lead)
qed

lemma py_strip_token: "is_token t \<Longrightarrow> py_strip t = t"
proof -
  assume t: "is_token t"
  have "dropWhile is_space s = s" if "\<forall>c \<in> set s. \<not> is_space c" for s using that by (cases s) auto
  from this [of t] this [of "rev t"] show ?thesis using t by (simp add: py_strip_def is_token_def list_all_iff)
qed

lemma py_int_prefixed: "py_int 16 (''0x'' @ to_hex w n) = Inr (int n)"
proof -
  let ?h = "to_hex w n"
  have h: "digit_string 16 ?h" by (rule to_hex_string)
  then have "is_token (''0x'' @ ?h)" using to_hex_facts(1) [of w n] by (auto simp: is_token_def is_space_def)
  then have strip: "py_strip (''0x'' @ ?h) = ''0x'' @ ?h" by (rule py_strip_token)
  have "read_digits 16 True 0 (?h @ []) = Some (foldl (\<lambda>a c. 16 * a + the (digit_val c)) 0 ?h)"
    using h by (subst read_digits_append) (simp_all add: digit_string_def)
  moreover have "foldl (\<lambda>a c. 16 * a + the (digit_val c)) 0 ?h = n"
    using fold_digits [of 16 n] by (simp add: to_hex_def pad_zeros_def fold_zeros)
  ultimately have "read_nat 16 (''0x'' @ ?h) = Some n" by (simp add: read_nat_def strip_prefix_def)
  then show ?thesis unfolding py_int_def strip by simp
qed

lemma py_int_padded: "py_int 10 (pad_zeros w (to_dec n)) = Inr (int n)"
proof -
  have d: "digit_string 10 (pad_zeros w (to_dec n))" by (intro pad_digit_string to_dec_string) simp
  have "foldl (\<lambda>a c. 10 * a + the (digit_val c)) 0 (pad_zeros w (to_dec n)) = n"
    using fold_digits [of 10 n] by (simp add: to_dec_def pad_zeros_def fold_zeros)
  then show ?thesis using py_int_digits [OF d] by simp
qed

section \<open>Searching, splitting and joining\<close>

text \<open>\<open>s.split(c)\<close> with a separator, \<open>p in s\<close>, \<open>s.startswith(p)\<close>, the last place of \<open>p\<close> in \<open>s\<close>.\<close>

fun split_on :: "char \<Rightarrow> string \<Rightarrow> string \<Rightarrow> string list" where
  "split_on sep w [] = [w]"
| "split_on sep w (c # cs) = (if c = sep then w # split_on sep [] cs else split_on sep (w @ [c]) cs)"

fun has_sub :: "string \<Rightarrow> string \<Rightarrow> bool" where
  "has_sub p [] = (p = [])"
| "has_sub p (c # cs) = (take (length p) (c # cs) = p \<or> has_sub p cs)"

definition starts :: "string \<Rightarrow> string \<Rightarrow> bool" where
  "starts p s \<longleftrightarrow> take (length p) s = p"

fun last_at :: "string \<Rightarrow> string \<Rightarrow> nat option" where
  "last_at p [] = None"
| "last_at p (c # cs) = (case last_at p cs of
      Some i \<Rightarrow> Some (Suc i)
    | None \<Rightarrow> if take (length p) (c # cs) = p then Some 0 else None)"

lemma split_on_append:
  "c \<notin> set s \<Longrightarrow> split_on c w (s @ c # t) = (w @ s) # split_on c [] t"
  by (induction s arbitrary: w) auto

lemma split_on_none: "c \<notin> set s \<Longrightarrow> split_on c w s = [w @ s]"
  by (induction s arbitrary: w) auto

lemma split_on_lines:
  "list_all (\<lambda>l. c \<notin> set l) ls \<Longrightarrow> split_on c [] (concat (map (\<lambda>l. l @ [c]) ls) @ t) = ls @ split_on c [] t"
  by (induction ls) (simp_all add: split_on_append)

lemma has_sub_skip: "p \<noteq> [] \<Longrightarrow> hd p \<notin> set w \<Longrightarrow> has_sub p (w @ s) \<longleftrightarrow> has_sub p s"
  by (induction w) (auto simp: neq_Nil_conv)

lemma last_at_append: "last_at p s = Some i \<Longrightarrow> last_at p (w @ s) = Some (length w + i)"
  by (induction w) simp_all

lemma last_at_none: "c \<notin> set w \<Longrightarrow> last_at [c] w = None"
  by (induction w) auto

lemma last_at_pair: "d \<notin> set w \<Longrightarrow> last_at [c, d] w = None"
proof (induction w)
  case (Cons a w)
  then show ?case by (cases w) auto
qed simp

section \<open>Formatting\<close>

definition hex_0x :: "int \<Rightarrow> string" where
  "hex_0x x = ''0x'' @ to_hex 1 (nat x)"

fun join_with :: "string \<Rightarrow> string list \<Rightarrow> string" where
  "join_with sep [] = ''''"
| "join_with sep [w] = w"
| "join_with sep (w # v # ws) = w @ sep @ join_with sep (v # ws)"

text \<open>\<open>f"{n:3d}"\<close> pads on the left, \<open>f"{s:12}"\<close> on the right.\<close>

definition pad_left :: "nat \<Rightarrow> string \<Rightarrow> string" where
  "pad_left w s = replicate (w - length s) (CHR '' '') @ s"

definition pad_right :: "nat \<Rightarrow> string \<Rightarrow> string" where
  "pad_right w s = s @ replicate (w - length s) (CHR '' '')"

definition to_sdec :: "int \<Rightarrow> string" where
  "to_sdec n = (if n < 0 then ''-'' @ to_dec (nat (- n)) else to_dec (nat n))"

text \<open>
  \<open>repr\<close> of a string: single quotes unless it holds one and no double quote; printable characters as
  they are, the rest escaped.
\<close>

definition repr_char :: "char \<Rightarrow> char \<Rightarrow> string" where
  "repr_char q c =
     (let k = of_char c :: nat
      in if c = q \<or> k = 92 then [CHR 92, c]
         else if k = 10 then [CHR 92, CHR ''n'']
         else if k = 13 then [CHR 92, CHR ''r'']
         else if k = 9 then [CHR 92, CHR ''t'']
         else if k < 32 \<or> 127 \<le> k \<and> k \<le> 160 \<or> k = 173 then [CHR 92, CHR ''x''] @ to_hex 2 k
         else [c])"

definition py_repr :: "string \<Rightarrow> string" where
  "py_repr s =
     (let q = (if CHR 39 \<in> set s \<and> CHR 34 \<notin> set s then CHR 34 else CHR 39)
      in [q] @ concat (map (repr_char q) s) @ [q])"

end
