(* ===== verification/Byte_Queue.thy ===== *)
theory Byte_Queue
  imports Py_Bytes
begin

text \<open>
  The interface between the parser's state machine and its receive buffer. A provider keeps a
  queue of stream bytes; the client adds the enabled bytes of an 8-byte beat, reads single
  bytes, and drops a prefix. \<open>room\<close> is how many bytes fit, \<open>tail\<close> how many may remain after a
  drop: the laws promise nothing beyond those limits.
\<close>

locale byte_queue =
  fixes add :: "'q \<Rightarrow> int list \<Rightarrow> int \<Rightarrow> 'q"
    and discard :: "'q \<Rightarrow> nat \<Rightarrow> 'q"
    and peek :: "'q \<Rightarrow> nat \<Rightarrow> int"
    and held :: "'q \<Rightarrow> int list"
    and ok :: "'q \<Rightarrow> bool"
    and room :: nat
    and tail :: nat
  assumes add_law: "ok q \<Longrightarrow> is_bytes d \<Longrightarrow> length d = 8 \<Longrightarrow> popcount keep \<le> 8 \<Longrightarrow>
        length (held q) + popcount keep \<le> room \<Longrightarrow>
        ok (add q d keep) \<and> held (add q d keep) = held q @ take (popcount keep) d"
    and discard_law: "ok q \<Longrightarrow> k \<le> length (held q) \<Longrightarrow> length (held q) \<le> k + tail \<Longrightarrow>
        ok (discard q k) \<and> held (discard q k) = drop k (held q)"
    and peek_law: "ok q \<Longrightarrow> i < room \<Longrightarrow>
        peek q i = (if i < length (held q) then held q ! i else 0)"
    and held_bytes: "ok q \<Longrightarrow> is_bytes (held q)"
begin

lemmas add_ok = add_law [THEN conjunct1]
lemmas add_held = add_law [THEN conjunct2]
lemmas discard_ok = discard_law [THEN conjunct1]
lemmas discard_held = discard_law [THEN conjunct2]

text \<open>One cycle that takes a complete unit of \<open>k\<close> bytes off the front after adding a beat.\<close>

lemma cycle_ok:
  assumes "ok q" and "is_bytes d" "length d = 8" "popcount keep \<le> 8"
    and "length (held q) + popcount keep \<le> room"
    and "k \<le> length (held q) + popcount keep" "length (held q) + popcount keep \<le> k + tail"
  shows "ok (discard (add q d keep) k)"
  using assms by (simp add: discard_ok add_ok add_held)

lemma cycle_held:
  assumes "ok q" and "is_bytes d" "length d = 8" "popcount keep \<le> 8"
    and "length (held q) + popcount keep \<le> room"
    and "k \<le> length (held q) + popcount keep" "length (held q) + popcount keep \<le> k + tail"
  shows "held (discard (add q d keep) k) = drop k (held q @ take (popcount keep) d)"
  using assms by (simp add: discard_held add_ok add_held)

text \<open>
  The first eight bytes, read one at a time as the parser does: the front of the queue,
  padded with zeros where fewer than eight are held.
\<close>

lemma first_eight:
  assumes "ok q" and "8 \<le> room" and "length (held q) \<ge> 8"
  shows "map (peek q) [0..<8] = take 8 (held q)"
  using assms by (intro nth_equalityI) (simp_all add: peek_law)

end

end
