(* ===== verification/Parser_Buffer.thy ===== *)
theory Parser_Buffer
  imports Byte_Queue
begin

text \<open>
  The receive buffer of the PITCH parser, \<open>ip_export/netlist_sim/parser_model.py\<close>: nine
  64-bit words that hold up to 72 stream bytes, byte 0 of the stream in the most significant
  byte of word 0. \<open>add_data_to_buffer\<close> shifts an 8-byte beat in at byte offset \<open>L\<close>,
  \<open>compress_buffer\<close> drops a prefix and moves the rest to word 0. The theory shows that, as
  long as at most 72 bytes are held and at most 8 remain after a drop, the words are a byte
  queue: adding appends the enabled bytes, compressing drops the prefix.
\<close>

section \<open>The code\<close>

definition M64 :: int where
  "M64 = push_bit 64 1 - 1"

definition NB :: int where
  "NB = 9"

definition rotr :: "int \<Rightarrow> int \<Rightarrow> int" where
  "rotr x bits0 =
     (let bits = bits0 mod 64
      in (drop_bit (nat bits) x OR push_bit (nat (64 - bits)) x) AND M64)"

text \<open>The byte-enable vector \<open>keep\<close> has eight bits, so its population count is at most 8.\<close>

definition zero_out_and_convert :: "int list \<Rightarrow> int \<Rightarrow> int \<times> nat" where
  "zero_out_and_convert data8 keep =
     (let n = popcount keep; u = from_be data8
      in if n = 8 then (u, n)
         else let mask = push_bit (8 * (8 - n)) (push_bit (8 * n) 1 - 1)
              in (u AND mask, n))"

definition add_data_to_buffer :: "int list \<Rightarrow> int \<Rightarrow> int list \<Rightarrow> int \<Rightarrow> int list \<times> int" where
  "add_data_to_buffer buf L data8 keep =
     (let (u, n) = zero_out_and_convert data8 keep;
          idx = drop_bit 3 L;
          r = L AND 7
      in if r = 0 then
           (if n = 0 then (buf, L)
            else ((if idx < NB then buf[nat idx := u] else buf), (L + int n) AND 255))
         else
           (let rot = rotr u (8 * r);
                mask = push_bit (nat (8 * (8 - r))) 1 - 1;
                buf1 = (if idx < NB then buf[nat idx := buf ! nat idx OR (rot AND mask)] else buf);
                buf2 = (if idx + 1 < NB then buf1[nat (idx + 1) := rot AND (M64 XOR mask)] else buf1)
            in (buf2, (L + int n) AND 255)))"

definition compress_buffer :: "int list \<Rightarrow> int \<Rightarrow> int \<Rightarrow> int list \<times> int" where
  "compress_buffer buf L start =
     (let diff = (L - start) AND 255;
          s = start AND 7; widx = drop_bit 3 start; b = L AND 7;
          out = replicate (nat NB) 0
      in if s = 0 then
           (if diff = 0 then (out, diff)
            else
              (let w = (if widx < NB then buf ! nat widx else 0);
                   sh = push_bit 3 ((8 - diff) AND 255) AND 255;
                   m = (push_bit (nat (8 * min diff 8)) 1 - 1) AND M64
               in (out[0 := w AND (if sh < 64 then push_bit (nat sh) m AND M64 else 0)], diff)))
         else
           (let w0 = (if widx < NB then buf ! nat widx else 0);
                w1 = (if widx + 1 < NB then buf ! nat (widx + 1) else 0);
                m_low = push_bit (nat (8 * (8 - s))) 1 - 1;
                part0 = push_bit (nat (8 * s)) (w0 AND m_low) AND M64;
                m_top = push_bit (nat (8 * (8 - b))) (push_bit (nat (8 * b)) 1 - 1) AND M64;
                part1 = drop_bit (nat (8 * (8 - s))) (w1 AND m_top)
            in (out[0 := part0 OR part1], diff)))"

definition byte_at :: "int list \<Rightarrow> int \<Rightarrow> int" where
  "byte_at buf i = drop_bit (nat (8 * (7 - (i AND 7)))) (buf ! nat (drop_bit 3 i)) AND 255"

section \<open>Bytes of a 64-bit word\<close>

definition is_word :: "int \<Rightarrow> bool" where
  "is_word w \<longleftrightarrow> 0 \<le> w \<and> w < 2 ^ 64"

definition wbyte :: "int \<Rightarrow> nat \<Rightarrow> int" where
  "wbyte w j = drop_bit (8 * (7 - j)) w AND 255"

lemma ones_mask: "push_bit n 1 - 1 = (mask n :: int)"
  by (simp add: mask_eq_exp_minus_1 push_bit_eq_mult)

lemma M64_mask: "M64 = mask 64"
  by (simp only: M64_def ones_mask)

lemma c255_mask: "(255::int) = mask 8"
  by (simp add: mask_eq_exp_minus_1)

lemma bit_wbyte: "bit (wbyte w j) i \<longleftrightarrow> i < 8 \<and> bit w (8 * (7 - j) + i)"
  by (auto simp: wbyte_def c255_mask bit_simps)

lemma is_word_bit: "is_word w \<Longrightarrow> bit w i \<Longrightarrow> i < 64"
proof -
  assume w: "is_word w" and b: "bit w i"
  have "take_bit 64 w = w" using w by (simp add: is_word_def take_bit_int_eq_self)
  with b show ?thesis by (metis bit_take_bit_iff)
qed

lemma is_wordI: "(\<And>i. bit w i \<Longrightarrow> i < 64) \<Longrightarrow> is_word w"
proof -
  assume a: "\<And>i. bit w i \<Longrightarrow> i < 64"
  have "take_bit 64 w = w"
    by (rule bit_eqI) (auto simp: bit_take_bit_iff dest: a)
  then show ?thesis unfolding is_word_def
    by (metis take_bit_int_less_exp take_bit_nonnegative)
qed

lemma is_word_0 [simp, range_intros]: "is_word 0"
  by (simp add: is_word_def)

lemma is_word_or [range_intros]: "is_word a \<Longrightarrow> is_word b \<Longrightarrow> is_word (a OR b)"
  by (rule is_wordI) (auto simp: bit_or_iff dest: is_word_bit)

lemma is_word_and [range_intros]: "is_word a \<Longrightarrow> is_word (a AND b)"
  by (rule is_wordI) (auto simp: bit_and_iff dest: is_word_bit)

lemma is_word_and_M64 [range_intros]: "is_word (a AND M64)"
  by (rule is_wordI) (auto simp: bit_and_iff M64_mask bit_mask_iff)

lemma is_word_drop [range_intros]: "is_word a \<Longrightarrow> is_word (drop_bit n a)"
  by (rule is_wordI) (auto simp: bit_drop_bit_eq dest!: is_word_bit)

lemma is_word_from_be: "is_bytes bs \<Longrightarrow> length bs = 8 \<Longrightarrow> is_word (from_be bs)"
  using from_be_range [of bs] by (simp add: is_word_def)

lemma is_byte_wbyte [simp]: "is_byte (wbyte w j)"
  using take_bit_int_less_exp [of 8 "drop_bit (8 * (7 - j)) w"]
  by (simp add: is_byte_def wbyte_def c255_mask flip: take_bit_eq_mask)

lemma wbyte_0 [simp]: "wbyte 0 j = 0"
  by (simp add: wbyte_def)

lemma wbyte_or [byte_simps]: "wbyte (a OR b) j = wbyte a j OR wbyte b j"
  by (rule bit_eqI) (auto simp: bit_wbyte bit_simps)

lemma wbyte_low [byte_simps]:
  "r \<le> 8 \<Longrightarrow> j < 8 \<Longrightarrow> wbyte (a AND mask (8 * (8 - r))) j = (if j < r then 0 else wbyte a j)"
  by (rule bit_eqI) (auto simp: bit_wbyte bit_simps)

lemma wbyte_high [byte_simps]:
  "r \<le> 8 \<Longrightarrow> j < 8 \<Longrightarrow>
   wbyte (a AND (M64 XOR mask (8 * (8 - r)))) j = (if j < r then wbyte a j else 0)"
  by (rule bit_eqI) (auto simp: bit_wbyte bit_simps M64_mask)

lemma wbyte_top [byte_simps]:
  "n \<le> 8 \<Longrightarrow> j < 8 \<Longrightarrow>
   wbyte (a AND push_bit (8 * (8 - n)) (mask (8 * n))) j = (if j < n then wbyte a j else 0)"
  by (rule bit_eqI) (auto simp: bit_wbyte bit_simps)

lemma wbyte_M64 [byte_simps]: "wbyte (a AND M64) j = wbyte a j"
  by (rule bit_eqI) (auto simp: bit_wbyte bit_simps M64_mask)

lemma wbyte_push [byte_simps]:
  "j < 8 \<Longrightarrow> wbyte (push_bit (8 * s) a) j = (if j + s < 8 then wbyte a (j + s) else 0)"
  by (rule bit_eqI) (auto simp: bit_wbyte bit_simps algebra_simps)

lemma wbyte_drop [byte_simps]:
  "is_word a \<Longrightarrow> j < 8 \<Longrightarrow> wbyte (drop_bit (8 * s) a) j = (if s \<le> j then wbyte a (j - s) else 0)"
  by (rule bit_eqI) (auto simp: bit_wbyte bit_simps algebra_simps dest!: is_word_bit)

lemma wbyte_div: "wbyte w j = w div 256 ^ (7 - j) mod 256"
proof -
  have "(256::int) ^ (7 - j) = 2 ^ (8 * (7 - j))"
    by (simp add: power_mult)
  then show ?thesis
    by (simp add: wbyte_def c255_mask drop_bit_eq_div take_bit_eq_mod flip: take_bit_eq_mask)
qed

lemma wbyte_from_be [byte_simps]:
  assumes "is_bytes bs" and "length bs = 8" and "j < 8"
  shows "wbyte (from_be bs) j = bs ! j"
proof -
  have "wbyte (from_be bs) j = to_be 8 (from_be bs) ! j"
    using assms(3) by (simp add: wbyte_div nth_to_be)
  then show ?thesis using to_be_from_be [OF assms(1)] assms(2) by simp
qed

lemma rotr_word: "is_word (rotr x b)"
  by (simp add: rotr_def Let_def is_word_and_M64)

lemma rotr_bytes [byte_simps]:
  assumes x: "is_word x" and r: "0 < r" "r < 8" and j: "j < 8"
  shows "wbyte (rotr x (8 * int r)) j = (if r \<le> j then wbyte x (j - r) else wbyte x (j + 8 - r))"
proof -
  have b: "8 * int r mod 64 = 8 * int r" and n1: "nat (8 * int r) = 8 * r"
    and n2: "nat (64 - 8 * int r) = 8 * (8 - r)" using r by auto
  have eq: "rotr x (8 * int r) = (drop_bit (8 * r) x OR push_bit (8 * (8 - r)) x) AND M64"
    by (simp only: rotr_def Let_def b n1 n2)
  have "wbyte x (j - r) OR 0 = wbyte x (j - r)" by simp
  then show ?thesis using x r j
    by (simp only: eq byte_simps) (auto simp: algebra_simps)
qed

lemma popcount_keep_le: "0 \<le> keep \<Longrightarrow> keep < 256 \<Longrightarrow> popcount keep \<le> 8"
  by (rule popcount_le_8)

lemma zero_out_count: "snd (zero_out_and_convert d keep) = popcount keep"
  by (simp add: zero_out_and_convert_def Let_def)

lemma zero_out_word:
  "is_bytes d \<Longrightarrow> length d = 8 \<Longrightarrow> is_word (fst (zero_out_and_convert d keep))"
  by (simp add: zero_out_and_convert_def Let_def is_word_from_be is_word_and)

lemma zero_out_bytes:
  assumes d: "is_bytes d" "length d = 8" and k: "popcount keep \<le> 8" and j: "j < 8"
  shows "wbyte (fst (zero_out_and_convert d keep)) j = (if j < popcount keep then d ! j else 0)"
proof -
  have eq: "fst (zero_out_and_convert d keep) =
      (if popcount keep = 8 then from_be d
       else from_be d AND push_bit (8 * (8 - popcount keep)) (mask (8 * popcount keep)))"
    by (simp only: zero_out_and_convert_def Let_def ones_mask) simp
  show ?thesis unfolding eq using assms by (simp add: byte_simps)
qed

section \<open>The buffer as a byte queue\<close>

lemma int_shift: "drop_bit 3 (int k) = int (k div 8)" "int k AND 7 = int (k mod 8)"
proof -
  show "drop_bit 3 (int k) = int (k div 8)" by (simp add: drop_bit_eq_div zdiv_int)
  have "(7::int) = mask 3" by (simp add: mask_eq_exp_minus_1)
  then have "int k AND 7 = take_bit 3 (int k)" by (simp only: take_bit_eq_mask)
  then show "int k AND 7 = int (k mod 8)" by (simp add: take_bit_eq_mod zmod_int)
qed

lemma byte_at_nat: "byte_at buf (int k) = wbyte (buf ! (k div 8)) (k mod 8)"
proof -
  have "nat (8 * (7 - int (k mod 8))) = 8 * (7 - k mod 8)"
    by (simp add: nat_mult_distrib)
  then show ?thesis by (simp add: byte_at_def int_shift wbyte_def)
qed

definition contents :: "int list \<Rightarrow> nat \<Rightarrow> int list" where
  "contents buf n = map (\<lambda>k. byte_at buf (int k)) [0..<n]"

lemma length_contents [simp]: "length (contents buf n) = n"
  by (simp add: contents_def)

lemma nth_contents: "k < n \<Longrightarrow> contents buf n ! k = wbyte (buf ! (k div 8)) (k mod 8)"
  by (simp add: contents_def byte_at_nat)

text \<open>
  The invariant: nine words, at most 72 bytes held, and every byte past the end is zero (the
  code merges new bytes into the last word with OR).
\<close>

definition wf_buf :: "int list \<times> int \<Rightarrow> bool" where
  "wf_buf q \<longleftrightarrow> (case q of (buf, L) \<Rightarrow>
     length buf = 9 \<and> list_all is_word buf \<and> 0 \<le> L \<and> L \<le> 72 \<and>
     (\<forall>k < 72. nat L \<le> k \<longrightarrow> wbyte (buf ! (k div 8)) (k mod 8) = 0))"

definition queue_bytes :: "int list \<times> int \<Rightarrow> int list" where
  "queue_bytes q = (case q of (buf, L) \<Rightarrow> contents buf (nat L))"

lemma wf_bufI:
  assumes "length buf = 9" and "list_all is_word buf" and "n \<le> 72"
    and "\<And>k. k < 72 \<Longrightarrow> n \<le> k \<Longrightarrow> wbyte (buf ! (k div 8)) (k mod 8) = 0"
  shows "wf_buf (buf, int n)"
  using assms by (simp add: wf_buf_def)

lemma wf_buf_nat:
  assumes "wf_buf (buf, L)"
  obtains n where "L = int n" and "n \<le> 72" and "length buf = 9" and "list_all is_word buf"
    and "\<And>k. k < 72 \<Longrightarrow> n \<le> k \<Longrightarrow> wbyte (buf ! (k div 8)) (k mod 8) = 0"
  using assms that [of "nat L"] by (auto simp: wf_buf_def)

text \<open>Byte \<open>k\<close> of the buffer, counted from the first byte of word 0.\<close>

abbreviation buf_byte :: "int list \<Rightarrow> nat \<Rightarrow> int" where
  "buf_byte buf k \<equiv> wbyte (buf ! (k div 8)) (k mod 8)"

lemma len_and_255: "n < 256 \<Longrightarrow> int n AND 255 = int n"
  by (simp add: c255_mask take_bit_int_eq_self flip: take_bit_eq_mask)

lemma list_all_update: "list_all P xs \<Longrightarrow> P x \<Longrightarrow> list_all P (xs[i := x])"
  by (cases "i < length xs")
    (auto simp: list_all_length nth_list_update list_update_beyond)

text \<open>The two cases of \<open>add_data_to_buffer\<close>, with \<open>L = 8 q + r\<close>.\<close>

lemma shift_8: "r < 8 \<Longrightarrow> drop_bit 3 (int (8 * q + r)) = int q"
  "r < 8 \<Longrightarrow> int (8 * q + r) AND 7 = int r"
  by (simp_all only: int_shift) simp_all

lemma add_aligned:
  assumes "8 * q + popcount keep \<le> 72"
  shows "add_data_to_buffer buf (int (8 * q)) d keep =
    (if popcount keep = 0 then buf
     else if q < 9 then buf[q := fst (zero_out_and_convert d keep)] else buf,
     int (8 * q + popcount keep))"
proof -
  have e1: "drop_bit 3 (int (8 * q)) = int q" "int (8 * q) AND 7 = 0"
    using shift_8 [of 0 q] by simp_all
  have e2: "(int (8 * q) + int (popcount keep)) AND 255 = int (8 * q + popcount keep)"
    using assms len_and_255 [of "8 * q + popcount keep"] by simp
  have e3: "(int q < 9) = (q < 9)" by simp
  show ?thesis
    unfolding add_data_to_buffer_def split_beta Let_def zero_out_count e1 NB_def e2 e3 nat_int
    by simp
qed

lemma add_unaligned:
  assumes "0 < r" "r < 8" and "8 * q + r + popcount keep \<le> 72"
  shows "add_data_to_buffer buf (int (8 * q + r)) d keep =
    (let rot = rotr (fst (zero_out_and_convert d keep)) (8 * int r);
         buf1 = buf[q := buf ! q OR (rot AND mask (8 * (8 - r)))]
     in (if q < 8 then buf1[q + 1 := rot AND (M64 XOR mask (8 * (8 - r)))] else buf1,
         int (8 * q + r + popcount keep)))"
proof -
  have e1: "nat (8 * (8 - int r)) = 8 * (8 - r)" using assms by simp
  have e2: "nat (int q + 1) = q + 1" by simp
  have e3: "(int q + 1 < 9) = (q < 8)" by auto
  have e4: "(int (8 * q + r) + int (popcount keep)) AND 255 = int (8 * q + r + popcount keep)"
    using assms len_and_255 [of "8 * q + r + popcount keep"] by simp
  have e5: "(int r = 0) = False" using assms(1) by simp
  have e6: "(int q < 9) = True" using assms by simp
  show ?thesis
    by (simp only: add_data_to_buffer_def split_beta Let_def zero_out_count
        shift_8 [OF assms(2)] NB_def
        ones_mask e1 e2 e3 e4 e5 e6 nat_int if_True if_False)
qed

lemma add_byte_aligned:
  assumes wf: "length buf = 9" "\<And>k. k < 72 \<Longrightarrow> 8 * q \<le> k \<Longrightarrow> buf_byte buf k = 0"
    and d: "is_bytes d" "length d = 8" and n: "popcount keep \<le> 8" "8 * q + popcount keep \<le> 72"
    and ij: "i < 9" "j < 8"
  shows "wbyte (fst (add_data_to_buffer buf (int (8 * q)) d keep) ! i) j =
    (if i < q then wbyte (buf ! i) j
     else if 8 * i + j < 8 * q + popcount keep then d ! (8 * i + j - 8 * q) else 0)"
proof -
  have old: "wbyte (buf ! i) j = 0" if "q \<le> i"
    using that ij wf(2) [of "8 * i + j"] by simp
  show ?thesis using wf(1) d n(1) ij old unfolding add_aligned [OF n(2)]
    by (cases i q rule: linorder_cases) (auto simp: zero_out_bytes nth_list_update)
qed

lemma add_byte_unaligned:
  assumes wf: "length buf = 9" "\<And>k. k < 72 \<Longrightarrow> 8 * q + r \<le> k \<Longrightarrow> buf_byte buf k = 0"
    and r: "0 < r" "r < 8"
    and d: "is_bytes d" "length d = 8"
    and n: "popcount keep \<le> 8" "8 * q + r + popcount keep \<le> 72"
    and ij: "i < 9" "j < 8"
  shows "wbyte (fst (add_data_to_buffer buf (int (8 * q + r)) d keep) ! i) j =
    (if 8 * i + j < 8 * q + r then wbyte (buf ! i) j
     else if 8 * i + j < 8 * q + r + popcount keep then d ! (8 * i + j - (8 * q + r)) else 0)"
proof -
  let ?u = "fst (zero_out_and_convert d keep)"
  have u: "is_word ?u" by (rule zero_out_word [OF d])
  have old: "wbyte (buf ! i) j = 0" if "8 * q + r \<le> 8 * i + j"
    using that ij wf(2) [of "8 * i + j"] by simp
  consider "i < q" | "i = q" | "i = q + 1" | "q + 1 < i" by linarith
  then show ?thesis
  proof cases
    case 2
    then show ?thesis using wf(1) r n ij old u d unfolding add_unaligned [OF r n(2)] Let_def
      by (auto simp: byte_simps zero_out_bytes add.commute)
  next
    case 3
    then show ?thesis using wf(1) r n ij old u d unfolding add_unaligned [OF r n(2)] Let_def
      by (auto simp: byte_simps zero_out_bytes add.commute)
  qed (use wf(1) r n ij old in \<open>auto simp: add_unaligned [OF r n(2)] Let_def simp del: of_nat_add of_nat_mult\<close>)
qed

lemma add_byte:
  assumes wf: "length buf = 9" "\<And>k. k < 72 \<Longrightarrow> m \<le> k \<Longrightarrow> buf_byte buf k = 0"
    and d: "is_bytes d" "length d = 8" and n: "popcount keep \<le> 8" "m + popcount keep \<le> 72"
    and k: "k < 72"
  shows "buf_byte (fst (add_data_to_buffer buf (int m) d keep)) k =
    (if k < m then buf_byte buf k else if k < m + popcount keep then d ! (k - m) else 0)"
proof -
  obtain q r where m: "m = 8 * q + r" "r < 8" by (metis div_mod_decomp mod_less_divisor mult.commute zero_less_numeral)
  obtain i j where kij: "k = 8 * i + j" "j < 8" by (metis div_mod_decomp mod_less_divisor mult.commute zero_less_numeral)
  have i: "i < 9" using k kij by linarith
  show ?thesis
  proof (cases "r = 0")
    case True
    then have wf': "\<And>k. k < 72 \<Longrightarrow> 8 * q \<le> k \<Longrightarrow> buf_byte buf k = 0" using wf(2) m by simp
    have "8 * q + popcount keep \<le> 72" using n m True by simp
    from add_byte_aligned [OF wf(1) wf' d n(1) this i kij(2)] show ?thesis
      using m kij True by auto
  next
    case False
    then have "0 < r" by simp
    from add_byte_unaligned [OF wf(1) wf(2) [unfolded m] this m(2) d n(1) n(2) [unfolded m] i kij(2)]
    show ?thesis using m kij by auto
  qed
qed

text \<open>The same two cases of \<open>compress_buffer\<close>, with \<open>start = 8 q + s\<close>.\<close>

lemma top_mask_M64: "n \<le> 8 \<Longrightarrow> push_bit (8 * (8 - n)) (mask (8 * n)) AND M64 = push_bit (8 * (8 - n)) (mask (8 * n))"
  by (rule bit_eqI) (auto simp: bit_simps M64_mask)

lemma compress_diff:
  assumes "a \<le> n" and "n \<le> 72"
  shows "(int n - int a) AND 255 = int (n - a)"
  using assms len_and_255 [of "n - a"] by (simp add: of_nat_diff)

lemma compress_aligned:
  assumes d: "0 < d" "d \<le> 8" and n: "8 * q + d \<le> 72"
  shows "compress_buffer buf (int (8 * q + d)) (int (8 * q)) =
    ((replicate 9 0)[0 := buf ! q AND push_bit (8 * (8 - d)) (mask (8 * d))], int d)"
proof -
  have e0: "(int (8 * q + d) - int (8 * q)) AND 255 = int d"
    using compress_diff [of "8 * q" "8 * q + d"] n by simp
  have e1: "drop_bit 3 (int (8 * q)) = int q" "int (8 * q) AND 7 = 0"
    using shift_8 [of 0 q] by simp_all
  have e2: "(8 - int d) AND 255 = int (8 - d)"
    using len_and_255 [of "8 - d"] d by (simp add: of_nat_diff)
  have e3: "push_bit 3 (int (8 - d)) AND 255 = int (8 * (8 - d))"
    using len_and_255 [of "8 * (8 - d)"] d by (simp add: push_bit_eq_mult mult.commute)
  have e4: "nat (8 * min (int d) 8) = 8 * d" using d by simp
  have e5: "(int q < 9) = True" using assms by simp
  have e6: "(int (8 * (8 - d)) < 64) = True" using d by simp
  have e7: "mask (8 * d) AND M64 = mask (8 * d)"
    using d by (intro bit_eqI) (auto simp: bit_simps M64_mask)
  have e8: "(int d = 0) = False" using d by simp
  have e9: "nat 9 = 9" by simp
  show ?thesis
    by (simp only: compress_buffer_def Let_def e0 e1 e2 e3 e4 e5 e6 e7 e8 e9 NB_def ones_mask
        top_mask_M64 [OF d(2)] nat_int if_True if_False simp_thms)
qed

lemma compress_unaligned:
  assumes "0 < s" "s < 8" and "8 * q + s \<le> n" and "n \<le> 72"
  shows "compress_buffer buf (int n) (int (8 * q + s)) =
    (let w1 = (if q < 8 then buf ! (q + 1) else 0); b = n mod 8;
         part0 = push_bit (8 * s) (buf ! q AND mask (8 * (8 - s))) AND M64;
         part1 = drop_bit (8 * (8 - s)) (w1 AND push_bit (8 * (8 - b)) (mask (8 * b)))
     in ((replicate 9 0)[0 := part0 OR part1], int (n - (8 * q + s))))"
proof -
  have e0: "(int n - int (8 * q + s)) AND 255 = int (n - (8 * q + s))"
    by (rule compress_diff) (use assms in simp_all)
  have e1: "(int s = 0) = False" using assms by simp
  have e2: "(int q < 9) = True" using assms by simp
  have e3: "(int q + 1 < 9) = (q < 8)" by auto
  have e4: "nat (int q + 1) = q + 1" by simp
  have e5: "nat (8 * (8 - int s)) = 8 * (8 - s)" "nat (8 * int s) = 8 * s" using assms by simp_all
  have e6: "nat (8 * (8 - int (n mod 8))) = 8 * (8 - n mod 8)" "nat (8 * int (n mod 8)) = 8 * (n mod 8)"
    by simp_all
  have b: "n mod 8 \<le> 8" by (simp add: less_imp_le)
  have e9: "nat 9 = 9" by simp
  show ?thesis
    by (simp only: compress_buffer_def Let_def e0 e1 e2 e3 e4 e5 e6 e9 NB_def ones_mask int_shift(2) [of n]
        shift_8 [OF assms(2)] top_mask_M64 [OF b] nat_int if_True if_False)
qed

lemma merged_byte:
  assumes "is_word w1" and "0 < s" "s < 8" and "b \<le> 8" and "j < 8"
  shows "wbyte ((push_bit (8 * s) (w0 AND mask (8 * (8 - s))) AND M64) OR
      drop_bit (8 * (8 - s)) (w1 AND push_bit (8 * (8 - b)) (mask (8 * b)))) j =
    (if j < 8 - s then wbyte w0 (j + s)
     else if j - (8 - s) < b then wbyte w1 (j - (8 - s)) else 0)"
proof (cases "j < 8 - s")
  case True
  moreover from this have "j + s < 8" using assms by simp
  ultimately show ?thesis using assms
    by (simp only: byte_simps is_word_and) simp
next
  case False
  moreover from this have "j - (8 - s) < 8" using assms by simp
  ultimately show ?thesis using assms
    by (simp only: byte_simps is_word_and) simp
qed

lemma compress_byte_split:
  assumes wf: "length buf = 9" "list_all is_word buf" "\<And>k. k < 72 \<Longrightarrow> n \<le> k \<Longrightarrow> buf_byte buf k = 0"
    and a: "a \<le> n" "n \<le> a + 8" "n \<le> 72" and ij: "j < 8" and qs: "a = 8 * q + s" "s < 8" and split: "0 < s"
  shows "wbyte (fst (compress_buffer buf (int n) (int a)) ! 0) j = (if j < n - a then buf_byte buf (a + j) else 0)"
proof -
  have word: "is_word (buf ! k)" if "k < 9" for k
    using wf(1,2) that by (simp add: list_all_length)
  note eq = compress_unaligned [OF split qs(2) a(1) [unfolded qs(1)] a(3), folded qs(1)]
  have q: "q < 9" using split a qs by linarith
  show ?thesis
  proof (cases "j < 8 - s")
    case True
    have aj: "8 * q + s + j = 8 * q + (j + s)" by simp
    have "(8 * q + (j + s)) div 8 = q" "(8 * q + (j + s)) mod 8 = j + s"
      using True by simp_all
    then have byte: "buf_byte buf (8 * q + s + j) = wbyte (buf ! q) (j + s)"
      by (simp only: aj)
    have "wbyte (buf ! q) (j + s) = 0" if "n - (8 * q + s) \<le> j"
      using wf(3) [of "8 * q + s + j"] that q byte True by linarith
    then show ?thesis using True ij split qs word q a byte
      unfolding eq Let_def by (simp add: merged_byte del: push_bit_and drop_bit_and)
  next
    case False
    define k where "k = j - (8 - s)"
    have k: "k < s" "k < 8" "j = k + (8 - s)" using False ij qs split by (auto simp: k_def)
    have ak: "a + j = 8 * (q + 1) + k" using k qs by simp
    have nm: "n mod 8 = n - 8 * (q + 1)" "q < 8" if "8 * (q + 1) < n"
    proof -
      have t: "n = 8 * (q + 1) + (n - 8 * (q + 1))" (is "_ = _ + ?t") using that by linarith
      have "?t < 8" using a qs that by arith
      then show "n mod 8 = ?t" by (subst t) (simp only: mod_mult_self4 mod_less)
      show "q < 8" using that a(3) by simp
    qed
    have dm: "(8 * (q + 1) + k) div 8 = q + 1" "(8 * (q + 1) + k) mod 8 = k"
      using k(2) by (simp_all only: div_mult_self4 mod_mult_self4 div_less mod_less
          add_0_right zero_neq_numeral [symmetric] not_False_eq_True)
    have zero: "wbyte (buf ! (q + 1)) k = 0" if "n \<le> 8 * (q + 1) + k" "q < 8"
    proof -
      have "8 * (q + 1) + k < 72" using that k(2) by simp
      from wf(3) [OF this that(1)] show ?thesis unfolding dm .
    qed
    have jk: "j - (8 - s) = k" by (simp add: k_def)
    have na: "j < n - a \<longleftrightarrow> 8 * (q + 1) + k < n" using ak by linarith
    have byte: "buf_byte buf (a + j) = wbyte (buf ! (q + 1)) k" unfolding ak dm by (rule refl)
    have w1: "is_word (if q < 8 then buf ! (q + 1) else 0)" using word [of "q + 1"] by simp
    show ?thesis
      unfolding eq Let_def
      using False ij split qs(2) nm zero
      by (simp add: merged_byte [OF w1] jk na byte del: push_bit_and drop_bit_and)
  qed
qed

lemma compress_byte:
  assumes wf: "length buf = 9" "list_all is_word buf" "\<And>k. k < 72 \<Longrightarrow> n \<le> k \<Longrightarrow> buf_byte buf k = 0"
    and a: "a \<le> n" "n \<le> a + 8" "n \<le> 72" and ij: "i < 9" "j < 8"
  shows "wbyte (fst (compress_buffer buf (int n) (int a)) ! i) j =
    (if i = 0 \<and> j < n - a then buf_byte buf (a + j) else 0)"
proof -
  obtain q s where qs: "a = 8 * q + s" "s < 8"
    by (metis div_mod_decomp mod_less_divisor mult.commute zero_less_numeral)
  consider (empty) "s = 0" "n = 8 * q" | (aligned) "s = 0" "8 * q < n" | (split) "0 < s"
    using a qs by linarith
  then show ?thesis
  proof cases
    case empty
    have "compress_buffer buf (int n) (int a) = (replicate 9 0, 0)"
      using empty qs shift_8 [of 0 q] by (simp add: compress_buffer_def NB_def)
    then show ?thesis using ij a qs empty by simp
  next
    case aligned
    then obtain d where n: "n = 8 * q + d" by (metis less_imp_le le_Suc_ex)
    have d: "0 < d" "d \<le> 8" "8 * q + d \<le> 72" using a qs aligned n by simp_all
    have "compress_buffer buf (int n) (int a) =
        ((replicate 9 0)[0 := buf ! q AND push_bit (8 * (8 - d)) (mask (8 * d))], int d)"
      unfolding n qs(1) using compress_aligned [OF d] aligned(1) by simp
    then show ?thesis using ij d qs n aligned(1)
      by (simp add: byte_simps nth_list_update)
  next
    case split
    show ?thesis
    proof (cases "i = 0")
      case False
      then show ?thesis
        using ij unfolding compress_unaligned [OF split qs(2) a(1) [unfolded qs(1)] a(3), folded qs(1)] Let_def by simp
    next
      case True
      then show ?thesis using compress_byte_split [OF wf a ij(2) qs split] by simp
    qed
  qed
qed

section \<open>The queue laws\<close>

lemma add_list_all_word:
  assumes "is_bytes d" "length d = 8" and "list_all is_word buf" "length buf = 9"
  shows "list_all is_word (fst (add_data_to_buffer buf L d keep))"
proof -
  have u: "is_word (fst (zero_out_and_convert d keep))" by (rule zero_out_word [OF assms(1,2)])
  have "is_word (buf ! k)" if "k < 9" for k using assms that by (simp add: list_all_length)
  then show ?thesis using assms u
    by (auto simp: add_data_to_buffer_def split_beta Let_def NB_def rotr_word
        intro!: list_all_update is_word_or is_word_and)
qed

lemma compress_list_all_word:
  assumes "list_all is_word buf" "length buf = 9"
  shows "list_all is_word (fst (compress_buffer buf L a))"
proof -
  have "is_word (buf ! k)" if "k < 9" for k using assms that by (simp add: list_all_length)
  then show ?thesis
    by (auto simp: compress_buffer_def Let_def NB_def list_all_length nth_list_update
        intro!: list_all_update is_word_or is_word_and is_word_and_M64 is_word_drop)
qed

lemma length_add [simp]: "length (fst (add_data_to_buffer buf L d keep)) = length buf"
  by (simp add: add_data_to_buffer_def split_beta Let_def)

lemma length_compress [simp]: "length (fst (compress_buffer buf L a)) = 9"
  by (simp add: compress_buffer_def Let_def NB_def)

lemma snd_add:
  assumes "m + popcount keep \<le> 72"
  shows "snd (add_data_to_buffer buf (int m) d keep) = int (m + popcount keep)"
proof -
  obtain q r where m: "m = 8 * q + r" "r < 8"
    by (metis div_mod_decomp mod_less_divisor mult.commute zero_less_numeral)
  show ?thesis
  proof (cases "r = 0")
    case True
    then show ?thesis using add_aligned [of q keep buf d] assms m by simp
  next
    case False
    then show ?thesis using add_unaligned [of r q keep buf d] assms m by (simp add: Let_def)
  qed
qed

lemma snd_compress:
  "a \<le> n \<Longrightarrow> n \<le> 72 \<Longrightarrow> snd (compress_buffer buf (int n) (int a)) = int (n - a)"
  by (simp add: compress_buffer_def Let_def compress_diff split: if_splits)

lemma contents_eqI:
  assumes "\<And>k. k < n \<Longrightarrow> buf_byte buf k = bs ! k" and "length bs = n"
  shows "contents buf n = bs"
  using assms by (intro nth_equalityI) (simp_all add: nth_contents)

lemma add_data_queue:
  assumes wf: "wf_buf (buf, L)" and d: "is_bytes d" "length d = 8"
    and n: "popcount keep \<le> 8" "nat L + popcount keep \<le> 72"
  shows "wf_buf (add_data_to_buffer buf L d keep) \<and>
    queue_bytes (add_data_to_buffer buf L d keep) =
      queue_bytes (buf, L) @ take (popcount keep) d"
proof -
  obtain m where L: "L = int m" and m: "m \<le> 72" "length buf = 9" "list_all is_word buf"
    and z: "\<And>k. k < 72 \<Longrightarrow> m \<le> k \<Longrightarrow> buf_byte buf k = 0"
    using wf by (rule wf_buf_nat) blast
  let ?n = "popcount keep" and ?q = "add_data_to_buffer buf (int m) d keep"
  have mn: "m + ?n \<le> 72" using n L by simp
  have eq: "?q = (fst ?q, int (m + ?n))" using snd_add [OF mn] by (metis prod.collapse)
  note byte = add_byte [OF m(2) z d n(1) mn]
  have "wf_buf (fst ?q, int (m + ?n))"
    by (rule wf_bufI) (use m mn byte add_list_all_word [OF d m(3,2)] in auto)
  moreover have "contents (fst ?q) (m + ?n) = contents buf m @ take ?n d"
    by (rule contents_eqI) (use byte mn d n in \<open>auto simp: nth_append nth_contents\<close>)
  ultimately show ?thesis unfolding L
    by (subst (1 2) eq) (simp add: queue_bytes_def del: of_nat_add)
qed

lemma compress_queue:
  assumes wf: "wf_buf (buf, L)" and a: "a \<le> nat L" "nat L \<le> a + 8"
  shows "wf_buf (compress_buffer buf L (int a)) \<and>
    queue_bytes (compress_buffer buf L (int a)) = drop a (queue_bytes (buf, L))"
proof -
  obtain n where L: "L = int n" and n: "n \<le> 72" "length buf = 9" "list_all is_word buf"
    and z: "\<And>k. k < 72 \<Longrightarrow> n \<le> k \<Longrightarrow> buf_byte buf k = 0"
    using wf by (rule wf_buf_nat) blast
  let ?q = "compress_buffer buf (int n) (int a)"
  have an: "a \<le> n" "n \<le> a + 8" using a L by simp_all
  have eq: "?q = (fst ?q, int (n - a))" using snd_compress [OF an(1) n(1)] by (metis prod.collapse)
  have byte: "buf_byte (fst ?q) k = (if k < n - a then buf_byte buf (a + k) else 0)"
    if "k < 72" for k
    using compress_byte [OF n(2,3) z an n(1), of "k div 8" "k mod 8"] that an
    by (auto simp: div_eq_0_iff)
  have "wf_buf (fst ?q, int (n - a))"
    by (rule wf_bufI) (use n byte compress_list_all_word [OF n(3,2)] in auto)
  moreover have "contents (fst ?q) (n - a) = drop a (contents buf n)"
  proof (rule contents_eqI)
    fix k
    assume k: "k < n - a"
    then have "k < 72" using n by linarith
    from byte [OF this] have "buf_byte (fst ?q) k = buf_byte buf (a + k)"
      unfolding if_P [OF k] .
    moreover have "drop a (contents buf n) ! k = buf_byte buf (a + k)"
      using k by (simp add: nth_contents)
    ultimately show "buf_byte (fst ?q) k = drop a (contents buf n) ! k" by (simp only:)
  qed (use an in simp)
  ultimately show ?thesis unfolding L
    by (subst (1 2) eq) (simp add: queue_bytes_def)
qed

lemma byte_at_queue:
  assumes wf: "wf_buf (buf, L)" and "i < 72"
  shows "byte_at buf (int i) = (if i < nat L then queue_bytes (buf, L) ! i else 0)"
  using assms by (auto simp: wf_buf_def queue_bytes_def byte_at_nat nth_contents)

lemma is_bytes_queue: "is_bytes (queue_bytes q)"
  by (auto simp: queue_bytes_def is_bytes_def list_all_length nth_contents split: prod.splits)

lemma length_queue_bytes [simp]: "length (queue_bytes (buf, L)) = nat L"
  by (simp add: queue_bytes_def)

interpretation bq: byte_queue
  "\<lambda>q d keep. add_data_to_buffer (fst q) (snd q) d keep"
  "\<lambda>q k. compress_buffer (fst q) (snd q) (int k)"
  "\<lambda>q i. byte_at (fst q) (int i)"
  queue_bytes wf_buf 72 8
proof unfold_locales
  fix q d keep
  assume "wf_buf q" "is_bytes d" "length d = 8" "popcount keep \<le> 8"
    and "length (queue_bytes q) + popcount keep \<le> 72"
  then show "wf_buf (add_data_to_buffer (fst q) (snd q) d keep) \<and>
      queue_bytes (add_data_to_buffer (fst q) (snd q) d keep) = queue_bytes q @ take (popcount keep) d"
    using add_data_queue [of "fst q" "snd q" d keep] by (cases q) simp
next
  fix q k
  assume "wf_buf q" "k \<le> length (queue_bytes q)" "length (queue_bytes q) \<le> k + 8"
  then show "wf_buf (compress_buffer (fst q) (snd q) (int k)) \<and>
      queue_bytes (compress_buffer (fst q) (snd q) (int k)) = drop k (queue_bytes q)"
    using compress_queue [of "fst q" "snd q" k] by (cases q) simp
next
  fix q and i :: nat
  assume "wf_buf q" "i < 72"
  then show "byte_at (fst q) (int i) = (if i < length (queue_bytes q) then queue_bytes q ! i else 0)"
    using byte_at_queue [of "fst q" "snd q" i] by (cases q) simp
qed (rule is_bytes_queue)

lemma wf_empty_buf: "wf_buf (replicate 9 0, 0)"
proof -
  have "replicate 9 0 ! (k div 8) = (0::int)" if "k < 72" for k :: nat
    using that by (subst nth_replicate) auto
  then show ?thesis by (simp add: wf_buf_def list_all_length)
qed

lemma queue_bytes_empty [simp]: "queue_bytes (buf, 0) = []"
  by (simp add: queue_bytes_def contents_def)

section \<open>Properties\<close>

text \<open>C19. Adding a beat to the receive buffer appends exactly its enabled bytes, whatever the byte
  offset the buffer's fill level leaves the beat at, and keeps the words well formed (no stale bit
  beyond the fill level), as long as at most 72 bytes are held.\<close>
theorem add_data_appends:
  assumes "wf_buf (buf, L)" and "is_bytes d" "length d = 8"
    and "popcount keep \<le> 8" "nat L + popcount keep \<le> 72"
  shows "wf_buf (add_data_to_buffer buf L d keep) \<and>
    queue_bytes (add_data_to_buffer buf L d keep) = queue_bytes (buf, L) @ take (popcount keep) d"
  by (rule add_data_queue [OF assms])

theorem add_data_appends_witness:
  "queue_bytes (add_data_to_buffer (replicate 9 0) 0 [1, 2, 3, 4, 5, 6, 7, 8] 31) = [1, 2, 3, 4, 5]"
proof -
  have "popcount 31 = 5" using popcount_mask [of 5] by simp
  then show ?thesis
    using add_data_appends [OF wf_empty_buf, of "[1, 2, 3, 4, 5, 6, 7, 8]" 31]
    by (simp add: is_byte_def)
qed



lemma compress_ninth:
  assumes "wf_buf (buf, L)" and "a \<le> nat L" "a + 8 < nat L" and "8 \<le> k" "k < nat L - a"
  shows "snd (compress_buffer buf L (int a)) = L - int a \<and>
    byte_at (fst (compress_buffer buf L (int a))) (int k) = 0"
proof -
  have L: "0 \<le> L" "L \<le> 72" using assms(1) by (simp_all add: wf_buf_def)
  then obtain n where n: "L = int n" "n \<le> 72" by (metis nonneg_int_cases of_nat_le_iff of_nat_numeral)
  have "snd (compress_buffer buf L (int a)) = L - int a"
    using snd_compress [of a n buf] assms(2) n by simp
  moreover have "fst (compress_buffer buf L (int a)) ! (k div 8) = 0"
    using assms(4,5) n by (auto simp: compress_buffer_def Let_def NB_def nth_list_update)
  then have "byte_at (fst (compress_buffer buf L (int a))) (int k) = 0"
    by (simp add: byte_at_nat wbyte_def)
  ultimately show ?thesis by simp
qed

text \<open>The limit of \<open>compress_buffer\<close>: it only ever fills word 0 of the new buffer. When more than
  eight bytes remain after the dropped prefix, the length still counts all of them but every byte
  from the ninth on reads as zero: those stream bytes are lost.\<close>
theorem compress_loses_second_word:
  assumes "wf_buf (buf, L)" and "a \<le> nat L" "a + 8 < nat L" and "8 \<le> k" "k < nat L - a"
  shows "snd (compress_buffer buf L (int a)) = L - int a \<and>
    byte_at (fst (compress_buffer buf L (int a))) (int k) = 0"
  by (rule compress_ninth [OF assms])

theorem compress_loses_second_word_witness:
  "byte_at (fst (compress_buffer (replicate 9 0x0101010101010101) 72 (int 8))) (int 8) = 0 \<and>
   byte_at (replicate 9 0x0101010101010101) 16 = 1"
proof -
  have "wf_buf (replicate 9 0x0101010101010101, 72)" by (simp add: wf_buf_def is_word_def list_all_length)
  then have "byte_at (fst (compress_buffer (replicate 9 0x0101010101010101) 72 (int 8))) (int 8) = 0"
    by (rule compress_loses_second_word [THEN conjunct2]) simp_all
  moreover have "byte_at (replicate 9 0x0101010101010101) 16 = 1" by code_simp
  ultimately show ?thesis ..
qed

end
