(* ===== verification/Parser_Model.thy ===== *)
theory Parser_Model
  imports Parser_Buffer
begin

text \<open>
  The parser's state machine, class \<open>Parser\<close> of \<open>ip_export/netlist_sim/parser_model.py\<close>: it
  reads a Sequenced Unit Header, then length-prefixed messages, one unit per 8-byte beat.
  \<open>parser_step\<close> is the replay step, \<open>parser_step_elem\<close> the bit-exact one with data-valid and
  debug records. The specification \<open>spec_step\<close> does the same on a plain list of pending
  bytes; \<open>parser_step_refines\<close> shows that the word buffer implements it while it fits.
\<close>

section \<open>The code\<close>

datatype pstate = HDR | MSG

record parser =
  pbuf :: "int list"
  pL :: int
  pstate :: pstate
  ptotal :: int
  phdr_len :: int
  pout :: "(int \<times> int \<times> int \<times> int \<times> int list) list"
  ptrace :: "(int \<times> int \<times> string \<times> int \<times> int) list"

definition parser_init :: parser where
  "parser_init = \<lparr>pbuf = replicate (nat NB) 0, pL = 0, pstate = HDR, ptotal = 0,
     phdr_len = 0, pout = [], ptrace = []\<rparr>"

datatype debug_record = RHdr int int | RWaiting | RMsg int

text \<open>One element of the clock-crossing FIFO, with the debug record the parser writes.\<close>

definition parser_step_elem ::
    "parser \<Rightarrow> int \<Rightarrow> int list \<Rightarrow> int \<Rightarrow> bool \<Rightarrow> bool \<Rightarrow> parser \<times> debug_record option" where
  "parser_step_elem p0 frame_no data8 keep valid eof =
     (let inword = from_be data8;
          (b1, l1) = (if valid then add_data_to_buffer (pbuf p0) (pL p0) data8 keep
                      else (pbuf p0, pL p0));
          p = p0\<lparr>pbuf := b1, pL := l1\<rparr>
      in case pstate p of
        HDR \<Rightarrow>
          if pL p \<ge> 8 then
            (let hl = byte_at (pbuf p) 0 OR push_bit 8 (byte_at (pbuf p) 1);
                 w0 = pbuf p ! 0;
                 (b2, l2) = compress_buffer (pbuf p) (pL p) 8
             in (p\<lparr>phdr_len := hl, pbuf := b2, pL := l2, ptotal := 8, pstate := MSG\<rparr>,
                 Some (RHdr hl w0)))
          else (p, Some RWaiting)
      | MSG \<Rightarrow>
          if pL p = 0 then (p, None)
          else
            (let ln = byte_at (pbuf p) 0
             in if pL p \<ge> ln then
                  (let (b2, l2) = compress_buffer (pbuf p) (pL p) ln;
                       done = (ptotal p + ln \<ge> phdr_len p)
                   in (p\<lparr>pbuf := b2, pL := l2, ptotal := ptotal p + ln,
                         pstate := (if done \<or> eof then HDR else MSG)\<rparr>, Some (RMsg inword)))
                else (p\<lparr>pstate := (if eof then HDR else MSG)\<rparr>, Some (RMsg inword))))"

definition parser_step :: "parser \<Rightarrow> int \<Rightarrow> int \<Rightarrow> int list \<Rightarrow> int \<Rightarrow> bool \<Rightarrow> parser" where
  "parser_step p0 frame_no off data8 keep eof =
     (let (b1, l1) = add_data_to_buffer (pbuf p0) (pL p0) data8 keep;
          p = p0\<lparr>pbuf := b1, pL := l1\<rparr>
      in case pstate p of
        HDR \<Rightarrow>
          if pL p \<ge> 8 then
            (let hl = byte_at (pbuf p) 0 OR push_bit 8 (byte_at (pbuf p) 1);
                 (b2, l2) = compress_buffer (pbuf p) (pL p) 8
             in p\<lparr>phdr_len := hl, ptrace := ptrace p @ [(frame_no, off, ''HDR'', hl, pL p)],
                  pbuf := b2, pL := l2, ptotal := 8, pstate := MSG\<rparr>)
          else p
      | MSG \<Rightarrow>
          if pL p = 0 then p
          else
            (let ln = byte_at (pbuf p) 0; ty = byte_at (pbuf p) 1
             in if pL p \<ge> ln \<and> ln > 0 then
                  (let first8 = map (\<lambda>i. byte_at (pbuf p) (int i)) [0..<8];
                       (b2, l2) = compress_buffer (pbuf p) (pL p) ln;
                       done = (ptotal p + ln \<ge> phdr_len p)
                   in p\<lparr>pout := pout p @ [(frame_no, off, ln, ty, first8)],
                        pbuf := b2, pL := l2, ptotal := ptotal p + ln,
                        pstate := (if done \<or> eof then HDR else MSG)\<rparr>)
                else p\<lparr>pstate := (if eof then HDR else MSG)\<rparr>))"

section \<open>Specification on byte lists\<close>

record spec =
  spend :: "int list"
  sstate :: pstate
  stotal :: int
  shdr_len :: int
  sout :: "(int \<times> int \<times> int \<times> int \<times> int list) list"

definition first8_of :: "int list \<Rightarrow> int list" where
  "first8_of bs = take 8 (bs @ replicate 8 0)"

definition type_of :: "int list \<Rightarrow> int" where
  "type_of bs = (if 1 < length bs then bs ! 1 else 0)"

definition spec_step :: "spec \<Rightarrow> int \<Rightarrow> int \<Rightarrow> int list \<Rightarrow> bool \<Rightarrow> spec" where
  "spec_step s frame_no off bs eof =
     (let pend = spend s @ bs
      in case sstate s of
        HDR \<Rightarrow>
          if 8 \<le> length pend then
            s\<lparr>spend := drop 8 pend, shdr_len := from_le (take 2 pend), stotal := 8, sstate := MSG\<rparr>
          else s\<lparr>spend := pend\<rparr>
      | MSG \<Rightarrow>
          if pend = [] then s\<lparr>spend := []\<rparr>
          else if 0 < hd pend \<and> nat (hd pend) \<le> length pend then
            s\<lparr>sout := sout s @ [(frame_no, off, hd pend, type_of pend, first8_of pend)],
              spend := drop (nat (hd pend)) pend, stotal := stotal s + hd pend,
              sstate := (if stotal s + hd pend \<ge> shdr_len s \<or> eof then HDR else MSG)\<rparr>
          else s\<lparr>spend := pend, sstate := (if eof then HDR else MSG)\<rparr>)"

text \<open>What the step takes off the front, and the condition that the rest fits one word.\<close>

definition consumed :: "pstate \<Rightarrow> int list \<Rightarrow> nat" where
  "consumed st pend =
     (case st of
        HDR \<Rightarrow> if 8 \<le> length pend then 8 else 0
      | MSG \<Rightarrow> if pend \<noteq> [] \<and> 0 < hd pend \<and> nat (hd pend) \<le> length pend then nat (hd pend) else 0)"

definition step_fits :: "spec \<Rightarrow> int list \<Rightarrow> bool" where
  "step_fits s bs \<longleftrightarrow>
     (let pend = spend s @ bs; k = consumed (sstate s) pend
      in length pend \<le> 72 \<and> (0 < k \<longrightarrow> length pend \<le> k + 8))"

definition abs_parser :: "parser \<Rightarrow> spec" where
  "abs_parser p = \<lparr>spend = queue_bytes (pbuf p, pL p), sstate = pstate p, stotal = ptotal p,
     shdr_len = phdr_len p, sout = pout p\<rparr>"

definition wf_parser :: "parser \<Rightarrow> bool" where
  "wf_parser p \<longleftrightarrow> wf_buf (pbuf p, pL p)"

lemma wf_parser_init: "wf_parser parser_init"
  by (simp add: wf_parser_def parser_init_def NB_def wf_empty_buf)

lemma abs_parser_init:
  "abs_parser parser_init = \<lparr>spend = [], sstate = HDR, stotal = 0, shdr_len = 0, sout = []\<rparr>"
  by (simp add: abs_parser_def parser_init_def)

section \<open>Refinement\<close>

lemma or_bytes: "is_byte a \<Longrightarrow> a OR push_bit 8 b = a + 256 * b"
proof -
  assume a: "is_byte a"
  have "take_bit 8 a = a" using a by (simp add: is_byte_def take_bit_int_eq_self)
  then have "\<not> bit a i \<or> \<not> bit (push_bit 8 b) i" for i
    by (metis bit_push_bit_iff bit_take_bit_iff leD)
  then have "a OR push_bit 8 b = a + push_bit 8 b" by (simp add: disjunctive_add)
  then show ?thesis by (simp add: push_bit_eq_mult)
qed

context byte_queue
begin

lemma peek_0: "ok q \<Longrightarrow> 0 < room \<Longrightarrow> held q \<noteq> [] \<Longrightarrow> peek q 0 = hd (held q)"
  by (simp add: peek_law hd_conv_nth)

lemma peek_type: "ok q \<Longrightarrow> 1 < room \<Longrightarrow> peek q 1 = type_of (held q)"
  by (simp add: peek_law type_of_def)

lemma peek_first8: "ok q \<Longrightarrow> 8 \<le> room \<Longrightarrow> map (peek q) [0..<8] = first8_of (held q)"
  by (rule nth_equalityI) (auto simp: peek_law first8_of_def nth_append)

lemma peek_length_field:
  assumes "ok q" "8 \<le> room" "8 \<le> length (held q)"
  shows "peek q 0 OR push_bit 8 (peek q 1) = from_le (take 2 (held q))"
proof -
  have "take 2 (held q) = [held q ! 0, held q ! 1]"
    using assms(3) by (cases "held q"; cases "tl (held q)") auto
  moreover have "is_byte (held q ! 0)" using held_bytes [OF assms(1)] assms(3)
    by (auto intro: is_bytes_nth)
  moreover have "held q \<noteq> []" using assms(3) by auto
  ultimately show ?thesis using assms by (simp add: peek_law or_bytes)
qed

end

text \<open>The buffer's facts in the form the step reads them.\<close>

lemma queue_reads:
  assumes wf: "wf_buf (b, l)"
  defines "pend \<equiv> queue_bytes (b, l)"
  shows "l = int (length pend)"
    and "pend \<noteq> [] \<Longrightarrow> byte_at b 0 = hd pend"
    and "byte_at b 1 = type_of pend"
    and "map (\<lambda>i. byte_at b (int i)) [0..<8] = first8_of pend"
    and "8 \<le> length pend \<Longrightarrow> byte_at b 0 OR push_bit 8 (byte_at b 1) = from_le (take 2 pend)"
  using bq.peek_0 [OF wf] bq.peek_type [OF wf] bq.peek_first8 [OF wf] bq.peek_length_field [OF wf] wf
  by (simp_all add: pend_def wf_buf_def)

lemma discard_queue:
  assumes "wf_buf (b, l)" and "k \<le> length (queue_bytes (b, l))" "length (queue_bytes (b, l)) \<le> k + 8"
  obtains b2 l2 where "compress_buffer b l (int k) = (b2, l2)" and "wf_buf (b2, l2)"
    and "queue_bytes (b2, l2) = drop k (queue_bytes (b, l))"
  using bq.discard_law [OF assms] by (metis fst_conv snd_conv surj_pair)

lemma hd_byte: "pend \<noteq> [] \<Longrightarrow> is_bytes pend \<Longrightarrow> 0 \<le> hd pend"
  by (cases pend) (auto simp: is_byte_def)

lemma parser_step_refines_aux:
  assumes wf: "wf_buf (b1, l1)"
    and add: "add_data_to_buffer (pbuf p) (pL p) d keep = (b1, l1)"
    and pend: "queue_bytes (b1, l1) = spend (abs_parser p) @ bs"
    and fits: "step_fits (abs_parser p) bs"
  shows "wf_parser (parser_step p f off d keep eof) \<and>
    abs_parser (parser_step p f off d keep eof) = spec_step (abs_parser p) f off bs eof"
proof -
  define pd where "pd = queue_bytes (b1, l1)"
  note reads = queue_reads [OF wf, folded pd_def]
  have qd: "queue_bytes (b1, int (length pd)) = pd" by (subst reads(1) [symmetric]) (simp only: pd_def)
  have pd_bs: "spend (abs_parser p) @ bs = pd" using pend by (simp add: pd_def)
  then have pd_bs': "queue_bytes (pbuf p, pL p) @ bs = pd" by (simp add: abs_parser_def)
  have byte: "is_bytes pd" unfolding pd_def by (rule is_bytes_queue)
  note defs = parser_step_def spec_step_def add pd_bs' Let_def wf_parser_def
  have st: "sstate (abs_parser p) = pstate p" by (simp add: abs_parser_def)
  have fit: "let k = consumed (pstate p) pd in 0 < k \<longrightarrow> length pd \<le> k + 8"
    using fits by (simp add: step_fits_def pd_bs st Let_def)
  show ?thesis
  proof (cases "pstate p")
    case HDR
    show ?thesis
    proof (cases "8 \<le> length pd")
      case True
      then obtain b2 l2 where c: "compress_buffer b1 l1 (int 8) = (b2, l2)" "wf_buf (b2, l2)"
          "queue_bytes (b2, l2) = drop 8 pd"
        using discard_queue [OF wf, of 8] fit HDR by (auto simp: consumed_def pd_def Let_def)
      show ?thesis using HDR True c reads(5) [OF True]
        by (simp add: defs st abs_parser_def reads(1))
    next
      case False
      then show ?thesis using HDR wf by (simp add: defs st abs_parser_def reads(1) qd)
    qed
  next
    case MSG
    show ?thesis
    proof (cases "pd = []")
      case True
      then show ?thesis using MSG wf by (simp add: defs st abs_parser_def reads(1) qd)
    next
      case ne: False
      note h = reads(2) [OF ne] hd_byte [OF ne byte]
      show ?thesis
      proof (cases "0 < hd pd \<and> nat (hd pd) \<le> length pd")
        case True
        then obtain b2 l2 where c: "compress_buffer b1 l1 (int (nat (hd pd))) = (b2, l2)"
            "wf_buf (b2, l2)" "queue_bytes (b2, l2) = drop (nat (hd pd)) pd"
          using discard_queue [OF wf, of "nat (hd pd)"] fit MSG ne
          by (auto simp: consumed_def pd_def Let_def)
        have "hd pd \<le> int (length pd)" using True by linarith
        then show ?thesis using MSG ne True c h reads(1,3,4)
          by (simp add: defs st abs_parser_def)
      next
        case False
        then show ?thesis using MSG ne wf h reads(1)
          by (auto simp: defs st abs_parser_def qd)
      qed
    qed
  qed
qed

lemma parser_step_refines_lemma:
  assumes wf: "wf_parser p" and d: "is_bytes d" "length d = 8" and k: "popcount keep \<le> 8"
    and fits: "step_fits (abs_parser p) (take (popcount keep) d)"
  shows "wf_parser (parser_step p f off d keep eof) \<and>
    abs_parser (parser_step p f off d keep eof) =
      spec_step (abs_parser p) f off (take (popcount keep) d) eof"
proof -
  let ?q = "add_data_to_buffer (pbuf p) (pL p) d keep"
  have room: "length (queue_bytes (pbuf p, pL p)) + popcount keep \<le> 72"
    using fits d k by (simp add: step_fits_def abs_parser_def Let_def min_def)
  have law: "wf_buf ?q \<and> queue_bytes ?q = queue_bytes (pbuf p, pL p) @ take (popcount keep) d"
    using bq.add_law [OF wf [unfolded wf_parser_def] d k room] by simp
  obtain b1 l1 where q: "?q = (b1, l1)" by (cases ?q)
  show ?thesis
    by (rule parser_step_refines_aux [OF _ q _ fits]) (use law q in \<open>simp_all add: abs_parser_def\<close>)
qed

section \<open>Properties\<close>

text \<open>C5. The parser over 64-bit words does what the byte-list specification does: with a well-formed
  buffer and a beat that fits (at most 72 bytes pending, at most one word left after a unit is
  taken off), one \<open>step\<close> of the code and one step of the specification on the enabled bytes agree
  in pending bytes, state, byte total, header length and emitted messages.\<close>
theorem parser_step_refines:
  assumes "wf_parser p" and "is_bytes d" "length d = 8" and "popcount keep \<le> 8"
    and "step_fits (abs_parser p) (take (popcount keep) d)"
  shows "wf_parser (parser_step p f off d keep eof) \<and>
    abs_parser (parser_step p f off d keep eof) =
      spec_step (abs_parser p) f off (take (popcount keep) d) eof"
  by (rule parser_step_refines_lemma [OF assms])

theorem parser_step_refines_witness:
  "abs_parser (parser_step parser_init 0 0 [34, 0, 1, 1, 5, 0, 0, 0] 255 False) =
     \<lparr>spend = [], sstate = MSG, stotal = 8, shdr_len = 34, sout = []\<rparr>"
proof -
  have "step_fits (abs_parser parser_init) (take (popcount 255) [34, 0, 1, 1, 5, 0, 0, 0])"
    by (simp add: step_fits_def abs_parser_init consumed_def)
  from parser_step_refines [OF wf_parser_init _ _ _ this, of 0 0 False]
  show ?thesis by (simp add: is_byte_def abs_parser_init spec_step_def)
qed

text \<open>The output fields that only the replay step keeps.\<close>

definition same_machine :: "parser \<Rightarrow> parser \<Rightarrow> bool" where
  "same_machine p q \<longleftrightarrow> pbuf p = pbuf q \<and> pL p = pL q \<and> pstate p = pstate q \<and>
     ptotal p = ptotal q \<and> phdr_len p = phdr_len q"

lemma step_elem_machine:
  assumes "pstate p = MSG \<Longrightarrow> 0 < byte_at (fst (add_data_to_buffer (pbuf p) (pL p) d keep)) 0"
  shows "same_machine (fst (parser_step_elem p f d keep True eof)) (parser_step p f off d keep eof)"
proof -
  obtain b1 l1 where q: "add_data_to_buffer (pbuf p) (pL p) d keep = (b1, l1)" by fastforce
  have head: "0 < byte_at b1 0" if "pstate p = MSG" using assms that q by simp
  obtain b2 l2 where c: "compress_buffer b1 l1 8 = (b2, l2)" by fastforce
  obtain b3 l3 where e: "compress_buffer b1 l1 (byte_at b1 0) = (b3, l3)" by fastforce
  show ?thesis using head
    by (cases "pstate p") (simp_all add: parser_step_elem_def parser_step_def q c e same_machine_def Let_def)
qed

text \<open>The bit-exact step of one FIFO element and the replay step drive the same machine: on a
  valid element, buffer, fill level, state, byte total and header length agree, except where the
  length byte at the front is zero, which only the replay step refuses to consume.\<close>
theorem step_elem_same_machine:
  assumes "pstate p = MSG \<Longrightarrow> 0 < byte_at (fst (add_data_to_buffer (pbuf p) (pL p) d keep)) 0"
  shows "same_machine (fst (parser_step_elem p f d keep True eof)) (parser_step p f off d keep eof)"
  using step_elem_machine assms by blast

theorem step_elem_same_machine_witness:
  "same_machine
     (fst (parser_step_elem (parser_init\<lparr>pstate := MSG\<rparr>) 0 [6, 0x20, 1, 2, 3, 4, 0, 0] 63 True True))
     (parser_step (parser_init\<lparr>pstate := MSG\<rparr>) 0 0 [6, 0x20, 1, 2, 3, 4, 0, 0] 63 True)"
proof (rule step_elem_same_machine)
  show "0 < byte_at (fst (add_data_to_buffer (pbuf (parser_init\<lparr>pstate := MSG\<rparr>))
      (pL (parser_init\<lparr>pstate := MSG\<rparr>)) [6, 0x20, 1, 2, 3, 4, 0, 0] 63)) 0"
    by code_simp
qed

end
