(* ===== verification/Parser_Frames.thy ===== *)
theory Parser_Frames
  imports Parser_Model
begin

text \<open>
  Replaying whole frames: the loop of \<open>main\<close> in \<open>ip_export/netlist_sim/parser_model.py\<close> that cuts
  each UDP payload into 8-byte beats and steps the parser. The theory proves that a payload
  made of a header and messages with which the parser keeps pace is parsed into exactly its messages, and
  that the parser is back in its start state after every frame.
\<close>

section \<open>The code\<close>

text \<open>One round of the loop: offset, padded chunk, byte enables, end-of-frame flag.\<close>

definition payload_beat :: "int list \<Rightarrow> nat \<Rightarrow> int \<times> int list \<times> int \<times> bool" where
  "payload_beat payload off =
     (let chunk = py_slice off (off + 8) payload;
          keep = push_bit (length chunk) 1 - 1
      in (int off, chunk @ replicate (8 - length chunk) 0, keep, off + 8 \<ge> length payload))"

definition replay_payload :: "parser \<Rightarrow> int \<Rightarrow> int list \<Rightarrow> parser" where
  "replay_payload p fno payload =
     foldl (\<lambda>q i. let (off, d, keep, eof) = payload_beat payload (8 * i)
                  in parser_step q fno off d keep eof)
       p [0..<(length payload + 7) div 8]"

definition replay_frames :: "parser \<Rightarrow> (int \<times> int list) list \<Rightarrow> parser" where
  "replay_frames p frames = foldl (\<lambda>q (fno, payload). replay_payload q fno payload) p frames"

section \<open>Feeding the specification\<close>

function spec_feed :: "spec \<Rightarrow> int \<Rightarrow> nat \<Rightarrow> int list \<Rightarrow> spec" where
  "spec_feed s f off r =
     (if r = [] then s
      else spec_feed (spec_step s f (int off) (take 8 r) (length r \<le> 8)) f (off + 8) (drop 8 r))"
  by pat_completeness auto
termination
  by (relation "measure (\<lambda>(s, f, off, r). length r)") auto

function feed_fits :: "spec \<Rightarrow> int \<Rightarrow> nat \<Rightarrow> int list \<Rightarrow> bool" where
  "feed_fits s f off r =
     (if r = [] then True
      else step_fits s (take 8 r) \<and>
        feed_fits (spec_step s f (int off) (take 8 r) (length r \<le> 8)) f (off + 8) (drop 8 r))"
  by pat_completeness auto
termination
  by (relation "measure (\<lambda>(s, f, off, r). length r)") auto

text \<open>Every beat meets the machine inside a unit, with a message length that is not zero in front.\<close>

function feed_msgs :: "spec \<Rightarrow> int \<Rightarrow> nat \<Rightarrow> int list \<Rightarrow> bool" where
  "feed_msgs s f off r =
     (if r = [] then True
      else sstate s = MSG \<and> 0 < hd (spend s @ take 8 r) \<and>
        feed_msgs (spec_step s f (int off) (take 8 r) (length r \<le> 8)) f (off + 8) (drop 8 r))"
  by pat_completeness auto
termination
  by (relation "measure (\<lambda>(s, f, off, r). length r)") auto

declare spec_feed.simps [simp del] feed_fits.simps [simp del] feed_msgs.simps [simp del]

lemma feed_Nil [simp]: "spec_feed s f off [] = s" "feed_fits s f off []" "feed_msgs s f off []"
  by (simp_all add: spec_feed.simps [of s f off "[]"] feed_fits.simps [of s f off "[]"]
      feed_msgs.simps [of s f off "[]"])

lemma feed_step:
  "r \<noteq> [] \<Longrightarrow> spec_feed s f off r =
     spec_feed (spec_step s f (int off) (take 8 r) (length r \<le> 8)) f (off + 8) (drop 8 r)"
  "r \<noteq> [] \<Longrightarrow> feed_fits s f off r \<longleftrightarrow> step_fits s (take 8 r) \<and>
     feed_fits (spec_step s f (int off) (take 8 r) (length r \<le> 8)) f (off + 8) (drop 8 r)"
  "r \<noteq> [] \<Longrightarrow> feed_msgs s f off r \<longleftrightarrow> sstate s = MSG \<and> 0 < hd (spend s @ take 8 r) \<and>
     feed_msgs (spec_step s f (int off) (take 8 r) (length r \<le> 8)) f (off + 8) (drop 8 r)"
  by (simp_all add: spec_feed.simps [of s f off r] feed_fits.simps [of s f off r] feed_msgs.simps [of s f off r])

text \<open>The beat cut at offset \<open>off\<close> enables exactly the next bytes of the payload.\<close>

lemma payload_beat_enabled:
  assumes "is_bytes payload" and "payload_beat payload off = (o', d, keep, eof)"
  shows "o' = int off" "is_bytes d" "length d = 8" "popcount keep \<le> 8"
    and "take (popcount keep) d = take 8 (drop off payload)"
    and "eof \<longleftrightarrow> length (drop off payload) \<le> 8"
  using assms by (auto simp: payload_beat_def Let_def py_slice_def ones_mask mask_eq_exp_minus_1)

lemma replay_from:
  assumes bytes: "is_bytes payload"
  shows "wf_parser p \<Longrightarrow> feed_fits (abs_parser p) fno (8 * i) (drop (8 * i) payload) \<Longrightarrow>
    let q = foldl (\<lambda>q i. let (off, d, keep, eof) = payload_beat payload (8 * i)
                         in parser_step q fno off d keep eof)
              p [i..<(length payload + 7) div 8]
    in wf_parser q \<and> abs_parser q = spec_feed (abs_parser p) fno (8 * i) (drop (8 * i) payload)"
proof (induction "(length payload + 7) div 8 - i" arbitrary: p i)
  case 0
  then have "(length payload + 7) div 8 \<le> i" by simp
  then have "length payload \<le> 8 * i" by linarith
  with 0 show ?case by simp
next
  case (Suc n)
  then have i: "i < (length payload + 7) div 8" by linarith
  then have ne: "drop (8 * i) payload \<noteq> []" by simp
  obtain o' d keep eof where b: "payload_beat payload (8 * i) = (o', d, keep, eof)"
    by (metis surj_pair)
  note beat = payload_beat_enabled [OF bytes b]
  from Suc.prems feed_step(2) [OF ne]
  have fits: "step_fits (abs_parser p) (take (popcount keep) d)" unfolding beat(5) by simp
  define q where "q = parser_step p fno o' d keep eof"
  from parser_step_refines_lemma [OF Suc.prems(1) beat(2,3,4) fits]
  have q: "wf_parser q" "abs_parser q = spec_step (abs_parser p) fno (int (8 * i))
      (take 8 (drop (8 * i) payload)) (length (drop (8 * i) payload) \<le> 8)"
    unfolding q_def beat(1) beat(5) beat(6) by blast+
  have "feed_fits (abs_parser q) fno (8 * Suc i) (drop (8 * Suc i) payload)"
    using Suc.prems(2) feed_step(2) [OF ne] q(2) by (simp add: add.commute)
  moreover have "n = (length payload + 7) div 8 - Suc i" using Suc.hyps(2) by linarith
  ultimately show ?case
    using Suc.hyps(1) [of "Suc i" q] q feed_step(1) [OF ne] i b
    by (simp add: upt_conv_Cons q_def [symmetric] add.commute)
qed

lemma replay_payload_spec:
  assumes "is_bytes payload" and "wf_parser p" and "feed_fits (abs_parser p) fno 0 payload"
  shows "wf_parser (replay_payload p fno payload) \<and>
    abs_parser (replay_payload p fno payload) = spec_feed (abs_parser p) fno 0 payload"
  using replay_from [OF assms(1,2), of fno 0] assms(3) by (simp add: replay_payload_def Let_def)

section \<open>Well-formed units\<close>

definition wf_msg :: "int list \<Rightarrow> bool" where
  "wf_msg m \<longleftrightarrow> is_bytes m \<and> 2 \<le> length m \<and> length m \<le> 65 \<and> hd m = int (length m)"

text \<open>
  The parser takes at most one message off its buffer per beat, and what then stays in the buffer must fit
  one word. Whether it keeps up depends on the lengths only: with \<open>p\<close> bytes pending and \<open>r\<close> still
  to arrive in beats of eight, messages of lengths \<open>ls\<close> are all taken off in time and the last \<open>t\<close>
  bytes stay behind.
\<close>

function keeps_pace :: "nat \<Rightarrow> nat \<Rightarrow> nat list \<Rightarrow> nat \<Rightarrow> bool" where
  "keeps_pace p r ls t =
     (if r = 0 then ls = [] \<and> p = t
      else let q = p + min 8 r; r' = r - 8
           in case ls of
                [] \<Rightarrow> False
              | l # ls' \<Rightarrow> if l \<le> q then q \<le> l + 8 \<and> keeps_pace (q - l) r' ls' t else keeps_pace q r' ls t)"
  by pat_completeness auto
termination
  by (relation "measure (\<lambda>(p, r, ls, t). r)") auto

declare keeps_pace.simps [simp del]

definition paced :: "int list list \<Rightarrow> int list \<Rightarrow> bool" where
  "paced ms t \<longleftrightarrow> keeps_pace 0 (length (concat ms @ t)) (map length ms) (length t)"

definition wf_unit :: "int list \<Rightarrow> int list list \<Rightarrow> bool" where
  "wf_unit hdr ms \<longleftrightarrow> is_bytes hdr \<and> length hdr = 8 \<and> ms \<noteq> [] \<and> list_all wf_msg ms \<and> paced ms [] \<and>
     from_le (take 2 hdr) = 8 + int (length (concat ms))"

lemma keeps_pace_done: "keeps_pace p 0 ls t \<longleftrightarrow> ls = [] \<and> p = t"
  by (simp add: keeps_pace.simps)

lemma keeps_pace_late: "0 < r \<Longrightarrow> \<not> keeps_pace p r [] t"
  by (simp add: keeps_pace.simps [of p r])

lemma keeps_pace_take:
  "0 < r \<Longrightarrow> l \<le> p + min 8 r \<Longrightarrow>
   keeps_pace p r (l # ls) t \<longleftrightarrow> p + min 8 r \<le> l + 8 \<and> keeps_pace (p + min 8 r - l) (r - 8) ls t"
  by (simp add: keeps_pace.simps [of p r] Let_def)

lemma keeps_pace_wait:
  "0 < r \<Longrightarrow> \<not> l \<le> p + min 8 r \<Longrightarrow> keeps_pace p r (l # ls) t \<longleftrightarrow> keeps_pace (p + min 8 r) (r - 8) (l # ls) t"
  by (simp add: keeps_pace.simps [of p r] Let_def)

text \<open>Messages of at least eight bytes always keep pace, whatever their order: no beat ends two of them.\<close>

lemma keeps_pace_long:
  "list_all (\<lambda>l. 8 \<le> l) (l # ls) \<Longrightarrow> p < l \<Longrightarrow> p + r = sum_list (l # ls) \<Longrightarrow> keeps_pace p r (l # ls) 0"
proof (induction r arbitrary: p l ls rule: less_induct)
  case (less r)
  have r: "0 < r" using less.prems by simp
  show ?case
  proof (cases "l \<le> p + min 8 r")
    case False
    then have "8 < r" using less.prems by (simp add: min_def split: if_splits)
    moreover from this have "keeps_pace (p + 8) (r - 8) (l # ls) 0"
      using less.prems False by (intro less.IH) simp_all
    ultimately show ?thesis using keeps_pace_wait [OF r False] by simp
  next
    case True
    have room: "p + min 8 r \<le> l + 8" using less.prems(2) by simp
    have "keeps_pace (p + min 8 r - l) (r - 8) ls 0"
    proof (cases ls)
      case Nil
      then have "r \<le> 8" using less.prems True by simp
      then show ?thesis using less.prems(3) Nil by (simp add: keeps_pace_done)
    next
      case (Cons k ks)
      then have k: "8 \<le> k" using less.prems(1) by simp
      then have "8 < r" using less.prems(2,3) Cons by simp
      then show ?thesis unfolding Cons
        using less.prems True k Cons by (intro less.IH) simp_all
    qed
    then show ?thesis using keeps_pace_take [OF r True] room by simp
  qed
qed

lemma paced_long:
  assumes "list_all (\<lambda>m. 8 \<le> length m) ms" and "ms \<noteq> []"
  shows "paced ms []"
proof -
  obtain m ms' where ms: "ms = m # ms'" using assms(2) by (cases ms) auto
  have "length (concat ms) = sum_list (map length ms)" by (simp add: length_concat)
  moreover have "list_all (\<lambda>l. 8 \<le> l) (map length ms)" using assms(1) by (simp add: list_all_iff)
  moreover have "0 < length m" using assms(1) by (auto simp: ms)
  ultimately show ?thesis using keeps_pace_long [of "length m" "map length ms'" 0 "length (concat ms)"] by (simp add: ms paced_def)
qed

text \<open>What one message contributes to the parser's output, without the beat offset.\<close>

definition entry_of :: "int \<Rightarrow> int list \<Rightarrow> int \<times> int \<times> int \<times> int list" where
  "entry_of fno m = (fno, int (length m), m ! 1, take 8 m)"

text \<open>
  The output without beat offsets, and without the bytes behind a message of less than eight: the eight
  bytes the parser notes then reach into what follows.
\<close>

definition seen :: "(int \<times> int \<times> int \<times> int \<times> int list) list \<Rightarrow> (int \<times> int \<times> int \<times> int list) list" where
  "seen out = map (\<lambda>(fno, off, ln, ty, first8). (fno, ln, ty, take (nat ln) first8)) out"

lemma seen_append [simp]: "seen (xs @ ys) = seen xs @ seen ys"
  by (simp add: seen_def)

lemma wf_msg_ne: "wf_msg m \<Longrightarrow> m \<noteq> []"
  by (cases m) (simp_all add: wf_msg_def)

lemma front_of_message:
  assumes "pend = m @ rest" and "wf_msg m"
  shows "hd pend = int (length m)" "type_of pend = m ! 1" "take (length m) (first8_of pend) = take 8 m" "pend \<noteq> []"
  using assms wf_msg_ne [OF assms(2)]
  by (auto simp: wf_msg_def type_of_def first8_of_def nth_append hd_append min_def)

lemma spec_step_partial:
  assumes "sstate s = MSG" and "spend s @ bs = pend" "pend \<noteq> []"
    and "\<not> nat (hd pend) \<le> length pend" and "\<not> eof"
  shows "spec_step s f off bs eof = s\<lparr>spend := pend, sstate := MSG\<rparr>"
  using assms by (simp add: spec_step_def Let_def)

lemma spec_step_message:
  assumes "sstate s = MSG" and "spend s @ bs = m @ rest" and "wf_msg m"
  shows "spec_step s f off bs eof =
    s\<lparr>sout := sout s @ [(f, off, int (length m), m ! 1, first8_of (m @ rest))], spend := rest,
      stotal := stotal s + int (length m),
      sstate := (if shdr_len s \<le> stotal s + int (length m) \<or> eof then HDR else MSG)\<rparr>"
proof -
  have "0 < length m" using wf_msg_ne [OF assms(3)] by simp
  then show ?thesis using assms front_of_message [OF refl assms(3), of rest]
    by (simp add: spec_step_def Let_def)
qed

lemma seen_message:
  "wf_msg m \<Longrightarrow> seen [(f, off, int (length m), m ! 1, first8_of (m @ rest))] = [entry_of f m]"
  using front_of_message(3) [OF refl] by (simp add: seen_def entry_of_def)

text \<open>One beat of a message: it waits for more bytes, or it is taken and at most a word is left.\<close>

lemma message_waits:
  assumes "sstate s = MSG" and "r \<noteq> []" and m: "wf_msg m" and pend: "pend = spend s @ take 8 r"
    and "hd pend = int (length m)" and "length pend < length m"
    and "keeps_pace (length (spend s)) (length r) (length m # ls) u"
  shows "8 < length r" and "keeps_pace (length pend) (length r - 8) (length m # ls) u"
    and "spec_step s f (int off) (take 8 r) False = s\<lparr>spend := pend, sstate := MSG\<rparr>" and "step_fits s (take 8 r)"
proof -
  have r: "0 < length r" "pend \<noteq> []" using assms(2) by (simp_all add: pend)
  have len: "length pend = length (spend s) + min 8 (length r)" by (simp add: pend)
  show later: "keeps_pace (length pend) (length r - 8) (length m # ls) u"
    using assms(6,7) keeps_pace_wait [OF r(1)] by (simp add: len)
  then show "8 < length r" by (cases "length r \<le> 8") (auto simp: keeps_pace_done)
  show "spec_step s f (int off) (take 8 r) False = s\<lparr>spend := pend, sstate := MSG\<rparr>"
    using assms(1,5,6) r(2) by (intro spec_step_partial) (simp_all add: pend)
  show "step_fits s (take 8 r)"
    using assms(1,5,6) m r(2) by (simp add: step_fits_def consumed_def Let_def wf_msg_def flip: pend)
qed

lemma message_taken:
  assumes "sstate s = MSG" and "r \<noteq> []" and m: "wf_msg m" and pend: "m @ rest = spend s @ take 8 r"
    and "length (spend s) \<le> 64" and "keeps_pace (length (spend s)) (length r) (length m # ls) u"
  shows "length rest \<le> 8" and "keeps_pace (length rest) (length r - 8) ls u"
    and "spec_step s f (int off) (take 8 r) eof =
      s\<lparr>sout := sout s @ [(f, int off, int (length m), m ! 1, first8_of (m @ rest))], spend := rest,
        stotal := stotal s + int (length m),
        sstate := (if shdr_len s \<le> stotal s + int (length m) \<or> eof then HDR else MSG)\<rparr>"
    and "step_fits s (take 8 r)"
proof -
  have r: "0 < length r" using assms(2) by simp
  have len: "length m + length rest = length (spend s) + min 8 (length r)"
    using arg_cong [OF pend, of length] by simp
  show later: "length rest \<le> 8" "keeps_pace (length rest) (length r - 8) ls u"
    using assms(6) unfolding keeps_pace_take [OF r, of "length m" "length (spend s)", folded len, OF le_add1]
    by simp_all
  show "spec_step s f (int off) (take 8 r) eof =
      s\<lparr>sout := sout s @ [(f, int off, int (length m), m ! 1, first8_of (m @ rest))], spend := rest,
        stotal := stotal s + int (length m),
        sstate := (if shdr_len s \<le> stotal s + int (length m) \<or> eof then HDR else MSG)\<rparr>"
    by (rule spec_step_message [OF assms(1) pend [symmetric] m])
  have "length m + length rest \<le> 72" using len assms(5) by simp
  then show "step_fits s (take 8 r)"
    using assms(1) later(1) m wf_msg_ne [OF m]
    by (simp add: step_fits_def consumed_def Let_def wf_msg_def flip: pend)
qed

text \<open>
  From the middle of a unit: the pending bytes and those to arrive are whole messages and a tail, and the
  parser keeps pace with them.
\<close>

lemma feed_messages:
  assumes "sstate s = MSG" and "spend s @ r = concat ms @ t" and "length (spend s) \<le> 64"
    and "list_all wf_msg ms" and "keeps_pace (length (spend s)) (length r) (map length ms) (length t)"
    and "shdr_len s = stotal s + int (length (spend s @ r))" and "r \<noteq> []"
  shows "feed_fits s f off r \<and> feed_msgs s f off r \<and>
    (let s' = spec_feed s f off r
     in sstate s' = HDR \<and> spend s' = t \<and> seen (sout s') = seen (sout s) @ map (entry_of f) ms)"
  using assms
proof (induction "length r" arbitrary: s r ms off rule: less_induct)
  case less
  define pend where "pend = spend s @ take 8 r"
  note ne = less.prems(7)
  obtain m ms' where ms: "ms = m # ms'"
    using less.prems(5,7) keeps_pace_late [of "length r"] by (cases ms) auto
  have m: "wf_msg m" "m \<noteq> []" "hd m = int (length m)" "length m \<le> 65"
    using less.prems(4) wf_msg_ne [of m] by (auto simp: ms wf_msg_def)
  have split: "pend @ drop 8 r = m @ concat ms' @ t" using less.prems(2) by (simp add: pend_def ms)
  have hd_pend: "hd pend = int (length m)" using split ne m(2,3) by (metis hd_append2 pend_def append_is_Nil_conv take_eq_Nil zero_neq_numeral)
  have front: "0 < hd (spend s @ take 8 r)" using hd_pend m(2) by (simp flip: pend_def)
  have pace: "keeps_pace (length (spend s)) (length r) (length m # map length ms') (length t)"
    using less.prems(5) by (simp add: ms)
  show ?case
  proof (cases "length m \<le> length pend")
    case False
    note wait = message_waits [OF less.prems(1) ne m(1) pend_def hd_pend _ pace]
    let ?s = "s\<lparr>spend := pend, sstate := MSG\<rparr>"
    have "feed_fits ?s f (off + 8) (drop 8 r) \<and> feed_msgs ?s f (off + 8) (drop 8 r) \<and>
        (let s' = spec_feed ?s f (off + 8) (drop 8 r)
         in sstate s' = HDR \<and> spend s' = t \<and> seen (sout s') = seen (sout ?s) @ map (entry_of f) ms)"
    proof (rule less.hyps)
      show "shdr_len ?s = stotal ?s + int (length (spend ?s @ drop 8 r))"
        using less.prems(6) by (simp add: pend_def)
      show "keeps_pace (length (spend ?s)) (length (drop 8 r)) (map length ms) (length t)"
        using wait(2) False by (simp add: ms)
    qed (use ne split False less.prems(4) wait(1) m(4) in \<open>simp_all add: ms\<close>)
    then show ?thesis using feed_step [OF ne] wait False front less.prems(1) by simp
  next
    case True
    define rest where "rest = drop (length m) pend"
    have pend_m: "m @ rest = spend s @ take 8 r"
      using split True unfolding pend_def [symmetric] by (metis rest_def append_eq_append_conv_if append_eq_conv_conj)
    have rest: "rest @ drop 8 r = concat ms' @ t" using split by (simp add: pend_def pend_m [symmetric])
    note took = message_taken [OF less.prems(1) ne m(1) pend_m less.prems(3) pace]
    let ?s = "s\<lparr>sout := sout s @ [(f, int off, int (length m), m ! 1, first8_of (m @ rest))], spend := rest,
          stotal := stotal s + int (length m),
          sstate := (if shdr_len s \<le> stotal s + int (length m) \<or> length r \<le> 8 then HDR else MSG)\<rparr>"
    have out: "seen (sout ?s) = seen (sout s) @ [entry_of f m]" using seen_message [OF m(1)] by simp
    show ?thesis
    proof (cases "length r \<le> 8")
      case True
      then have "map length ms' = []" "length rest = length t" using took(2) by (simp_all add: keeps_pace_done)
      then have "ms' = []" "rest = t" "drop 8 r = []" using rest True by simp_all
      then show ?thesis using feed_step [OF ne] took front less.prems(1) out True by (simp add: ms)
    next
      case more: False
      have "spend s @ r = (spend s @ take 8 r) @ drop 8 r" by simp
      then have "spend s @ r = m @ rest @ drop 8 r" by (simp only: pend_m [symmetric] append_assoc)
      then have total: "shdr_len s = stotal s + int (length m) + int (length (rest @ drop 8 r))"
        using less.prems(6) by (simp only: length_append of_nat_add)
      then have state: "sstate ?s = MSG" using more by simp
      have "feed_fits ?s f (off + 8) (drop 8 r) \<and> feed_msgs ?s f (off + 8) (drop 8 r) \<and>
          (let s' = spec_feed ?s f (off + 8) (drop 8 r)
           in sstate s' = HDR \<and> spend s' = t \<and> seen (sout s') = seen (sout ?s) @ map (entry_of f) ms')"
      proof (rule less.hyps)
        show "shdr_len ?s = stotal ?s + int (length (spend ?s @ drop 8 r))" using total by simp
      qed (use ne rest took(1,2) less.prems(4) more state in \<open>simp_all add: ms\<close>)
      then show ?thesis using feed_step [OF ne] took front less.prems(1) out by (simp add: ms)
    qed
  qed
qed

text \<open>
  A unit whose header length counts the bytes \<open>t\<close> behind the listed messages as well; with
  \<open>t = []\<close> this is a well-formed unit.
\<close>

definition unit_with_tail :: "int list \<Rightarrow> int list list \<Rightarrow> int list \<Rightarrow> bool" where
  "unit_with_tail hdr ms t \<longleftrightarrow> is_bytes hdr \<and> length hdr = 8 \<and> ms \<noteq> [] \<and> list_all wf_msg ms \<and>
     is_bytes t \<and> paced ms t \<and> from_le (take 2 hdr) = 8 + int (length (concat ms @ t))"

lemma wf_unit_tail: "wf_unit hdr ms \<Longrightarrow> unit_with_tail hdr ms []"
  by (simp add: unit_with_tail_def wf_unit_def)

lemma feed_unit:
  assumes "sstate s = HDR" and "spend s = []" and wf: "unit_with_tail hdr ms t"
  shows "feed_fits s f 0 (hdr @ concat ms @ t) \<and>
    feed_msgs (spec_step s f 0 hdr False) f 8 (concat ms @ t) \<and>
    (let s' = spec_feed s f 0 (hdr @ concat ms @ t)
     in sstate s' = HDR \<and> spend s' = t \<and> seen (sout s') = seen (sout s) @ map (entry_of f) ms)"
proof -
  obtain m ms' where ms: "ms = m # ms'" using wf by (cases ms) (auto simp: unit_with_tail_def)
  have m: "m \<noteq> []" using wf wf_msg_ne by (simp add: unit_with_tail_def ms)
  let ?r = "hdr @ concat ms @ t"
  have hdr: "length hdr = 8" "take 8 ?r = hdr" "drop 8 ?r = concat ms @ t" "?r \<noteq> []"
    "\<not> length ?r \<le> 8"
    using wf m by (auto simp: unit_with_tail_def ms)
  define s1 where "s1 = spec_step s f (int 0) hdr False"
  have s1: "s1 = s\<lparr>spend := [], shdr_len := from_le (take 2 hdr), stotal := 8, sstate := MSG\<rparr>"
    using assms(1,2) hdr(1) by (simp add: s1_def spec_step_def Let_def)
  have fit: "step_fits s hdr"
    using assms(1,2) hdr(1) by (simp add: step_fits_def consumed_def Let_def)
  have "feed_fits s1 f 8 (concat ms @ t) \<and> feed_msgs s1 f 8 (concat ms @ t) \<and>
      (let s' = spec_feed s1 f 8 (concat ms @ t)
       in sstate s' = HDR \<and> spend s' = t \<and> seen (sout s') = seen (sout s1) @ map (entry_of f) ms)"
    by (rule feed_messages) (use wf m in \<open>simp_all add: s1 unit_with_tail_def paced_def ms\<close>)
  moreover have "spec_feed s f 0 ?r = spec_feed s1 f 8 (concat ms @ t)"
    by (simp only: feed_step(1) [OF hdr(4)] hdr(2,3,5) s1_def add_0 of_nat_0)
  moreover have "feed_fits s f 0 ?r \<longleftrightarrow> step_fits s hdr \<and> feed_fits s1 f 8 (concat ms @ t)"
    by (simp only: feed_step(2) [OF hdr(4)] hdr(2,3,5) s1_def add_0 of_nat_0)
  moreover have "spec_step s f 0 hdr False = s1" by (simp add: s1_def)
  moreover have "sout s1 = sout s" by (simp add: s1)
  ultimately show ?thesis using fit ms by (simp add: Let_def)
qed

definition idle :: "parser \<Rightarrow> bool" where
  "idle p \<longleftrightarrow> wf_parser p \<and> pstate p = HDR \<and> queue_bytes (pbuf p, pL p) = []"

lemma idle_init: "idle parser_init"
  using wf_parser_init by (simp add: idle_def parser_init_def)

lemma is_bytes_concat: "list_all wf_msg ms \<Longrightarrow> is_bytes (concat ms)"
  by (induction ms) (auto simp: wf_msg_def)

lemma replay_unit_tail:
  assumes "idle p" and wf: "unit_with_tail hdr ms t"
    and q_def: "q = replay_payload p f (hdr @ concat ms @ t)"
  shows "wf_parser q \<and> pstate q = HDR \<and> queue_bytes (pbuf q, pL q) = t \<and>
    seen (pout q) = seen (pout p) @ map (entry_of f) ms"
proof -
  have bytes: "is_bytes (hdr @ concat ms @ t)"
    using wf by (simp add: unit_with_tail_def is_bytes_concat)
  have s: "sstate (abs_parser p) = HDR" "spend (abs_parser p) = []"
    using assms(1) by (simp_all add: idle_def abs_parser_def)
  note feed = feed_unit [OF s wf, of f]
  from feed have fits: "feed_fits (abs_parser p) f 0 (hdr @ concat ms @ t)" by blast
  have "wf_parser p" using assms(1) by (simp add: idle_def)
  from replay_payload_spec [OF bytes this fits]
  have q: "wf_parser q" "abs_parser q = spec_feed (abs_parser p) f 0 (hdr @ concat ms @ t)"
    by (simp_all add: q_def)
  from feed have "sstate (abs_parser q) = HDR \<and> spend (abs_parser q) = t \<and>
      seen (sout (abs_parser q)) = seen (sout (abs_parser p)) @ map (entry_of f) ms"
    by (simp add: q(2) Let_def)
  with q(1) show ?thesis by (simp add: abs_parser_def)
qed

lemma replay_unit:
  assumes "idle p" and "wf_unit hdr ms"
  shows "idle (replay_payload p f (hdr @ concat ms)) \<and>
    seen (pout (replay_payload p f (hdr @ concat ms))) = seen (pout p) @ map (entry_of f) ms"
  using replay_unit_tail [OF assms(1) wf_unit_tail [OF assms(2)] refl, of f] by (simp add: idle_def)

lemma replay_units:
  assumes "idle p" and "list_all (\<lambda>(f, hdr, ms). wf_unit hdr ms) units"
  shows "idle (replay_frames p (map (\<lambda>(f, hdr, ms). (f, hdr @ concat ms)) units)) \<and>
    seen (pout (replay_frames p (map (\<lambda>(f, hdr, ms). (f, hdr @ concat ms)) units))) =
      seen (pout p) @ concat (map (\<lambda>(f, hdr, ms). map (entry_of f) ms) units)"
  using assms
proof (induction units arbitrary: p)
  case Nil
  then show ?case by (simp add: replay_frames_def)
next
  case (Cons u units)
  obtain f hdr ms where u: "u = (f, hdr, ms)" by (cases u)
  have "wf_unit hdr ms" using Cons.prems(2) u by simp
  note head = replay_unit [OF Cons.prems(1) this, of f]
  from Cons.IH [of "replay_payload p f (hdr @ concat ms)"] head Cons.prems(2)
  show ?case by (simp add: replay_frames_def u)
qed

section \<open>Properties\<close>

text \<open>C4. Replaying any sequence of UDP payloads, each a Sequenced Unit Header whose length field
  counts the whole payload followed by messages of 2 to 65 bytes with which it keeps pace, makes the
  parser emit every message of every frame exactly once, in order, with its frame number, length,
  type and first eight bytes (as many as it has, if it is shorter), and leaves the parser between
  units with an empty buffer. It keeps pace with any messages of eight bytes or more; with shorter
  ones, such as the six-byte Time message, where no beat leaves more than a word behind and the last
  beat leaves nothing.\<close>
theorem replay_frames_complete:
  assumes "idle p" and "list_all (\<lambda>(f, hdr, ms). wf_unit hdr ms) units"
  shows "idle (replay_frames p (map (\<lambda>(f, hdr, ms). (f, hdr @ concat ms)) units)) \<and>
    seen (pout (replay_frames p (map (\<lambda>(f, hdr, ms). (f, hdr @ concat ms)) units))) =
      seen (pout p) @ concat (map (\<lambda>(f, hdr, ms). map (entry_of f) ms) units)"
  by (rule replay_units [OF assms])

theorem replay_frames_complete_witness:
  "seen (pout (replay_frames parser_init
     [(0, [30, 0, 2, 1, 5, 0, 0, 0] @ [14, 0x29] @ replicate 12 7 @ [8, 0x97] @ replicate 6 9)])) =
   [(0, 14, 0x29, [14, 0x29, 7, 7, 7, 7, 7, 7]), (0, 8, 0x97, [8, 0x97, 9, 9, 9, 9, 9, 9])]"
proof -
  let ?u = "(0, [30, 0, 2, 1, 5, 0, 0, 0], [[14, 0x29] @ replicate 12 7, [8, 0x97] @ replicate 6 9])"
  have "list_all (\<lambda>(f, hdr, ms). wf_unit hdr ms) [?u]"
    by (simp add: wf_unit_def wf_msg_def is_byte_def paced_def keeps_pace.simps)
  from replay_frames_complete [OF idle_init this]
  show ?thesis by (simp add: parser_init_def seen_def entry_of_def eval_nat_numeral)
qed

text \<open>The last-beat defect: when the last message of a unit is so short that it ends in the same
  8-byte beat as the message before it (a 6-byte Time message behind an order, say), the parser
  returns to the header state with that message still in its buffer; it is not emitted, and its
  bytes will be taken for the start of the next frame's header.\<close>
theorem last_beat_leftover:
  assumes "idle p" and "unit_with_tail hdr ms t" and "t \<noteq> []"
  shows "let q = replay_payload p f (hdr @ concat ms @ t)
    in pstate q = HDR \<and> queue_bytes (pbuf q, pL q) = t \<and> \<not> idle q \<and>
       seen (pout q) = seen (pout p) @ map (entry_of f) ms"
  using replay_unit_tail [OF assms(1,2) refl, of f] assms(3) by (simp add: idle_def Let_def)

theorem last_beat_leftover_witness:
  "let q = replay_payload parser_init 0
       ([40, 0, 2, 1, 5, 0, 0, 0] @ ([26, 0x22] @ replicate 24 3) @ [6, 0x20, 1, 2, 3, 4])
   in pstate q = HDR \<and> queue_bytes (pbuf q, pL q) = [6, 0x20, 1, 2, 3, 4] \<and> \<not> idle q \<and>
      seen (pout q) = [(0, 26, 0x22, [26, 0x22, 3, 3, 3, 3, 3, 3])]"
proof -
  have "unit_with_tail [40, 0, 2, 1, 5, 0, 0, 0] [[26, 0x22] @ replicate 24 3] [6, 0x20, 1, 2, 3, 4]"
    by (simp add: unit_with_tail_def wf_msg_def is_byte_def paced_def keeps_pace.simps)
  from last_beat_leftover [OF idle_init this, of 0]
  show ?thesis by (simp add: parser_init_def seen_def entry_of_def Let_def eval_nat_numeral)
qed

lemma replay_header_only:
  assumes "idle p" and hdr: "is_bytes hdr" "length hdr = 8"
  shows "wf_parser (replay_payload p f hdr) \<and> abs_parser (replay_payload p f hdr) =
    (abs_parser p)\<lparr>spend := [], shdr_len := from_le (take 2 hdr), stotal := 8, sstate := MSG\<rparr>"
proof -
  let ?s = "abs_parser p"
  have s: "sstate ?s = HDR" "spend ?s = []" "wf_parser p"
    using assms(1) by (simp_all add: idle_def abs_parser_def)
  have ne: "hdr \<noteq> []" using hdr by auto
  have "feed_fits ?s f 0 hdr"
    using s hdr by (simp add: feed_step [OF ne] step_fits_def consumed_def Let_def)
  moreover have "spec_feed ?s f 0 hdr =
      ?s\<lparr>spend := [], shdr_len := from_le (take 2 hdr), stotal := 8, sstate := MSG\<rparr>"
    using s hdr by (simp add: feed_step [OF ne] spec_step_def Let_def)
  ultimately show ?thesis using replay_payload_spec [OF hdr(1) s(3)] by simp
qed

text \<open>The heartbeat defect: a frame whose payload is only the 8-byte unit header leaves the parser
  waiting for a message, because the end-of-frame flag is ignored when the buffer is empty. The
  first beat of the next frame is then parsed as a message: if the low byte of the next unit's
  length is between 1 and 8, the parser emits its header bytes as a message.\<close>
theorem heartbeat_desync:
  assumes "idle p" and "is_bytes hdr" "length hdr = 8"
    and "is_bytes next_hdr" "length next_hdr = 8" and "0 < hd next_hdr" "hd next_hdr \<le> 8"
  shows "let q = replay_payload p f hdr
    in pstate q = MSG \<and> pout q = pout p \<and>
       pout (parser_step q f2 0 next_hdr 255 eof) =
         pout p @ [(f2, 0, hd next_hdr, next_hdr ! 1, next_hdr)]"
proof -
  define q where "q = replay_payload p f hdr"
  have wf: "wf_parser q" and abs: "abs_parser q =
      (abs_parser p)\<lparr>spend := [], shdr_len := from_le (take 2 hdr), stotal := 8, sstate := MSG\<rparr>"
    using replay_header_only [OF assms(1-3), of f] by (simp_all add: q_def)
  have q: "pstate q = MSG" "pout q = pout p" "spend (abs_parser q) = []"
    using arg_cong [OF abs, of sstate] arg_cong [OF abs, of sout] arg_cong [OF abs, of spend]
    by (simp_all add: abs_parser_def)
  have ne: "next_hdr \<noteq> []" using assms by auto
  have "step_fits (abs_parser q) (take (popcount 255) next_hdr)"
    using assms ne q(3) by (simp add: step_fits_def consumed_def Let_def split: pstate.split)
  from parser_step_refines_lemma [OF wf assms(4,5) _ this, of f2 0 eof]
  have "abs_parser (parser_step q f2 0 next_hdr 255 eof) = spec_step (abs_parser q) f2 0 next_hdr eof"
    using assms by simp
  from arg_cong [OF this, of sout]
  have "pout (parser_step q f2 0 next_hdr 255 eof) = sout (spec_step (abs_parser q) f2 0 next_hdr eof)"
    by (simp add: abs_parser_def)
  also have "\<dots> = pout p @ [(f2, 0, hd next_hdr, next_hdr ! 1, next_hdr)]"
    using q ne assms(5-7)
    by (simp add: spec_step_def Let_def type_of_def first8_of_def abs_parser_def)
  finally show ?thesis using q by (simp add: q_def Let_def)
qed

theorem heartbeat_desync_witness:
  "pout (parser_step (replay_payload parser_init 0 [8, 0, 0, 1, 5, 0, 0, 0]) 1 0 [8, 0, 0, 1, 6, 0, 0, 0] 255 True)
     = [(1, 0, 8, 0, [8, 0, 0, 1, 6, 0, 0, 0])]"
  using heartbeat_desync [OF idle_init, of "[8, 0, 0, 1, 5, 0, 0, 0]" "[8, 0, 0, 1, 6, 0, 0, 0]" 0 1 True]
  by (simp add: is_byte_def Let_def parser_init_def)

end
