(* ===== verification/Frame_Beats.thy ===== *)
theory Frame_Beats
  imports Pcap_Files Py_Text Parser_Frames
begin

text \<open>
  The beat files: \<open>gen_frames.py\<close> writes each captured frame as 8-byte AXI-stream beats in text
  form, \<open>beats_from_file\<close> of \<open>ni_stream_model.py\<close> reads them back, and \<open>main\<close> of
  \<open>parser_model.py\<close> rebuilds the payloads, replays them and compares the parser's messages with
  those found by walking the pcap.
\<close>

section \<open>Writing beats\<close>

text \<open>Data word, byte enables, last flag, frame number, valid flag.\<close>

type_synonym beat_row = "int \<times> int \<times> int \<times> int \<times> int"

definition frame_row :: "int list \<Rightarrow> nat \<Rightarrow> nat \<Rightarrow> beat_row" where
  "frame_row f fno i =
     (let nbeats = (length f + 7) div 8;
          chunk0 = py_slice (i * 8) ((i + 1) * 8) f;
          keep = push_bit (length chunk0) 1 - 1;
          chunk = chunk0 @ replicate (8 - length chunk0) 0;
          tdata = from_le chunk;
          tlast = (if i + 1 = nbeats then 1 else 0)
      in (tdata, keep, tlast, int fno, 1))"

definition frame_rows :: "int list \<Rightarrow> nat \<Rightarrow> beat_row list" where
  "frame_rows f fno = map (frame_row f fno) [0..<(length f + 7) div 8]"

fun rows_from :: "nat \<Rightarrow> int list list \<Rightarrow> beat_row list" where
  "rows_from fno [] = []"
| "rows_from fno (f # fs) = frame_rows f fno @ rows_from (Suc fno) fs"

definition row_line :: "beat_row \<Rightarrow> string" where
  "row_line r = (case r of (td, keep, tlast, fno, tv) \<Rightarrow>
     join_words [to_hex 16 (nat td), to_hex 2 (nat keep), to_dec (nat tlast), to_dec (nat fno), ''1'']
       @ [CHR 10])"

definition gen_frames_text :: "int list list \<Rightarrow> string" where
  "gen_frames_text pcaps = concat (map row_line (rows_from 0 (concat (map pcap_frames pcaps))))"

section \<open>Reading beats\<close>

definition parse_row :: "string list \<Rightarrow> beat_row py_result" where
  "parse_row p =
     bind_result (py_index p 0) (\<lambda>s0. bind_result (py_int 16 s0) (\<lambda>td.
     bind_result (py_index p 1) (\<lambda>s1. bind_result (py_int 16 s1) (\<lambda>tk.
     bind_result (py_index p 2) (\<lambda>s2. bind_result (py_int 10 s2) (\<lambda>tl.
     bind_result (py_index p 3) (\<lambda>s3. bind_result (py_int 10 s3) (\<lambda>fno.
     bind_result (if length p > 4 then bind_result (py_index p 4) (py_int 10) else Inr 1) (\<lambda>tv.
     Inr (td, tk, tl, fno, tv))))))))))"

fun beats_of_lines :: "string list \<Rightarrow> beat_row list py_result" where
  "beats_of_lines [] = Inr []"
| "beats_of_lines (l # ls) =
     (let p = py_split l
      in if p = [] then beats_of_lines ls
         else bind_result (parse_row p) (\<lambda>r. bind_result (beats_of_lines ls) (\<lambda>rs. Inr (r # rs))))"

definition beats_from_file :: "string \<Rightarrow> beat_row list py_result" where
  "beats_from_file text = beats_of_lines (py_lines [] text)"

text \<open>\<open>parser_model.main\<close> unpacks exactly four columns.\<close>

definition unpack_four :: "string list \<Rightarrow> (int \<times> int \<times> int \<times> int) py_result" where
  "unpack_four p = (case p of
     [s0, s1, s2, s3] \<Rightarrow>
       bind_result (py_int 10 s3) (\<lambda>fno. bind_result (py_int 16 s0) (\<lambda>td.
       bind_result (py_int 16 s1) (\<lambda>tk. bind_result (py_int 10 s2) (\<lambda>tl. Inr (td, tk, tl, fno)))))
   | _ \<Rightarrow> Inl ValueError)"

fun unpack_all :: "string list list \<Rightarrow> (int \<times> int \<times> int \<times> int) list py_result" where
  "unpack_all [] = Inr []"
| "unpack_all (p # ps) =
     bind_result (unpack_four p) (\<lambda>r. bind_result (unpack_all ps) (\<lambda>rs. Inr (r # rs)))"

definition main_rows :: "string \<Rightarrow> (int \<times> int \<times> int \<times> int) list py_result" where
  "main_rows text = unpack_all (filter (\<lambda>p. p \<noteq> []) (map py_split (py_lines [] text)))"

section \<open>Rebuilding and comparing\<close>

definition to_bytes8 :: "int \<Rightarrow> int list py_result" where
  "to_bytes8 n = (if 0 \<le> n \<and> n < 2 ^ 64 then Inr (to_le 8 n) else Inl OverflowError)"

fun join_bytes :: "int list \<Rightarrow> int list py_result" where
  "join_bytes [] = Inr []"
| "join_bytes (td # tds) =
     bind_result (to_bytes8 td) (\<lambda>b. bind_result (join_bytes tds) (\<lambda>bs. Inr (b @ bs)))"

fun replay_rows ::
    "(int \<times> int \<times> int \<times> int) list \<Rightarrow> (nat \<times> (nat \<times> int \<times> int) list) list \<Rightarrow> int list \<Rightarrow> parser \<Rightarrow>
     parser py_result" where
  "replay_rows rows truth [] p = Inr p"
| "replay_rows rows truth (fno # fnos) p =
     bind_result (join_bytes (map fst (filter (\<lambda>(td, tk, tl, f). f = fno) rows))) (\<lambda>raw.
     bind_result (py_index truth fno) (\<lambda>(plen, msgs).
     replay_rows rows truth fnos (replay_payload p fno (py_slice 42 (42 + plen) raw))))"

definition row_frames :: "(int \<times> int \<times> int \<times> int) list \<Rightarrow> int list" where
  "row_frames rows = sort (remdups (map (\<lambda>(td, tk, tl, fno). fno) rows))"

definition got_for :: "(int \<times> int \<times> int \<times> int \<times> int list) list \<Rightarrow> int \<Rightarrow> (int \<times> int) list" where
  "got_for out fno =
     map (\<lambda>(f, off, ln, ty, b). (ln, ty)) (filter (\<lambda>(f, off, ln, ty, b). f = fno) out)"

text \<open>The first message where truth and model differ, and the verdict of one frame.\<close>

fun first_divergence :: "nat \<Rightarrow> (nat \<times> int \<times> int) list \<Rightarrow> (int \<times> int) list \<Rightarrow> nat option" where
  "first_divergence k [] g = None"
| "first_divergence k ((off, ln, ty) # msgs) g =
     (if length g \<le> k \<or> g ! k \<noteq> (ln, ty) then Some k else first_divergence (Suc k) msgs g)"

definition frame_ok :: "(nat \<times> int \<times> int) list \<Rightarrow> (int \<times> int) list \<Rightarrow> bool" where
  "frame_ok msgs g \<longleftrightarrow> first_divergence 0 msgs g = None \<and> length g = length msgs"

definition main_verdicts ::
    "(int \<times> int \<times> int \<times> int) list \<Rightarrow> (nat \<times> (nat \<times> int \<times> int) list) list \<Rightarrow> bool list py_result" where
  "main_verdicts rows truth =
     bind_result (replay_rows rows truth (row_frames rows) parser_init) (\<lambda>p.
     Inr (map (\<lambda>f. frame_ok (snd (truth ! f)) (got_for (pout p) (int f))) [0..<length truth]))"

section \<open>Round trip of the beat file\<close>

lemma word_nat: "is_bytes bs \<Longrightarrow> length bs = 8 \<Longrightarrow> 0 \<le> from_le bs \<and> from_le bs < 2 ^ 64"
  using from_le_range [of bs] by simp

lemma frame_row_parts:
  assumes "is_bytes f" and "frame_row f fno i = (td, keep, tlast, fn, tv)"
  shows "0 \<le> td" "td < 2 ^ 64" "0 \<le> keep" "keep < 256" "tlast = 0 \<or> tlast = 1" "fn = int fno" "tv = 1"
    and "to_le 8 td = (let c = py_slice (i * 8) ((i + 1) * 8) f in c @ replicate (8 - length c) 0)"
proof -
  let ?c = "py_slice (i * 8) ((i + 1) * 8) f"
  let ?p = "?c @ replicate (8 - length ?c) 0"
  have c: "length ?c \<le> 8" "is_bytes ?c" using assms(1) by (simp_all add: py_slice_def)
  then have p: "is_bytes ?p" "length ?p = 8" by simp_all
  have eq: "td = from_le ?p" "keep = push_bit (length ?c) 1 - 1" "fn = int fno" "tv = 1"
    "tlast = (if i + 1 = (length f + 7) div 8 then 1 else 0)"
    using assms(2) by (simp_all add: frame_row_def Let_def)
  show "0 \<le> td" "td < 2 ^ 64" using word_nat [OF p] eq(1) by simp_all
  have "(1::int) \<le> 2 ^ length ?c" "(2::int) ^ length ?c \<le> 2 ^ 8"
    using c(1) by (simp, intro power_increasing) simp_all
  then show "0 \<le> keep" "keep < 256" by (simp_all add: eq(2))
  show "tlast = 0 \<or> tlast = 1" "fn = int fno" "tv = 1" using eq by auto
  show "to_le 8 td = (let c = ?c in c @ replicate (8 - length c) 0)"
    using to_le_from_le [OF p(1)] p(2) eq(1) by (simp only: Let_def)
qed

lemma rows_from_member:
  assumes "r \<in> set (rows_from k fs)"
  shows "\<exists>f \<in> set fs. \<exists>fno i. r = frame_row f fno i"
  using assms by (induction fs arbitrary: k) (auto simp: frame_rows_def)

definition row_ok :: "beat_row \<Rightarrow> bool" where
  "row_ok r \<longleftrightarrow> (case r of (td, keep, tlast, fno, tv) \<Rightarrow>
     0 \<le> td \<and> 0 \<le> keep \<and> 0 \<le> tlast \<and> 0 \<le> fno \<and> tv = 1)"

lemma rows_from_ok: "list_all is_bytes fs \<Longrightarrow> list_all row_ok (rows_from k fs)"
  unfolding list_all_iff
proof
  fix r
  assume fs: "\<forall>f \<in> set fs. is_bytes f" and "r \<in> set (rows_from k fs)"
  then obtain f fno i where r: "f \<in> set fs" "r = frame_row f fno i" by (metis rows_from_member)
  obtain td keep tlast fn tv where eq: "frame_row f fno i = (td, keep, tlast, fn, tv)"
    by (cases "frame_row f fno i") auto
  have "is_bytes f" using fs r by simp
  note parts = frame_row_parts [OF this eq]
  have "0 \<le> tlast" using parts(5) by auto
  then show "row_ok r" using parts(1,3,6,7) by (simp add: row_ok_def r(2) eq)
qed

lemma one_token: "is_token ''1''"
  by (simp add: is_token_def is_space_def)

lemma row_words:
  "py_split (row_line (td, keep, tlast, fno, tv)) =
     [to_hex 16 (nat td), to_hex 2 (nat keep), to_dec (nat tlast), to_dec (nat fno), ''1'']"
  unfolding row_line_def prod.case
  by (rule py_split_join) (simp_all add: to_hex_facts to_dec_facts one_token, simp add: is_space_def)

lemma one_number: "py_int 10 ''1'' = Inr 1"
proof -
  have "to_dec 1 = ''1''" by code_simp
  then show ?thesis using py_int_dec [of 1] by simp
qed

lemma parse_row_line: "row_ok r \<Longrightarrow> parse_row (py_split (row_line r)) = Inr r"
  by (cases r) (simp add: row_words parse_row_def row_ok_def py_index_def one_number)

lemma row_line_plain: "\<exists>l. row_line r = l @ [CHR 10] \<and> plain_line l"
proof -
  obtain td keep tlast fno tv where r: "r = (td, keep, tlast, fno, tv)" by (cases r)
  have "plain_line (join_words [to_hex 16 (nat td), to_hex 2 (nat keep), to_dec (nat tlast),
      to_dec (nat fno), ''1''])"
    using to_hex_facts(2) to_dec_facts(2) by (simp add: plain_line_def)
  then show ?thesis by (simp add: row_line_def r)
qed

lemma lines_of_rows: "py_lines [] (concat (map row_line rows)) = map row_line rows"
proof -
  obtain body where body: "\<And>r. row_line r = body r @ [CHR 10]" "\<And>r. plain_line (body r)"
    using row_line_plain by metis
  then have "row_line = (\<lambda>l. l @ [CHR 10]) \<circ> body" by auto
  then show ?thesis using py_lines_concat [of "map body rows"] body(2)
    by (simp add: list_all_iff)
qed

lemma beats_of_rows: "list_all row_ok rows \<Longrightarrow> beats_of_lines (map row_line rows) = Inr rows"
proof (induction rows)
  case Nil
  then show ?case by simp
next
  case (Cons r rows)
  obtain td keep tlast fno tv where r: "r = (td, keep, tlast, fno, tv)" by (cases r)
  have "py_split (row_line r) \<noteq> []" by (simp add: r row_words)
  with Cons show ?case by (simp add: Let_def parse_row_line)
qed

lemma pcap_frames_bytes: "is_bytes d \<Longrightarrow> list_all is_bytes (pcap_frames d)"
  by (auto simp: pcap_frames_def list_all_iff py_slice_def split: prod.splits)

lemma pcaps_rows_ok:
  assumes "list_all is_bytes pcaps"
  shows "list_all row_ok (rows_from 0 (concat (map pcap_frames pcaps)))"
proof (rule rows_from_ok)
  show "list_all is_bytes (concat (map pcap_frames pcaps))"
    using assms pcap_frames_bytes by (auto simp: list_all_iff)
qed

lemma unpack_rows: "rows \<noteq> [] \<Longrightarrow> unpack_all (map (\<lambda>r. py_split (row_line r)) rows) = Inl ValueError"
  by (cases rows; cases "hd rows") (simp_all add: row_words unpack_four_def)

lemma beats_of_text:
  assumes "list_all is_bytes pcaps"
  shows "beats_from_file (gen_frames_text pcaps) = Inr (rows_from 0 (concat (map pcap_frames pcaps)))"
  by (simp add: beats_from_file_def gen_frames_text_def lines_of_rows beats_of_rows pcaps_rows_ok [OF assms])

section \<open>Properties\<close>

text \<open>C33. The beat file round-trips: what \<open>gen_frames.py\<close> prints for any capture files,
  \<open>beats_from_file\<close> reads back as the same rows (data word, byte enables, last flag, frame number,
  valid flag), without an exception.\<close>
theorem beat_file_roundtrip:
  assumes "list_all is_bytes pcaps"
  shows "beats_from_file (gen_frames_text pcaps) = Inr (rows_from 0 (concat (map pcap_frames pcaps)))"
  by (rule beats_of_text [OF assms])

theorem beat_file_roundtrip_witness:
  "beats_from_file (gen_frames_text [replicate 24 0 @ replicate 11 0 @ [9] @ replicate 4 0 @ [1, 2, 3, 4, 5, 6, 7, 8, 255]])
     = Inr [(0x0807060504030201, 255, 0, 0, 1), (255, 1, 1, 0, 1)]"
proof -
  let ?d = "replicate 24 0 @ replicate 11 0 @ [9] @ replicate 4 0 @ [1, 2, 3, 4, 5, 6, 7, 8, 255]"
  have "list_all is_bytes [?d]" by (simp add: is_byte_def)
  note eq = beat_file_roundtrip [OF this]
  have "rows_from 0 (concat (map pcap_frames [?d])) = [(0x0807060504030201, 255, 0, 0, 1), (255, 1, 1, 0, 1)]"
    by code_simp
  then show ?thesis by (simp only: eq)
qed

text \<open>\<open>main\<close> of \<open>parser_model.py\<close> unpacks four columns a line, and \<open>gen_frames.py\<close> writes five:
  on the beat file of any capture with a non-empty frame it stops with a \<open>ValueError\<close>.\<close>
theorem parser_main_rejects_beat_file:
  assumes "rows_from 0 (concat (map pcap_frames pcaps)) \<noteq> []"
  shows "main_rows (gen_frames_text pcaps) = Inl ValueError"
proof -
  let ?rows = "rows_from 0 (concat (map pcap_frames pcaps))"
  have "py_split (row_line r) \<noteq> []" for r by (cases r) (simp add: row_words)
  then have "filter (\<lambda>p. p \<noteq> []) (map py_split (map row_line ?rows)) = map (\<lambda>r. py_split (row_line r)) ?rows"
    by (simp add: filter_map comp_def)
  then show ?thesis using unpack_rows [OF assms]
    by (simp only: main_rows_def gen_frames_text_def lines_of_rows)
qed

theorem parser_main_rejects_beat_file_witness:
  "main_rows (gen_frames_text [replicate 24 0 @ replicate 11 0 @ [1] @ replicate 4 0 @ [7]]) = Inl ValueError"
  by (rule parser_main_rejects_beat_file) code_simp

end
