(* ===== verification/Replay_Check.thy ===== *)
theory Replay_Check
  imports Frame_Beats
begin

text \<open>
  The whole of \<open>parser_model.main\<close>: capture file to beats, beats to payloads, payloads through
  the parser, and the comparison with the messages found by walking the capture. For captures
  whose frames are 42 header bytes, a unit header and messages the parser keeps pace with, every frame is
  reported OK.
\<close>

section \<open>Beats of a frame joined again\<close>

definition beat_word :: "int list \<Rightarrow> nat \<Rightarrow> int" where
  "beat_word f i = (let c = py_slice (i * 8) ((i + 1) * 8) f in from_le (c @ replicate (8 - length c) 0))"

definition padded :: "int list \<Rightarrow> int list" where
  "padded f = f @ replicate (8 * ((length f + 7) div 8) - length f) 0"

lemma beat_word_Suc: "beat_word f (Suc i) = beat_word (drop 8 f) i"
  by (simp add: beat_word_def py_slice_def algebra_simps)

lemma fst_frame_row: "fst (frame_row f fno i) = beat_word f i"
  by (simp add: frame_row_def beat_word_def Let_def)

lemma beat_word_0:
  assumes "is_bytes f"
  shows "to_bytes8 (beat_word f 0) = Inr (take 8 f @ replicate (8 - length (take 8 f)) 0)"
proof -
  let ?p = "take 8 f @ replicate (8 - length (take 8 f)) 0"
  have p: "is_bytes ?p" "length ?p = 8" using assms by simp_all
  have w: "beat_word f 0 = from_le ?p" by (simp add: beat_word_def Let_def)
  from word_nat [OF p] to_le_from_le [OF p(1)] p(2) show ?thesis
    unfolding w to_bytes8_def by simp
qed

lemma padded_step: "f \<noteq> [] \<Longrightarrow>
  (take 8 f @ replicate (8 - length (take 8 f)) 0) @ padded (drop 8 f) = padded f"
proof (cases "8 \<le> length f")
  case True
  then have "(length f + 7) div 8 = Suc ((length f - 8 + 7) div 8)" by linarith
  then show ?thesis using True append_take_drop_id [of 8 f]
    by (simp add: padded_def add.commute [of 8])
next
  case False
  moreover assume "f \<noteq> []"
  ultimately have "(length f + 7) div 8 = 1" by (cases f) simp_all
  with False show ?thesis by (simp add: padded_def)
qed

lemma upt_beats: "f \<noteq> [] \<Longrightarrow>
  [0..<(length f + 7) div 8] = 0 # map Suc [0..<(length (drop 8 f) + 7) div 8]"
proof -
  assume "f \<noteq> []"
  then have pos: "0 < length f" by simp
  have "(length f + 7) div 8 = Suc ((length (drop 8 f) + 7) div 8)"
  proof (cases "8 \<le> length f")
    case True
    then show ?thesis unfolding length_drop by linarith
  next
    case False
    then have "(length f + 7) div 8 = 1" using pos by linarith
    then show ?thesis using False by simp
  qed
  then show ?thesis by (simp only: map_Suc_upt upt_conv_Cons zero_less_Suc)
qed

lemma join_beats: "is_bytes f \<Longrightarrow> join_bytes (map (beat_word f) [0..<(length f + 7) div 8]) = Inr (padded f)"
proof (induction "length f" arbitrary: f rule: less_induct)
  case less
  show ?case
  proof (cases "f = []")
    case True
    then show ?thesis by (simp add: padded_def)
  next
    case False
    then have "join_bytes (map (beat_word (drop 8 f)) [0..<(length (drop 8 f) + 7) div 8]) = Inr (padded (drop 8 f))"
      using less.prems by (intro less.hyps) simp_all
    then show ?thesis using beat_word_0 [OF less.prems] padded_step [OF False]
      unfolding upt_beats [OF False]
      by (simp add: beat_word_Suc [abs_def] comp_def)
  qed
qed

section \<open>Rows of one frame\<close>

definition four_columns :: "beat_row list \<Rightarrow> (int \<times> int \<times> int \<times> int) list" where
  "four_columns rows = map (\<lambda>(td, tk, tl, fno, tv). (td, tk, tl, fno)) rows"

lemma frame_row_fno: "(\<lambda>(td, tk, tl, fno, tv). (td, tk, tl, fno)) (frame_row f k i) =
   (beat_word f i, push_bit (length (py_slice (i * 8) ((i + 1) * 8) f)) 1 - 1,
    (if i + 1 = (length f + 7) div 8 then 1 else 0), int k)"
  by (simp add: frame_row_def beat_word_def Let_def)

lemma four_columns_simps:
  "four_columns [] = []"
  "four_columns (rs @ ss) = four_columns rs @ four_columns ss"
  by (simp_all add: four_columns_def)

lemma frame_rows_select:
  "map fst (filter (\<lambda>(td, tk, tl, fno). fno = j) (four_columns (frame_rows f k))) =
    (if j = int k then map (beat_word f) [0..<(length f + 7) div 8] else [])"
  by (simp add: four_columns_def frame_rows_def comp_def frame_row_fno filter_map)

lemma rows_before: "j < int k \<Longrightarrow>
  map fst (filter (\<lambda>(td, tk, tl, fno). fno = j) (four_columns (rows_from k fs))) = []"
proof (induction fs arbitrary: k)
  case Nil
  then show ?case by (simp add: four_columns_def)
next
  case (Cons f fs)
  then show ?case using frame_rows_select [of j f k]
    by (simp add: four_columns_simps)
qed

lemma rows_select: "j < length fs \<Longrightarrow>
  map fst (filter (\<lambda>(td, tk, tl, fno). fno = int (k + j)) (four_columns (rows_from k fs))) =
    map (beat_word (fs ! j)) [0..<(length (fs ! j) + 7) div 8]"
proof (induction fs arbitrary: k j)
  case Nil
  then show ?case by simp
next
  case (Cons f fs)
  show ?case
  proof (cases j)
    case 0
    then show ?thesis using frame_rows_select [of "int k" f k] rows_before [of "int k" "Suc k" fs]
      by (simp add: four_columns_simps)
  next
    case (Suc i)
    then show ?thesis using frame_rows_select [of "int (k + j)" f k] Cons.IH [of i "Suc k"] Cons.prems
      by (simp add: four_columns_simps)
  qed
qed

lemma rows_frame_set: "list_all (\<lambda>f. f \<noteq> []) fs \<Longrightarrow>
  set (map (\<lambda>(td, tk, tl, fno). fno) (four_columns (rows_from k fs))) = int ` {k..<k + length fs}"
proof (induction fs arbitrary: k)
  case Nil
  then show ?case by (simp add: four_columns_def)
next
  case (Cons f fs)
  have "set (map (\<lambda>(td, tk, tl, fno). fno) (four_columns (frame_rows f k))) = {int k}"
    using upt_beats [of f] Cons.prems
    by (simp add: four_columns_def frame_rows_def comp_def frame_row_fno image_constant_conv)
  moreover have "{k..<k + length (f # fs)} = insert k {Suc k..<Suc k + length fs}" by auto
  ultimately show ?case using Cons.IH [of "Suc k"] Cons.prems
    by (simp only: four_columns_simps rows_from.simps map_append set_append) simp
qed

lemma row_frames_upt:
  assumes "list_all (\<lambda>f. f \<noteq> []) fs"
  shows "row_frames (four_columns (rows_from 0 fs)) = map int [0..<length fs]"
proof -
  have "sorted_list_of_set (int ` {0..<length fs}) = map int [0..<length fs]"
    by (rule sorted_list_of_set_unique [THEN iffD1]) (auto simp: sorted_wrt_map distinct_map sorted_wrt_upt card_image
       intro!: sorted_wrt_mono_rel [of _ "(<)"])
  then show ?thesis
    using rows_frame_set [OF assms, of 0] unfolding row_frames_def sorted_list_of_set_sort_remdups [symmetric]
    by simp
qed

section \<open>Captures of well-formed units\<close>

text \<open>A captured frame: 42 bytes of headers, the unit header, the messages.\<close>

type_synonym capture = "int list \<times> int list \<times> int list list"

definition wf_capture :: "capture \<Rightarrow> bool" where
  "wf_capture u \<longleftrightarrow> (case u of (eth, hdr, ms) \<Rightarrow>
     is_bytes eth \<and> length eth = 42 \<and> wf_unit hdr ms)"

definition frame_of :: "capture \<Rightarrow> int list" where
  "frame_of u = (case u of (eth, hdr, ms) \<Rightarrow> eth @ hdr @ concat ms)"

definition payload_of :: "capture \<Rightarrow> int list" where
  "payload_of u = (case u of (eth, hdr, ms) \<Rightarrow> hdr @ concat ms)"

definition truth_of :: "capture \<Rightarrow> nat \<times> (nat \<times> int \<times> int) list" where
  "truth_of u = (case u of (eth, hdr, ms) \<Rightarrow> (length (payload_of u), offsets_of 8 ms))"

lemma fst_truth: "fst (truth_of u) = length (payload_of u)"
  by (simp add: truth_of_def split: prod.splits)

lemma wf_msg_walkable: "list_all wf_msg ms \<Longrightarrow> list_all walkable ms"
  by (auto simp: list_all_iff wf_msg_def walkable_def)

lemma capture_frame:
  assumes "wf_capture u"
  shows "is_bytes (frame_of u)" "frame_of u \<noteq> []"
    "py_slice 42 (42 + length (payload_of u)) (padded (frame_of u)) = payload_of u"
proof -
  obtain eth hdr ms where u: "u = (eth, hdr, ms)" by (cases u)
  have "is_bytes eth" "is_bytes hdr" "is_bytes (concat ms)" "length eth = 42"
    using assms by (simp_all add: u wf_capture_def wf_unit_def is_bytes_concat)
  then show "is_bytes (frame_of u)" "frame_of u \<noteq> []"
      "py_slice 42 (42 + length (payload_of u)) (padded (frame_of u)) = payload_of u"
    by (auto simp: u frame_of_def payload_of_def padded_def py_slice_def)
qed

lemma collect_captures:
  assumes "list_all (\<lambda>(stamp, u). wf_capture u \<and> length stamp = 8) us"
    and "d = pre @ concat (map (\<lambda>(stamp, u). pcap_record stamp (frame_of u)) us) @ rest"
  shows "collect_msgs d (spans_of (length pre) (map (\<lambda>(stamp, u). (stamp, frame_of u)) us)) =
    Some (Inr (map (truth_of \<circ> snd) us))"
  using assms
proof (induction us arbitrary: pre)
  case Nil
  then show ?case by simp
next
  case (Cons r us)
  obtain stamp eth hdr ms where r: "r = (stamp, eth, hdr, ms)" by (cases r)
  have len: "length stamp = 8" "length eth = 42" "length hdr = 8" "list_all walkable ms"
    using Cons.prems(1) by (simp_all add: r wf_capture_def wf_unit_def wf_msg_walkable)
  let ?f = "eth @ hdr @ concat ms"
  have "record_payload d (length pre) (length ?f) = hdr @ concat ms"
    using Cons.prems(2) len by (simp add: r record_payload_def py_slice_def pcap_record_def frame_of_def)
  moreover have "msg_offsets (hdr @ concat ms) 8 [] = Some (Inr (offsets_of 8 ms))"
    using msg_offsets_walk [OF len(4) refl, of hdr "[]"] len(3) by simp
  moreover have "collect_msgs d (spans_of (length pre + 16 + length ?f)
      (map (\<lambda>(stamp, u). (stamp, frame_of u)) us)) = Some (Inr (map (truth_of \<circ> snd) us))"
  proof -
    have next_off: "length pre + 16 + length ?f = length (pre @ pcap_record stamp ?f)"
      using len by (simp add: pcap_record_def)
    show ?thesis unfolding next_off
      by (rule Cons.IH) (use Cons.prems r in \<open>simp_all add: frame_of_def\<close>)
  qed
  moreover have "frame_of (eth, hdr, ms) = ?f"
    "truth_of (eth, hdr, ms) = (length (hdr @ concat ms), offsets_of 8 ms)"
    by (simp_all add: frame_of_def truth_of_def payload_of_def)
  ultimately show ?case by (simp add: r del: length_append)
qed

lemma replay_rows_frames:
  assumes "\<And>j. j < n \<Longrightarrow> join_bytes (map fst (filter (\<lambda>(td, tk, tl, f). f = int j) rows)) = Inr (raw j)"
    and "\<And>j. j < n \<Longrightarrow> py_slice 42 (42 + fst (truth ! j)) (raw j) = pay j"
    and "n \<le> length truth" and "k \<le> n"
  shows "replay_rows rows truth (map int [k..<n]) p =
    Inr (replay_frames p (map (\<lambda>j. (int j, pay j)) [k..<n]))"
  using assms(4)
proof (induction "n - k" arbitrary: k p)
  case 0
  then show ?case by (simp add: replay_frames_def)
next
  case (Suc m)
  then have k: "k < n" by simp
  obtain plen msgs where t: "truth ! k = (plen, msgs)" by (cases "truth ! k")
  have "replay_rows rows truth (map int [Suc k..<n]) q =
      Inr (replay_frames q (map (\<lambda>j. (int j, pay j)) [Suc k..<n]))" for q
    using Suc k by simp
  then show ?case using k assms(1) [OF k] assms(2) [OF k] assms(3) t
    by (simp add: upt_conv_Cons [OF k] replay_frames_def)
qed

text \<open>The parser's output, grouped by frame as \<open>main\<close> does.\<close>

fun number_units :: "nat \<Rightarrow> capture list \<Rightarrow> (int \<times> int list \<times> int list list) list" where
  "number_units k [] = []"
| "number_units k ((eth, hdr, ms) # us) = (int k, hdr, ms) # number_units (Suc k) us"

definition messages_of :: "capture \<Rightarrow> (int \<times> int) list" where
  "messages_of u = (case u of (eth, hdr, ms) \<Rightarrow> map (\<lambda>m. (int (length m), m ! 1)) ms)"

definition got_seen :: "int \<Rightarrow> (int \<times> int \<times> int \<times> int list) list \<Rightarrow> (int \<times> int) list" where
  "got_seen f xs = map (\<lambda>(g, ln, ty, b). (ln, ty)) (filter (\<lambda>(g, ln, ty, b). g = f) xs)"

lemma got_for_seen: "got_for out f = got_seen f (seen out)"
  by (induction out) (auto simp: got_for_def seen_def got_seen_def)

lemma got_seen_simps [simp]:
  "got_seen f [] = []"
  "got_seen f (xs @ ys) = got_seen f xs @ got_seen f ys"
  "got_seen f (map (entry_of g) ms) = (if g = f then map (\<lambda>m. (int (length m), m ! 1)) ms else [])"
  by (simp_all add: got_seen_def entry_of_def filter_map comp_def)

lemma got_before: "j < int k \<Longrightarrow>
  got_seen j (concat (map (\<lambda>(f, hdr, ms). map (entry_of f) ms) (number_units k us))) = []"
  by (induction k us rule: number_units.induct) simp_all

lemma got_for_units: "j < length us \<Longrightarrow>
  got_seen (int (k + j)) (concat (map (\<lambda>(f, hdr, ms). map (entry_of f) ms) (number_units k us))) =
    messages_of (us ! j)"
proof (induction k us arbitrary: j rule: number_units.induct)
  case (1 k)
  then show ?case by simp
next
  case (2 k eth hdr ms us)
  show ?case
  proof (cases j)
    case 0
    then show ?thesis using got_before [of "int k" "Suc k" us] by (simp add: messages_of_def)
  next
    case (Suc i)
    then show ?thesis using "2.IH" [of i] "2.prems" by simp
  qed
qed

lemma divergence_none: "k + length ms = length g \<Longrightarrow> drop k g = map (\<lambda>m. (int (length m), m ! 1)) ms \<Longrightarrow>
  first_divergence k (offsets_of i ms) g = None"
proof (induction ms arbitrary: k i)
  case Nil
  then show ?case by simp
next
  case (Cons m ms)
  then have k: "k < length g" by simp
  then have "g ! k = (int (length m), m ! 1)" "drop (Suc k) g = map (\<lambda>m. (int (length m), m ! 1)) ms"
    using Cons.prems(2) by (simp_all add: Cons_nth_drop_Suc [symmetric])
  then show ?case using Cons k by simp
qed

lemma length_offsets [simp]: "length (offsets_of k ms) = length ms"
  by (induction ms arbitrary: k) simp_all

lemma frame_ok_unit: "frame_ok (snd (truth_of u)) (messages_of u)"
  by (cases u) (simp add: frame_ok_def truth_of_def messages_of_def divergence_none)

lemma number_units_frames:
  "map (\<lambda>(f, hdr, ms). (f, hdr @ concat ms)) (number_units k us) =
   map (\<lambda>j. (int j, payload_of (us ! (j - k)))) [k..<k + length us]"
proof (induction k us rule: number_units.induct)
  case (1 k)
  then show ?case by simp
next
  case (2 k eth hdr ms us)
  have first: "[k..<k + length ((eth, hdr, ms) # us)] = k # [Suc k..<Suc k + length us]"
    by (simp add: upt_conv_Cons del: upt_Suc)
  have "payload_of (((eth, hdr, ms) # us) ! (j - k)) = payload_of (us ! (j - Suc k))" if "Suc k \<le> j" for j
    using that by (simp add: nth_Cons' Suc_diff_Suc)
  then have "map (\<lambda>j. (int j, payload_of (((eth, hdr, ms) # us) ! (j - k)))) [Suc k..<Suc k + length us] =
      map (\<lambda>j. (int j, payload_of (us ! (j - Suc k)))) [Suc k..<Suc k + length us]"
    by (intro map_cong [OF refl]) (simp del: upt_Suc)
  with "2.IH" show ?case unfolding first by (simp add: payload_of_def del: upt_Suc)
qed

lemma number_units_wf: "list_all wf_capture us \<Longrightarrow>
  list_all (\<lambda>(f, hdr, ms). wf_unit hdr ms) (number_units k us)"
  by (induction k us rule: number_units.induct) (simp_all add: wf_capture_def)

lemma verdicts_ok:
  assumes "list_all wf_capture us"
  shows "main_verdicts (four_columns (rows_from 0 (map frame_of us))) (map truth_of us) =
    Inr (replicate (length us) True)"
proof -
  let ?rows = "four_columns (rows_from 0 (map frame_of us))" and ?t = "map truth_of us"
  have u: "wf_capture (us ! j)" if "j < length us" for j using assms that by (simp add: list_all_length)
  have rows: "row_frames ?rows = map int [0..<length us]"
    using row_frames_upt [of "map frame_of us"] assms capture_frame(2) by (simp add: list_all_iff)
  have join: "join_bytes (map fst (filter (\<lambda>(td, tk, tl, f). f = int j) ?rows)) = Inr (padded (frame_of (us ! j)))"
    if "j < length us" for j
    using rows_select [of j "map frame_of us" 0] join_beats [OF capture_frame(1) [OF u [OF that]]] that
    by simp
  have pay: "py_slice 42 (42 + fst (?t ! j)) (padded (frame_of (us ! j))) = payload_of (us ! j)"
    if "j < length us" for j
    using capture_frame(3) [OF u [OF that]] that by (simp add: fst_truth)
  let ?p = "replay_frames parser_init (map (\<lambda>j. (int j, payload_of (us ! j))) [0..<length us])"
  have run: "replay_rows ?rows ?t (row_frames ?rows) parser_init = Inr ?p"
    unfolding rows by (rule replay_rows_frames [OF join pay]) simp_all
  have "seen (pout ?p) = concat (map (\<lambda>(f, hdr, ms). map (entry_of f) ms) (number_units 0 us))"
    using replay_units [OF idle_init number_units_wf [OF assms, of 0]] number_units_frames [of 0 us]
    by (simp add: parser_init_def seen_def)
  then have got: "got_for (pout ?p) (int j) = messages_of (us ! j)" if "j < length us" for j
    using got_for_units [OF that, of 0] by (simp add: got_for_seen)
  have "map (\<lambda>f. frame_ok (snd (?t ! f)) (got_for (pout ?p) (int f))) [0..<length us] = replicate (length us) True"
    by (rule nth_equalityI) (simp_all add: got frame_ok_unit)
  then show ?thesis unfolding main_verdicts_def run by simp
qed

section \<open>Properties\<close>

lemma replay_main_lemma:
  assumes "list_all (\<lambda>(stamp, u). wf_capture u \<and> length stamp = 8 \<and> length (frame_of u) < 2 ^ 32) us"
    and "length hdr = 20" and "length rest < 16"
    and "d = pcap_file hdr (map (\<lambda>(stamp, u). (stamp, frame_of u)) us) @ rest"
  shows "pcap_msgs d = Some (Inr (map (truth_of \<circ> snd) us)) \<and>
    main_verdicts (four_columns (rows_from 0 (pcap_frames d))) (map (truth_of \<circ> snd) us) =
      Inr (replicate (length us) True)"
proof
  let ?recs = "map (\<lambda>(stamp, u). (stamp, frame_of u)) us"
  have wf: "wf_pcap hdr ?recs" using assms(1,2) by (auto simp: wf_pcap_def list_all_iff)
  have swap: "pcap_swapped d" by (simp add: assms(4) pcap_swapped_def pcap_file_def)
  have us: "list_all (\<lambda>(stamp, u). wf_capture u \<and> length stamp = 8) us"
    using assms(1) by (auto simp: list_all_iff)
  have "d = ([0xd4, 0xc3, 0xb2, 0xa1] @ hdr) @ concat (map (\<lambda>(stamp, u). pcap_record stamp (frame_of u)) us) @ rest"
    by (simp add: assms(4) pcap_file_def comp_def split_def)
  from collect_captures [OF us this]
  show "pcap_msgs d = Some (Inr (map (truth_of \<circ> snd) us))"
    using pcap_file_spans [OF wf assms(3)] swap assms(2)
    by (simp add: pcap_msgs_def flip: assms(4))
  have "pcap_frames d = map frame_of (map snd us)"
    using pcap_file_frames [OF wf assms(3)] by (simp add: assms(4) split_def)
  moreover have "list_all wf_capture (map snd us)" using assms(1) by (auto simp: list_all_iff)
  from verdicts_ok [OF this]
  have "main_verdicts (four_columns (rows_from 0 (map frame_of (map snd us)))) (map (truth_of \<circ> snd) us) =
      Inr (replicate (length us) True)" by simp
  ultimately show "main_verdicts (four_columns (rows_from 0 (pcap_frames d))) (map (truth_of \<circ> snd) us) =
      Inr (replicate (length us) True)" by simp
qed



end
