(* ===== verification/NI_Stream.thy ===== *)
theory NI_Stream
  imports Py_Bytes
begin

text \<open>
  The receive path in front of the parser, \<open>ip_export/netlist_sim/ni_stream_model.py\<close>: the MAC
  filter, the IPv4 subframe finder, the IPv4 filter and the UDP receive state machine, each a
  record of its feedback registers with one \<open>step\<close> per clock cycle that computes an output word
  and commits the registers. Data words are eight byte values, byte enables eight booleans; an
  index outside those lists does not occur (the shape invariants below), so \<open>!\<close> is the source's
  subscript. The class attributes \<open>GATE_DATA\<close>, \<open>GATE_BE\<close> and \<open>GATE\<close> are the constants they are set to.
\<close>

section \<open>The code\<close>

definition MAC_ADDR :: "int list" where
  "MAC_ADDR = [0x00, 0x0a, 0x35, 0x18, 0x3c, 0x1f]"

definition IP_ADDR :: "int list" where
  "IP_ADDR = [10, 0, 1, 14]"

definition UDP_PORT :: int where
  "UDP_PORT = 8000"

text \<open>A word between two stages: data, valid, byte enables, end of good and of bad frame.\<close>

record stream_word =
  wdata :: "int list"
  wvalid :: bool
  wbe :: "bool list"
  weog :: bool
  weob :: bool

text \<open>\<open>any\<close> and \<open>all\<close> over lanes of a list.\<close>

definition any_lane :: "bool list \<Rightarrow> nat list \<Rightarrow> bool" where
  "any_lane be lanes = list_ex (\<lambda>i. be ! i) lanes"

definition address_match :: "int list \<Rightarrow> int list \<Rightarrow> bool" where
  "address_match xs addr = list_all (\<lambda>i. xs ! i = addr ! i \<or> xs ! i = 0xFF) [0..<length addr]"

subsection \<open>MAC filter\<close>

record mac_roles =
  r_dest :: bool
  r_src :: bool
  r_eth :: bool
  r_pd :: bool

definition mac_S0 :: mac_roles where
  "mac_S0 = \<lparr>r_dest = True, r_src = False, r_eth = False, r_pd = False\<rparr>"
definition mac_S1 :: mac_roles where
  "mac_S1 = \<lparr>r_dest = False, r_src = True, r_eth = True, r_pd = False\<rparr>"
definition mac_S2 :: mac_roles where
  "mac_S2 = \<lparr>r_dest = False, r_src = False, r_eth = False, r_pd = True\<rparr>"
definition mac_NONE :: mac_roles where
  "mac_NONE = \<lparr>r_dest = False, r_src = False, r_eth = False, r_pd = False\<rparr>"

definition mac_and :: "bool \<Rightarrow> mac_roles \<Rightarrow> mac_roles" where
  "mac_and b r = \<lparr>r_dest = (b \<and> r_dest r), r_src = (b \<and> r_src r), r_eth = (b \<and> r_eth r), r_pd = (b \<and> r_pd r)\<rparr>"

record mac_filter =
  m_fb0 :: nat
  m_fb1 :: bool
  m_fb2 :: mac_roles
  m_fb7 :: bool
  m_fb8 :: "bool \<times> bool"
  m_fb9 :: "bool \<times> bool"
  m_fb10 :: "bool \<times> bool"
  m_fb19 :: "bool list"
  m_fb20 :: "int list"
  m_fb21 :: "int list"
  m_fb22 :: "bool list"
  m_fb23 :: "mac_roles list"
  m_fb24 :: "int list"
  m_fb5 :: "bool list"

definition mac_init :: mac_filter where
  "mac_init = \<lparr>m_fb0 = 0, m_fb1 = False, m_fb2 = mac_NONE, m_fb7 = False,
     m_fb8 = (False, False), m_fb9 = (False, False), m_fb10 = (False, False),
     m_fb19 = replicate 8 False, m_fb20 = replicate 8 0, m_fb21 = replicate 8 0,
     m_fb22 = replicate 8 False, m_fb23 = [mac_S0, mac_S1],
     m_fb24 = replicate 8 0, m_fb5 = replicate 8 False\<rparr>"

definition mac_step :: "mac_filter \<Rightarrow> stream_word \<Rightarrow> mac_filter \<times> stream_word" where
  "mac_step s w =
     (let data = wdata w; valid = wvalid w; be = wbe w; eog = weog w; eob = weob w;
          tlast = (eog \<or> eob);
          and_5266 = map (\<lambda>b. b \<and> valid) be;
          history = py_slice 0 6 data;
          ba = m_fb21 s @ m_fb20 s;
          out1 = py_slice 6 14 ba;
          bae = m_fb22 s @ m_fb19 s;
          out4 = py_slice 6 14 bae;
          and_5255 = map (\<lambda>e. e \<and> m_fb7 s) (m_fb5 s);
          (nxt, o1, roles_next, sched_next, eof_next) =
            (if m_fb0 s = 0 then
               (let match = address_match history MAC_ADDR;
                    and_3369 = (valid \<and> match)
                in ((if valid then 1 else 0), and_3369, mac_and and_3369 mac_S0, [mac_S1] @ [mac_S2],
                    (eog \<and> and_3369, eob \<and> and_3369)))
             else if m_fb0 s = 1 then
               (let and_3684 = (valid \<and> m_fb1 s);
                    case_6426 = any_lane and_5266 [6, 7];
                    c4066 = (\<not> case_6426 \<and> m_fb1 s)
                in ((if \<not> m_fb1 s then (if tlast then 0 else 1)
                     else (if \<not> tlast then 1 else if case_6426 then 2 else 0)),
                    m_fb1 s \<and> \<not> tlast, mac_and and_3684 (m_fb23 s ! 0), tl (m_fb23 s) @ [mac_S2],
                    (eog \<and> c4066, eob \<and> c4066)))
             else (0, False, mac_S2, m_fb23 s, m_fb10 s));
          out = \<lparr>wdata = m_fb24 s, wvalid = m_fb7 s, wbe = and_5255,
                 weog = fst (m_fb9 s), weob = snd (m_fb9 s)\<rparr>
      in (\<lparr>m_fb0 = nxt, m_fb1 = o1, m_fb2 = roles_next, m_fb7 = r_pd (m_fb2 s),
           m_fb8 = eof_next, m_fb9 = m_fb8 s, m_fb10 = (eog, eob),
           m_fb19 = (if valid then and_5266 else m_fb19 s),
           m_fb20 = (if valid then data else m_fb20 s),
           m_fb21 = (if valid then m_fb20 s else m_fb21 s),
           m_fb22 = (if valid then m_fb19 s else m_fb22 s),
           m_fb23 = sched_next, m_fb24 = out1, m_fb5 = out4\<rparr>, out))"

subsection \<open>Find IPv4 subframe\<close>

record find_subframe =
  s_fb0 :: nat
  s_fb1 :: bool
  s_fb5 :: "bool list"
  s_fb6 :: "int list"
  s_prev_eof :: "bool \<times> bool"

definition sub_init :: find_subframe where
  "sub_init = \<lparr>s_fb0 = 0, s_fb1 = False, s_fb5 = replicate 8 False, s_fb6 = replicate 8 0,
     s_prev_eof = (False, False)\<rparr>"

definition sub_step :: "find_subframe \<Rightarrow> stream_word \<Rightarrow> (find_subframe \<times> stream_word) py_result" where
  "sub_step s w =
     (let data = wdata w; valid = wvalid w; be = wbe w; eog = weog w; eob = weob w;
          and_3713 = ((eog \<or> eob) \<and> valid);
          history = py_slice 0 4 data;
          commit = (\<lambda>nxt. Inr
            (\<lparr>s_fb0 = nxt, s_fb1 = valid, s_fb5 = be, s_fb6 = data, s_prev_eof = (eog, eob)\<rparr>,
             \<lparr>wdata = s_fb6 s, wvalid = s_fb1 s, wbe = s_fb5 s,
              weog = fst (s_prev_eof s), weob = snd (s_prev_eof s)\<rparr>))
      in if s_fb0 s = 0 then
           (let c861 = (history ! 0 = 0x45 \<and> valid);
                c946 = (data ! 2 = 0 \<and> data ! 3 < 46)
            in commit (if and_3713 then 0 else if c861 then (if c946 then 1 else 2) else 0))
         else if s_fb0 s = 2 then commit (if and_3713 then 0 else 2)
         else Inl NotImplementedError)"

subsection \<open>IPv4 filter\<close>

record ip_roles =
  r_dip :: bool
  r_h2 :: bool
  r_h1 :: bool
  r_ipd :: bool
  r_adv :: bool

definition ip_S0 :: ip_roles where
  "ip_S0 = \<lparr>r_dip = False, r_h2 = False, r_h1 = True, r_ipd = False, r_adv = True\<rparr>"
definition ip_S1 :: ip_roles where
  "ip_S1 = \<lparr>r_dip = False, r_h2 = True, r_h1 = False, r_ipd = False, r_adv = True\<rparr>"
definition ip_S2 :: ip_roles where
  "ip_S2 = \<lparr>r_dip = True, r_h2 = False, r_h1 = False, r_ipd = False, r_adv = True\<rparr>"
definition ip_S3 :: ip_roles where
  "ip_S3 = \<lparr>r_dip = False, r_h2 = False, r_h1 = False, r_ipd = True, r_adv = False\<rparr>"

definition ip_and :: "bool \<Rightarrow> ip_roles \<Rightarrow> ip_roles" where
  "ip_and b r = \<lparr>r_dip = (b \<and> r_dip r), r_h2 = (b \<and> r_h2 r), r_h1 = (b \<and> r_h1 r),
     r_ipd = (b \<and> r_ipd r), r_adv = (b \<and> r_adv r)\<rparr>"

record ipv4_filter =
  i_fb0 :: nat
  i_fb1 :: bool
  i_fb2 :: ip_roles
  i_fb3 :: "int list"
  i_fb4 :: "int list"
  i_fb5 :: "int list"
  i_fb6 :: bool
  i_fb7 :: "bool \<times> bool"
  i_fb8 :: "bool \<times> bool"
  i_fb9 :: "bool \<times> bool"
  i_fb18 :: "int list"
  i_fb19 :: "int list"
  i_fb20 :: "bool list"
  i_fb21 :: "bool list"
  i_fb22 :: "ip_roles list"
  i_fb23 :: "int list"
  i_fb24 :: "bool list"

definition ip_init :: ipv4_filter where
  "ip_init = \<lparr>i_fb0 = 0, i_fb1 = False, i_fb2 = ip_and False ip_S0, i_fb3 = replicate 4 0,
     i_fb4 = replicate 8 0, i_fb5 = replicate 8 0, i_fb6 = False,
     i_fb7 = (False, False), i_fb8 = (False, False), i_fb9 = (False, False),
     i_fb18 = replicate 8 0, i_fb19 = replicate 8 0, i_fb20 = replicate 8 False,
     i_fb21 = replicate 8 False, i_fb22 = [ip_S0, ip_S1, ip_S2],
     i_fb23 = replicate 8 0, i_fb24 = replicate 8 False\<rparr>"

text \<open>The header fields latched so far.\<close>

record ip_header =
  h_total_len :: int
  h_ident :: int
  h_flags :: int
  h_frag :: int
  h_proto :: int
  h_dst_ip :: "int list"

definition ip_header_of :: "ipv4_filter \<Rightarrow> ip_header" where
  "ip_header_of s =
     (let w0 = i_fb5 s; w1 = i_fb4 s; dip = i_fb3 s
      in \<lparr>h_total_len = push_bit 8 (w0 ! 2) OR w0 ! 3, h_ident = push_bit 8 (w0 ! 4) OR w0 ! 5,
          h_flags = drop_bit 5 (w0 ! 6) AND 7, h_frag = push_bit 8 (w0 ! 6 AND 0x1F) OR w0 ! 7,
          h_proto = w1 ! 1, h_dst_ip = dip\<rparr>)"

definition ip_step :: "ipv4_filter \<Rightarrow> stream_word \<Rightarrow> ipv4_filter \<times> stream_word \<times> ip_header" where
  "ip_step s w =
     (let data = wdata w; valid = wvalid w; be = wbe w; eog = weog w; eob = weob w;
          roles_now = i_fb2 s;
          or_6746 = (eog \<or> eob);
          ba = i_fb19 s @ i_fb18 s;
          bae = i_fb21 s @ i_fb20 s;
          (nxt, o1, roles, sched, eof_o) =
            (if i_fb0 s = 0 then
               (let eq = (data ! 0 = 0x45);
                    and_4965 = (valid \<and> eq);
                    s4990 = (if eq then 1 else 3);
                    s4976 = (if valid then s4990 else 0)
                in ((if or_6746 then 0 else s4976), False, ip_and and_4965 ip_S0,
                    [ip_S1, ip_S2] @ [ip_S3], (False, False)))
             else if i_fb0 s = 1 then
               (let adv = r_adv (i_fb22 s ! 0);
                    and_5031 = (valid \<and> adv)
                in ((if or_6746 then 0 else if and_5031 then 2 else 1), False,
                    ip_and valid (i_fb22 s ! 0), tl (i_fb22 s) @ [ip_S3], (False, False)))
             else if i_fb0 s = 2 then
               (let match = address_match data IP_ADDR;
                    adv = r_adv (i_fb22 s ! 0);
                    and_10255 = (valid \<and> adv);
                    and_5334 = (and_10255 \<and> match)
                in ((if or_6746 then 2 else if and_10255 then 3 else 2), and_5334,
                    ip_and and_5334 (i_fb22 s ! 0), tl (i_fb22 s) @ [ip_S3],
                    (eog \<and> and_5334, eob \<and> and_5334)))
             else if i_fb0 s = 3 then
               (let and_5666 = (valid \<and> i_fb1 s);
                    c9712 = any_lane be [4, 5, 6, 7];
                    c5955 = (\<not> c9712 \<and> i_fb1 s)
                in ((if \<not> i_fb1 s then (if or_6746 then 0 else 3)
                     else (if \<not> or_6746 then 3 else if c9712 then 4 else 0)),
                    i_fb1 s, ip_and and_5666 (i_fb22 s ! 0), tl (i_fb22 s) @ [ip_S3],
                    (eog \<and> c5955, eob \<and> c5955)))
             else (0, False, ip_S3, [ip_S1, ip_S2] @ [ip_S3], i_fb9 s));
          out = \<lparr>wdata = i_fb23 s, wvalid = i_fb6 s, wbe = i_fb24 s,
                 weog = fst (i_fb8 s), weob = snd (i_fb8 s)\<rparr>
      in (\<lparr>i_fb0 = nxt, i_fb1 = o1, i_fb2 = roles,
           i_fb3 = (if r_dip roles_now then py_slice 8 12 ba else i_fb3 s),
           i_fb4 = (if r_h2 roles_now then py_slice 8 16 ba else i_fb4 s),
           i_fb5 = (if r_h1 roles_now then py_slice 8 16 ba else i_fb5 s),
           i_fb6 = r_ipd (i_fb2 s), i_fb7 = eof_o, i_fb8 = i_fb7 s, i_fb9 = (eog, eob),
           i_fb18 = data, i_fb19 = i_fb18 s, i_fb20 = be, i_fb21 = i_fb20 s,
           i_fb22 = sched, i_fb23 = py_slice 4 12 ba, i_fb24 = py_slice 4 12 bae\<rparr>,
          out, ip_header_of s))"

subsection \<open>UDP receive state machine\<close>

record udp_rx =
  u_fb0 :: bool
  u_fb2 :: bool
  u_fb3 :: int
  u_fb4 :: bool

definition udp_init :: udp_rx where
  "udp_init = \<lparr>u_fb0 = False, u_fb2 = False, u_fb3 = 0, u_fb4 = False\<rparr>"

definition udp_step :: "udp_rx \<Rightarrow> stream_word \<times> ip_header \<Rightarrow> udp_rx \<times> stream_word" where
  "udp_step s i =
     (let (w, hdr) = i;
          h = wdata w; valid = wvalid w; eog = weog w; eob = weob w;
          dport = push_bit 8 (h ! 2) OR h ! 3;
          c282 = (dport = UDP_PORT \<and> h_proto hdr = 17 \<and> h_frag hdr = 0);
          eq_2729 = (h_ident hdr = u_fb3 s);
          or_3306 = (c282 \<or> (u_fb4 s \<and> eq_2729));
          more_frag = (h_flags hdr AND 1 \<noteq> 0);
          eof_any = (eog \<or> eob);
          (o0, o2, o3, o5) =
            (if \<not> u_fb2 s then
               (let c1291 = (valid \<and> \<not> eof_any);
                    c317 = (valid \<and> or_3306)
                in if c317 then (c317, c1291, \<not> c282, more_frag)
                   else (c317, c1291, False, u_fb4 s))
             else
               (let and_886 = (valid \<and> eof_any)
                in (u_fb0 s, (if and_886 then False else u_fb2 s), u_fb0 s \<and> valid, u_fb4 s)))
      in (\<lparr>u_fb0 = o0, u_fb2 = o2, u_fb3 = h_ident hdr, u_fb4 = o5\<rparr>,
          \<lparr>wdata = h, wvalid = o3, wbe = wbe w, weog = (eog \<and> o0), weob = (eob \<and> o0)\<rparr>))"

section \<open>Shapes\<close>

text \<open>
  Every data register holds eight byte lanes (the destination address four), every enable
  register eight, the role schedules never run empty, and the state numbers stay in range:
  so no subscript of the source is out of range in any run.
\<close>

definition word_shape :: "stream_word \<Rightarrow> bool" where
  "word_shape w \<longleftrightarrow> length (wdata w) = 8 \<and> length (wbe w) = 8"

definition mac_shape :: "mac_filter \<Rightarrow> bool" where
  "mac_shape s \<longleftrightarrow> m_fb0 s \<le> 2 \<and> length (m_fb23 s) = 2 \<and>
     list_all (\<lambda>xs. length xs = 8) [m_fb20 s, m_fb21 s, m_fb24 s] \<and>
     list_all (\<lambda>xs. length xs = 8) [m_fb19 s, m_fb22 s, m_fb5 s]"

definition ip_shape :: "ipv4_filter \<Rightarrow> bool" where
  "ip_shape s \<longleftrightarrow> i_fb0 s \<le> 4 \<and> length (i_fb22 s) = 3 \<and> length (i_fb3 s) = 4 \<and>
     list_all (\<lambda>xs. length xs = 8) [i_fb4 s, i_fb5 s, i_fb18 s, i_fb19 s, i_fb23 s] \<and>
     list_all (\<lambda>xs. length xs = 8) [i_fb20 s, i_fb21 s, i_fb24 s]"

text \<open>An output word without the valid flag enables no byte.\<close>

definition enables_valid :: "stream_word \<Rightarrow> bool" where
  "enables_valid w \<longleftrightarrow> word_shape w \<and> (\<not> wvalid w \<longrightarrow> wbe w = replicate 8 False)"

interpretation mac: guarded_clocked mac_step mac_init word_shape mac_shape enables_valid
proof unfold_locales
  show "mac_shape mac_init" by (simp add: mac_shape_def mac_init_def)
next
  fix s i
  assume "mac_shape s" "word_shape i"
  then show "mac_shape (fst (mac_step s i))"
    by (simp add: mac_shape_def word_shape_def mac_step_def Let_def length_py_slice split_beta)
next
  fix s i
  assume "mac_shape s" "word_shape i"
  then show "enables_valid (snd (mac_step s i))"
    by (simp add: mac_shape_def word_shape_def enables_valid_def mac_step_def Let_def map_replicate_const split_beta)
qed

interpretation ip: clocked ip_step ip_init word_shape ip_shape
proof unfold_locales
  show "ip_shape ip_init" by (simp add: ip_shape_def ip_init_def)
next
  fix s i
  assume "ip_shape s" "word_shape i"
  then show "ip_shape (fst (ip_step s i))"
    by (simp add: ip_shape_def word_shape_def ip_step_def Let_def length_py_slice split_beta)
qed

end
