(* ===== verification/NI_Mac.thy ===== *)
theory NI_Mac
  imports NI_Stream
begin

text \<open>
  What the MAC filter of \<open>ni_stream_model.py\<close> does to whole frames: it drops a frame for another
  address, strips the 14 header bytes of an accepted one, and, when the last word of a frame fills
  lane 6 or 7, repeats a word in place of the frame's tail.
\<close>

section \<open>Frames as words\<close>

definition full_word :: "int list \<Rightarrow> stream_word" where
  "full_word d = \<lparr>wdata = d, wvalid = True, wbe = replicate 8 True, weog = False, weob = False\<rparr>"

definition last_word :: "int list \<Rightarrow> stream_word" where
  "last_word t = \<lparr>wdata = t @ replicate (8 - length t) 0, wvalid = True,
     wbe = replicate (length t) True @ replicate (8 - length t) False, weog = True, weob = False\<rparr>"

definition idle_word :: "stream_word \<Rightarrow> bool" where
  "idle_word w \<longleftrightarrow> \<not> wvalid w \<and> \<not> weog w \<and> \<not> weob w \<and> word_shape w"

text \<open>The bytes an output word enables.\<close>

definition enabled :: "stream_word \<Rightarrow> int list" where
  "enabled w = (if wvalid w then map fst (filter snd (zip (wdata w) (wbe w))) else [])"

lemma enabled_prefix:
  "wvalid w \<Longrightarrow> wbe w = replicate n True @ replicate m False \<Longrightarrow> length (wdata w) = n + m \<Longrightarrow>
   enabled w = take n (wdata w)"
proof -
  assume w: "wvalid w" "wbe w = replicate n True @ replicate m False" "length (wdata w) = n + m"
  have *: "zip (wdata w) (wbe w) =
      zip (take n (wdata w)) (replicate n True) @ zip (drop n (wdata w)) (replicate m False)"
    using w(3) unfolding w(2) by (subst append_take_drop_id [of n, symmetric], subst zip_append) simp_all
  have "map fst (filter snd (zip xs (replicate n True))) = xs" if "length xs = n" for xs :: "int list"
    using that by (induction xs arbitrary: n) auto
  moreover have "filter snd (zip xs (replicate m False)) = []" if "length xs = m" for xs :: "int list"
    using that by (induction xs arbitrary: m) auto
  ultimately show ?thesis using w(1,3) by (simp add: enabled_def *)
qed

lemma enabled_full: "wvalid w \<Longrightarrow> wbe w = replicate 8 True \<Longrightarrow> length (wdata w) = 8 \<Longrightarrow> enabled w = wdata w"
  using enabled_prefix [of w 8 0] by simp

lemma enabled_invalid [simp]: "\<not> wvalid w \<Longrightarrow> enabled w = []"
  by (simp add: enabled_def)

section \<open>Between frames\<close>

text \<open>Nothing accepted and nothing in the output registers.\<close>

definition mac_dead :: "mac_filter \<Rightarrow> bool" where
  "mac_dead s \<longleftrightarrow> \<not> m_fb1 s \<and> \<not> r_pd (m_fb2 s) \<and> \<not> m_fb7 s \<and> m_fb8 s = (False, False) \<and>
     m_fb9 s = (False, False)"

definition mac_quiet :: "mac_filter \<Rightarrow> bool" where
  "mac_quiet s \<longleftrightarrow> m_fb0 s = 0 \<and> mac_dead s"

definition silent :: "stream_word \<Rightarrow> bool" where
  "silent w \<longleftrightarrow> \<not> wvalid w \<and> \<not> weog w \<and> \<not> weob w"

lemma mac_quiet_init: "mac_quiet mac_init"
  by (simp add: mac_quiet_def mac_dead_def mac_init_def mac_NONE_def)

lemma mac_S_pd [simp]: "\<not> r_pd mac_S0" "\<not> r_pd mac_S1" "r_pd mac_S2"
  by (simp_all add: mac_S0_def mac_S1_def mac_S2_def)

lemma r_pd_and [simp]: "r_pd (mac_and b r) \<longleftrightarrow> b \<and> r_pd r"
  by (simp add: mac_and_def)

lemma mac_and_True [simp]: "mac_and True r = r"
  by (simp add: mac_and_def)

lemma mac_quiet_idle:
  "mac_quiet s \<Longrightarrow> idle_word w \<Longrightarrow> mac_quiet (fst (mac_step s w)) \<and> silent (snd (mac_step s w))"
  by (simp add: mac_quiet_def mac_dead_def silent_def idle_word_def mac_step_def Let_def)

lemma mac_quiet_idles:
  "mac_quiet s \<Longrightarrow> list_all idle_word ws \<Longrightarrow>
   mac_quiet (fst (run_loop mac_step s ws)) \<and> list_all silent (snd (run_loop mac_step s ws))"
  by (induction ws arbitrary: s) (simp_all add: Let_def split_beta mac_quiet_idle)

section \<open>A frame for another address\<close>

lemma mac_reject_start:
  assumes "mac_quiet s" and "wvalid w" and "\<not> address_match (take 6 (wdata w)) MAC_ADDR"
  shows "mac_dead (fst (mac_step s w)) \<and> m_fb0 (fst (mac_step s w)) = 1 \<and> silent (snd (mac_step s w))"
  using assms by (simp add: mac_quiet_def mac_dead_def silent_def mac_step_def Let_def)

lemma mac_reject_middle:
  assumes "mac_dead s" and "m_fb0 s = 1"
  shows "mac_dead (fst (mac_step s w)) \<and> silent (snd (mac_step s w)) \<and>
    m_fb0 (fst (mac_step s w)) = (if weog w \<or> weob w then 0 else 1)"
  using assms by (simp add: mac_dead_def silent_def mac_step_def Let_def)

lemma mac_reject_rest:
  assumes "mac_dead s" and "m_fb0 s = 1" and "list_all (\<lambda>w. \<not> weog w \<and> \<not> weob w) ws" and "weog l \<or> weob l"
  shows "mac_quiet (fst (run_loop mac_step s (ws @ [l]))) \<and>
    list_all silent (snd (run_loop mac_step s (ws @ [l])))"
  using assms
proof (induction ws arbitrary: s)
  case Nil
  then show ?case using mac_reject_middle [OF Nil(1,2), of l]
    by (simp add: Let_def split_beta mac_quiet_def)
next
  case (Cons w ws)
  then show ?case using mac_reject_middle [OF Cons.prems(1,2), of w]
    by (simp add: Let_def split_beta)
qed

section \<open>An accepted frame\<close>

definition lanes :: "int list \<Rightarrow> int list \<Rightarrow> int list" where
  "lanes a b = drop 6 a @ take 6 b"

lemma slice_lanes: "length a = 8 \<Longrightarrow> py_slice 6 14 (a @ b) = lanes a b"
  by (simp add: py_slice_def lanes_def)

lemma slice_enables:
  "py_slice 6 14 (replicate 8 True @ replicate 8 True) = replicate 8 True"
  by (simp add: py_slice_def flip: replicate_add)

text \<open>In an accepted frame, after the words \<open>a\<close>, \<open>b\<close> and \<open>c\<close>; \<open>v\<close> is the output's valid flag.\<close>

definition mac_mid :: "bool \<Rightarrow> int list \<Rightarrow> int list \<Rightarrow> int list \<Rightarrow> mac_filter \<Rightarrow> bool" where
  "mac_mid v a b c s \<longleftrightarrow> m_fb0 s = 1 \<and> m_fb1 s \<and> m_fb2 s = mac_S2 \<and> m_fb7 s = v \<and>
     m_fb8 s = (False, False) \<and> m_fb9 s = (False, False) \<and>
     m_fb19 s = replicate 8 True \<and> m_fb22 s = replicate 8 True \<and> m_fb20 s = c \<and> m_fb21 s = b \<and>
     m_fb23 s = [mac_S2, mac_S2] \<and> m_fb24 s = lanes a b \<and> m_fb5 s = replicate 8 True"

lemma mac_accept_start:
  assumes "mac_quiet s" and "length a = 8" "length b = 8" "length c = 8"
    and "address_match (take 6 a) MAC_ADDR"
  shows "mac_mid False a b c (fst (run_loop mac_step s (map full_word [a, b, c]))) \<and>
    list_all silent (snd (run_loop mac_step s (map full_word [a, b, c])))"
  using assms
  by (simp add: mac_quiet_def mac_dead_def mac_mid_def silent_def full_word_def mac_step_def Let_def
      slice_lanes slice_enables)

lemma mac_mid_step:
  assumes "mac_mid v a b c s" and "length b = 8" "length d = 8"
  shows "mac_mid True b c d (fst (mac_step s (full_word d))) \<and>
    snd (mac_step s (full_word d)) =
      \<lparr>wdata = lanes a b, wvalid = v, wbe = replicate 8 v, weog = False, weob = False\<rparr>"
  using assms
  by (simp add: mac_mid_def full_word_def mac_step_def Let_def slice_lanes slice_enables
     )

definition waiting :: "bool \<Rightarrow> int list \<Rightarrow> int list \<Rightarrow> int list \<Rightarrow> int list" where
  "waiting v a b c = (if v then lanes a b else []) @ lanes b c"

definition no_end :: "stream_word \<Rightarrow> bool" where
  "no_end w \<longleftrightarrow> \<not> weog w \<and> \<not> weob w"

lemma length_lanes: "length a = 8 \<Longrightarrow> length b = 8 \<Longrightarrow> length (lanes a b) = 8"
  by (simp add: lanes_def)

lemma lanes_join: "waiting True b c d @ drop 6 d = lanes b c @ drop 6 c @ d"
  by (simp add: waiting_def lanes_def)

lemma mac_mid_run:
  assumes "mac_mid v a b c s" and "length a = 8" "length b = 8" "length c = 8"
    and "list_all (\<lambda>d. length d = 8) ds"
  shows "\<exists>v' a' b'. mac_mid v' a' b' (last (c # ds)) (fst (run_loop mac_step s (map full_word ds))) \<and>
    length a' = 8 \<and> length b' = 8 \<and>
    concat (map enabled (snd (run_loop mac_step s (map full_word ds)))) @
      waiting v' a' b' (last (c # ds)) @ drop 6 (last (c # ds)) =
    waiting v a b c @ drop 6 c @ concat ds \<and>
    list_all no_end (snd (run_loop mac_step s (map full_word ds)))"
  using assms
proof (induction ds arbitrary: v a b c s)
  case Nil
  then show ?case by auto
next
  case (Cons d ds)
  have d: "length d = 8" using Cons.prems(5) by simp
  note step = mac_mid_step [OF Cons.prems(1,3) d]
  let ?o = "snd (mac_step s (full_word d))"
  have o: "enabled ?o = (if v then lanes a b else [])" "no_end ?o"
    using step length_lanes [OF Cons.prems(2,3)] enabled_full [of ?o] by (cases v; simp add: no_end_def)+
  have rest: "list_all (\<lambda>d. length d = 8) ds" using Cons.prems(5) by simp
  from Cons.IH [OF step [THEN conjunct1] Cons.prems(3,4) d rest]
  obtain v' a' b' where ih: "mac_mid v' a' b' (last (d # ds))
      (fst (run_loop mac_step (fst (mac_step s (full_word d))) (map full_word ds)))"
      "length a' = 8" "length b' = 8"
      "concat (map enabled (snd (run_loop mac_step (fst (mac_step s (full_word d))) (map full_word ds)))) @
        waiting v' a' b' (last (d # ds)) @ drop 6 (last (d # ds)) = waiting True b c d @ drop 6 d @ concat ds"
      "list_all no_end (snd (run_loop mac_step (fst (mac_step s (full_word d))) (map full_word ds)))"
    by blast
  have "waiting True b c d @ drop 6 d @ concat ds = (lanes b c @ drop 6 c @ d) @ concat ds"
    using lanes_join [of b c d] by (metis append.assoc)
  with ih(4) o(1) have joined: "enabled ?o @ concat (map enabled (snd (run_loop mac_step (fst (mac_step s (full_word d))) (map full_word ds)))) @
        waiting v' a' b' (last (d # ds)) @ drop 6 (last (d # ds)) = waiting v a b c @ drop 6 c @ concat (d # ds)"
    by (simp add: waiting_def)
  have lst: "last (c # d # ds) = last (d # ds)" by simp
  show ?case
    by (rule exI [of _ v'], rule exI [of _ a'], rule exI [of _ b'])
      (use ih(1,2,3,5) o(2) joined in \<open>simp add: Let_def split_beta lst del: last.simps\<close>)
qed

text \<open>The last word of the frame and the idle cycles that drain the pipeline.\<close>

lemma slice_last_enables:
  "0 < n \<Longrightarrow> n \<le> 6 \<Longrightarrow> py_slice 6 14 (replicate 8 True @ replicate n True @ replicate (8 - n) False) =
     replicate (2 + n) True @ replicate (8 - (2 + n)) False"
  by (simp add: py_slice_def drop_Cons' replicate_add numeral_eq_Suc)

lemma lane_flags:
  "n \<le> 8 \<Longrightarrow> any_lane (map (\<lambda>b. b \<and> True) (replicate n True @ replicate (8 - n) False)) [6, 7] \<longleftrightarrow> 6 < n"
  by (auto simp: any_lane_def nth_append)

lemma mac_last_step:
  assumes "mac_mid v a b c s" and "length b = 8" and "length t \<le> 6"
  shows "let s' = fst (mac_step s (last_word t)) in
    m_fb0 s' = 0 \<and> \<not> m_fb1 s' \<and> m_fb2 s' = mac_S2 \<and> m_fb7 s' \<and> m_fb8 s' = (True, False) \<and>
    m_fb9 s' = (False, False) \<and> m_fb24 s' = lanes b c \<and> m_fb5 s' = replicate 8 True \<and>
    m_fb20 s' = t @ replicate (8 - length t) 0 \<and> m_fb21 s' = c \<and>
    m_fb19 s' = replicate (length t) True @ replicate (8 - length t) False \<and> m_fb22 s' = replicate 8 True \<and>
    snd (mac_step s (last_word t)) =
      \<lparr>wdata = lanes a b, wvalid = v, wbe = replicate 8 v, weog = False, weob = False\<rparr>"
  using assms lane_flags [of "length t"]
  by (simp add: mac_mid_def last_word_def mac_step_def Let_def slice_lanes slice_enables)

lemma length_padded_tail: "length t \<le> 8 \<Longrightarrow> length (t @ replicate (8 - length t) (0::int)) = 8"
  by simp

lemma lanes_tail: "length c = 8 \<Longrightarrow> length t \<le> 6 \<Longrightarrow>
  take (2 + length t) (lanes c (t @ replicate (8 - length t) 0)) = drop 6 c @ t"
  by (simp add: lanes_def)

lemma mac_drain_words:
  assumes mid: "mac_mid v a b c s" and len: "length a = 8" "length b = 8" "length c = 8"
    and t: "0 < length t" "length t \<le> 6" and idle: "idle_word i1" "idle_word i2"
  defines "y \<equiv> lanes c (t @ replicate (8 - length t) 0)"
  shows "mac_quiet (fst (run_loop mac_step s [last_word t, i1, i2]))"
    and "snd (run_loop mac_step s [last_word t, i1, i2]) =
      [\<lparr>wdata = lanes a b, wvalid = v, wbe = replicate 8 v, weog = False, weob = False\<rparr>,
       \<lparr>wdata = lanes b c, wvalid = True, wbe = replicate 8 True, weog = False, weob = False\<rparr>,
       \<lparr>wdata = y, wvalid = True, wbe = replicate (2 + length t) True @ replicate (8 - (2 + length t)) False,
        weog = True, weob = False\<rparr>]"
proof -
  define s1 where "s1 = fst (mac_step s (last_word t))"
  define s2 where "s2 = fst (mac_step s1 i1)"
  note last = mac_last_step [OF mid len(2) t(2), unfolded Let_def, folded s1_def]
  have i: "\<not> wvalid i1" "\<not> weog i1" "\<not> weob i1" "\<not> wvalid i2" "\<not> weog i2" "\<not> weob i2"
    using idle by (simp_all add: idle_word_def)
  let ?be = "replicate (2 + length t) True @ replicate (8 - (2 + length t)) False"
  have step2: "m_fb0 s2 = 0 \<and> mac_dead (s2\<lparr>m_fb7 := False, m_fb9 := (False, False)\<rparr>) \<and> m_fb7 s2 \<and>
      m_fb9 s2 = (True, False) \<and> m_fb24 s2 = y \<and> m_fb5 s2 = ?be \<and>
      snd (mac_step s1 i1) = \<lparr>wdata = lanes b c, wvalid = True, wbe = replicate 8 True, weog = False, weob = False\<rparr>"
    using last i slice_last_enables [OF t]
    by (simp add: s2_def mac_step_def Let_def mac_dead_def slice_lanes len y_def)
  have step3: "mac_quiet (fst (mac_step s2 i2)) \<and>
      snd (mac_step s2 i2) = \<lparr>wdata = y, wvalid = True, wbe = ?be, weog = True, weob = False\<rparr>"
    using step2 i by (simp add: mac_step_def Let_def mac_quiet_def mac_dead_def)
  show "mac_quiet (fst (run_loop mac_step s [last_word t, i1, i2]))"
    using step3 by (simp add: Let_def split_beta flip: s1_def s2_def)
  show "snd (run_loop mac_step s [last_word t, i1, i2]) =
      [\<lparr>wdata = lanes a b, wvalid = v, wbe = replicate 8 v, weog = False, weob = False\<rparr>,
       \<lparr>wdata = lanes b c, wvalid = True, wbe = replicate 8 True, weog = False, weob = False\<rparr>,
       \<lparr>wdata = y, wvalid = True, wbe = ?be, weog = True, weob = False\<rparr>]"
    using step2 step3 last by (simp add: Let_def split_beta flip: s1_def s2_def)
qed

lemma mac_drain:
  assumes mid: "mac_mid v a b c s" and len: "length a = 8" "length b = 8" "length c = 8"
    and t: "0 < length t" "length t \<le> 6" and idle: "idle_word i1" "idle_word i2"
  shows "let r = run_loop mac_step s [last_word t, i1, i2]
    in mac_quiet (fst r) \<and> concat (map enabled (snd r)) = waiting v a b c @ drop 6 c @ t"
proof -
  let ?t = "t @ replicate (8 - length t) 0"
  have l: "length (lanes a b) = 8" "length (lanes b c) = 8" "length (lanes c ?t) = 8"
    using length_lanes len t by simp_all
  have "enabled \<lparr>wdata = lanes a b, wvalid = v, wbe = replicate 8 v, weog = False, weob = False\<rparr> =
      (if v then lanes a b else [])"
    using l(1) enabled_full [of "\<lparr>wdata = lanes a b, wvalid = True, wbe = replicate 8 True, weog = False, weob = False\<rparr>"]
    by (cases v) simp_all
  moreover have "enabled \<lparr>wdata = lanes b c, wvalid = True, wbe = replicate 8 True, weog = False, weob = False\<rparr> = lanes b c"
    using l(2) by (simp add: enabled_full)
  moreover have "enabled \<lparr>wdata = lanes c ?t, wvalid = True, wbe = replicate (2 + length t) True @
      replicate (8 - (2 + length t)) False, weog = True, weob = False\<rparr> = drop 6 c @ t"
    using l(3) t lanes_tail [OF len(3) t(2)]
      enabled_prefix [of "\<lparr>wdata = lanes c ?t, wvalid = True, wbe = replicate (2 + length t) True @
        replicate (8 - (2 + length t)) False, weog = True, weob = False\<rparr>" "2 + length t" "8 - (2 + length t)"]
    by simp
  ultimately show ?thesis
    using mac_drain_words [OF assms] by (simp add: Let_def waiting_def del: run_loop.simps)
qed

section \<open>Whole frames\<close>

text \<open>An accepted frame: full words \<open>ds\<close>, at least three, and a last word with the bytes \<open>t\<close>.\<close>

definition frame_words :: "int list list \<Rightarrow> int list \<Rightarrow> stream_word list" where
  "frame_words ds t = map full_word ds @ [last_word t]"

lemma enabled_silent: "list_all silent ws \<Longrightarrow> concat (map enabled ws) = []"
  by (induction ws) (simp_all add: silent_def)

text \<open>The filter's state and output when all full words of an accepted frame are in.\<close>

lemma mac_accepted:
  assumes s: "mac_quiet s" and ds: "ds = a # b # c # es" "list_all (\<lambda>d. length d = 8) ds"
    and m: "address_match (take 6 a) MAC_ADDR"
  obtains s2 outs v' a' b' where "run_loop mac_step s (map full_word ds) = (s2, outs)"
    and "mac_mid v' a' b' (last ds) s2" and "length a' = 8" "length b' = 8" "length (last ds) = 8"
    and "concat (map enabled outs) @ waiting v' a' b' (last ds) @ drop 6 (last ds) = drop 14 (concat ds)"
proof -
  have len: "length a = 8" "length b = 8" "length c = 8" "list_all (\<lambda>d. length d = 8) es"
    using ds by simp_all
  define s1 where "s1 = fst (run_loop mac_step s (map full_word [a, b, c]))"
  define s2 where "s2 = fst (run_loop mac_step s1 (map full_word es))"
  let ?o = "\<lambda>s ws. concat (map enabled (snd (run_loop mac_step s ws)))" and ?l = "last (c # es)"
  have start: "mac_mid False a b c s1" "?o s (map full_word [a, b, c]) = []"
    using mac_accept_start [OF s len(1-3) m] enabled_silent unfolding s1_def by blast+
  from mac_mid_run [OF start(1) len, folded s2_def]
  obtain v' a' b' where mid: "mac_mid v' a' b' ?l s2" "length a' = 8" "length b' = 8"
    and bytes: "?o s1 (map full_word es) @ waiting v' a' b' ?l @ drop 6 ?l =
      waiting False a b c @ drop 6 c @ concat es" by blast
  have lst: "last ds = ?l" by (simp add: ds(1))
  have "length ?l = 8"
    using len(3,4) last_in_set [of "c # es"] by (auto simp: list_all_iff simp del: last_in_set)
  moreover have words: "map full_word ds = map full_word [a, b, c] @ map full_word es" by (simp add: ds(1))
  have run: "run_loop mac_step s (map full_word ds) =
      (s2, snd (run_loop mac_step s (map full_word [a, b, c])) @ snd (run_loop mac_step s1 (map full_word es)))"
    unfolding words run_loop_append [of mac_step] Let_def split_beta s1_def s2_def by (rule refl)
  moreover have "waiting False a b c @ drop 6 c @ concat es = drop 14 (concat ds)"
    using len by (simp add: ds(1) waiting_def lanes_def)
  ultimately show thesis using that [OF run, folded lst] mid start(2) bytes
    unfolding lst map_append concat_append by simp
qed

lemma mac_strips_full:
  assumes "mac_quiet s" and "ds = a # b # c # es" "list_all (\<lambda>d. length d = 8) ds"
    and "address_match (take 6 a) MAC_ADDR" and "0 < length t" "length t \<le> 6"
    and "idle_word i1" "idle_word i2" "list_all idle_word rest"
  shows "let r = run_loop mac_step s (frame_words ds t @ i1 # i2 # rest)
    in mac_quiet (fst r) \<and> concat (map enabled (snd r)) = drop 14 (concat ds @ t)"
proof -
  from mac_accepted [OF assms(1-4)]
  obtain s2 outs v' a' b' where run: "run_loop mac_step s (map full_word ds) = (s2, outs)"
    and mid: "mac_mid v' a' b' (last ds) s2" "length a' = 8" "length b' = 8" "length (last ds) = 8"
    and bytes: "concat (map enabled outs) @ waiting v' a' b' (last ds) @ drop 6 (last ds) = drop 14 (concat ds)"
    by blast
  obtain s3 o3 where drain: "run_loop mac_step s2 [last_word t, i1, i2] = (s3, o3)" by fastforce
  have o3: "mac_quiet s3" "concat (map enabled o3) = waiting v' a' b' (last ds) @ drop 6 (last ds) @ t"
    using mac_drain [OF mid assms(5-8), unfolded Let_def drain fst_conv snd_conv] by blast+
  have rest: "mac_quiet (fst (run_loop mac_step s3 rest))"
    "concat (map enabled (snd (run_loop mac_step s3 rest))) = []"
    using mac_quiet_idles [OF o3(1) assms(9)] enabled_silent by blast+
  have words: "frame_words ds t @ i1 # i2 # rest = map full_word ds @ [last_word t, i1, i2] @ rest"
    by (simp add: frame_words_def)
  have "14 \<le> length (concat ds)" using assms(2,3) by simp
  then have "concat (map enabled outs) @ concat (map enabled o3) = drop 14 (concat ds @ t)"
    using arg_cong [OF bytes, of "\<lambda>xs. xs @ t"] by (simp add: o3(2))
  moreover have "run_loop mac_step s (frame_words ds t @ i1 # i2 # rest) =
      (fst (run_loop mac_step s3 rest), outs @ o3 @ snd (run_loop mac_step s3 rest))"
    unfolding words run_loop_append [of mac_step s "map full_word ds"]
    by (simp only: run drain Let_def split_beta fst_conv snd_conv
        run_loop_append [of mac_step s2 "[last_word t, i1, i2]"])
  ultimately show ?thesis using rest by (simp only: Let_def fst_conv snd_conv map_append concat_append) simp
qed

lemma mac_purge_drain:
  assumes mid: "mac_mid v a b c s" and len: "length a = 8" "length b = 8" "length c = 8"
    and t: "6 < length t" "length t \<le> 8" and idle: "idle_word i1" "idle_word i2" "idle_word i3"
  shows "let r = run_loop mac_step s [last_word t, i1, i2, i3]
    in mac_quiet (fst r) \<and>
       concat (map enabled (snd r)) = waiting v a b c @ (drop 6 c @ take 6 t) @ (drop 6 c @ take 6 t)"
proof -
  define s1 where "s1 = fst (mac_step s (last_word t))"
  define s2 where "s2 = fst (mac_step s1 i1)"
  define s3 where "s3 = fst (mac_step s2 i2)"
  let ?t = "t @ replicate (8 - length t) 0" and ?be = "replicate (length t) True @ replicate (8 - length t) False"
  have i: "\<not> wvalid i1" "\<not> weog i1" "\<not> weob i1" "\<not> wvalid i2" "\<not> weog i2" "\<not> weob i2"
    "\<not> wvalid i3" "\<not> weog i3" "\<not> weob i3"
    using idle by (simp_all add: idle_word_def)
  have step1: "m_fb0 s1 = 2 \<and> m_fb2 s1 = mac_S2 \<and> m_fb7 s1 \<and> m_fb8 s1 = (False, False) \<and>
      m_fb9 s1 = (False, False) \<and> m_fb10 s1 = (True, False) \<and> m_fb24 s1 = lanes b c \<and> m_fb5 s1 = replicate 8 True \<and>
      m_fb20 s1 = ?t \<and> m_fb21 s1 = c \<and> m_fb19 s1 = ?be \<and> m_fb22 s1 = replicate 8 True \<and>
      snd (mac_step s (last_word t)) =
        \<lparr>wdata = lanes a b, wvalid = v, wbe = replicate 8 v, weog = False, weob = False\<rparr>"
    using mid len t lane_flags [of "length t"]
    by (simp add: s1_def mac_mid_def last_word_def mac_step_def Let_def slice_lanes slice_enables)
  have be: "py_slice 6 14 (replicate 8 True @ ?be) = replicate 8 True"
    using t by (intro nth_equalityI) (auto simp: py_slice_def nth_append)
  have step2: "m_fb0 s2 = 0 \<and> \<not> m_fb1 s2 \<and> m_fb2 s2 = mac_S2 \<and> m_fb7 s2 \<and> m_fb8 s2 = (True, False) \<and>
      m_fb9 s2 = (False, False) \<and> m_fb24 s2 = lanes c ?t \<and> m_fb5 s2 = replicate 8 True \<and>
      m_fb20 s2 = ?t \<and> m_fb21 s2 = c \<and> m_fb19 s2 = ?be \<and> m_fb22 s2 = replicate 8 True \<and>
      snd (mac_step s1 i1) = \<lparr>wdata = lanes b c, wvalid = True, wbe = replicate 8 True, weog = False, weob = False\<rparr>"
    using step1 i be by (simp add: s2_def mac_step_def Let_def slice_lanes len)
  let ?o = "\<lambda>e. \<lparr>wdata = lanes c ?t, wvalid = True, wbe = replicate 8 True, weog = e, weob = False\<rparr>"
  have step3: "m_fb0 s3 = 0 \<and> mac_dead (s3\<lparr>m_fb7 := False, m_fb9 := (False, False)\<rparr>) \<and> m_fb7 s3 \<and>
      m_fb9 s3 = (True, False) \<and> m_fb24 s3 = lanes c ?t \<and> m_fb5 s3 = replicate 8 True \<and>
      snd (mac_step s2 i2) = ?o False"
    using step2 i be by (simp add: s3_def mac_step_def Let_def mac_dead_def slice_lanes len)
  have step4: "mac_quiet (fst (mac_step s3 i3)) \<and> snd (mac_step s3 i3) = ?o True"
    using step3 i by (simp add: mac_step_def Let_def mac_quiet_def mac_dead_def)
  have "take 6 ?t = take 6 t" using t by simp
  then have full: "enabled (?o e) = drop 6 c @ take 6 t" for e
    using length_lanes [OF len(3), of ?t] t by (simp add: enabled_full lanes_def)
  have "enabled (snd (mac_step s (last_word t))) = (if v then lanes a b else [])"
    using step1 length_lanes [OF len(1,2)] by (cases v) (simp_all add: enabled_full)
  moreover have "enabled (snd (mac_step s1 i1)) = lanes b c"
    using step2 length_lanes [OF len(2,3)] by (simp add: enabled_full)
  ultimately show ?thesis using step3 step4 full
    by (simp add: Let_def split_beta waiting_def flip: s1_def s2_def s3_def)
qed

section \<open>Properties\<close>

text \<open>In every run of the receive path's filters over eight-lane words the registers keep their
  shape (state numbers in range, eight lanes each, schedules never empty), so no subscript or slice
  raises, and a MAC filter output word that is not valid enables no byte.\<close>
theorem filters_keep_shape:
  assumes "list_all word_shape ws"
  shows "mac_shape (fst (run_loop mac_step mac_init ws)) \<and> ip_shape (fst (run_loop ip_step ip_init ws)) \<and>
    list_all enables_valid (snd (run_loop mac_step mac_init ws))"
  using mac.inv_reachable [OF assms] ip.inv_reachable [OF assms] mac.good_run [OF mac.inv_start assms]
  by simp

theorem filters_keep_shape_witness:
  "mac_shape (fst (run_loop mac_step mac_init [full_word [1, 2, 3, 4, 5, 6, 7, 8], last_word [9]]))"
  using filters_keep_shape [of "[full_word [1, 2, 3, 4, 5, 6, 7, 8], last_word [9]]"]
  by (simp add: word_shape_def full_word_def last_word_def)

text \<open>The MAC filter drops a frame for another address completely: if the first word's destination
  matches neither the board's address nor 0xFF byte for byte, no output word of the whole frame is
  valid or carries an end flag, whatever its length, contents and gaps, and the filter is ready for
  the next frame.\<close>
theorem mac_drops_other_frame:
  assumes "mac_quiet s" and "wvalid w" and "\<not> address_match (take 6 (wdata w)) MAC_ADDR"
    and "list_all no_end ws" and "weog l \<or> weob l"
  shows "mac_quiet (fst (run_loop mac_step s (w # ws @ [l]))) \<and>
    list_all silent (snd (run_loop mac_step s (w # ws @ [l])))"
  using mac_reject_start [OF assms(1-3)] assms(4,5) mac_reject_rest [of "fst (mac_step s w)" ws l]
  by (simp add: Let_def split_beta no_end_def [abs_def])

theorem mac_drops_other_frame_witness:
  "list_all silent (snd (run_loop mac_step mac_init
     (full_word [0, 0x0a, 0x35, 0x18, 0x3c, 0x20, 7, 8] # [full_word [1, 2, 3, 4, 5, 6, 7, 8]] @ [last_word [9]])))"
  by (rule mac_drops_other_frame [OF mac_quiet_init, THEN conjunct2])
    (simp_all add: full_word_def last_word_def no_end_def address_match_def MAC_ADDR_def upt_rec)

text \<open>The MAC filter strips exactly the Ethernet header of an accepted frame: the bytes its valid
  output words enable, joined over all cycles, are the frame's bytes from the fifteenth on, when the
  frame's last word fills one to six lanes and two idle cycles follow; the filter is then ready for
  the next frame.\<close>
theorem mac_strips_header:
  assumes "mac_quiet s" and "ds = a # b # c # es" "list_all (\<lambda>d. length d = 8) ds"
    and "address_match (take 6 a) MAC_ADDR" and "0 < length t" "length t \<le> 6"
    and "idle_word i1" "idle_word i2" "list_all idle_word rest"
  shows "let r = run_loop mac_step s (frame_words ds t @ i1 # i2 # rest)
    in mac_quiet (fst r) \<and> concat (map enabled (snd r)) = drop 14 (concat ds @ t)"
  by (rule mac_strips_full [OF assms])

theorem mac_strips_header_witness:
  "let i = full_word (replicate 8 0) \<lparr>wvalid := False\<rparr>
   in concat (map enabled (snd (run_loop mac_step mac_init
     (frame_words [[0, 0x0a, 0x35, 0x18, 0x3c, 0x1f, 0xaa, 0xbb], [0xcc, 0xdd, 0xee, 0xff, 8, 0, 1, 2],
        [3, 4, 5, 6, 7, 8, 9, 10]] [11, 12] @ i # i # [])))) = [1, 2, 3, 4, 5, 6, 7, 8, 9, 10, 11, 12]"
  using mac_strips_header [OF mac_quiet_init refl, of "[0, 0x0a, 0x35, 0x18, 0x3c, 0x1f, 0xaa, 0xbb]"
      "[0xcc, 0xdd, 0xee, 0xff, 8, 0, 1, 2]" "[3, 4, 5, 6, 7, 8, 9, 10]" "[]" "[11, 12]"
      "full_word (replicate 8 0) \<lparr>wvalid := False\<rparr>" "full_word (replicate 8 0) \<lparr>wvalid := False\<rparr>" "[]"]
  by (simp add: address_match_def MAC_ADDR_def upt_rec idle_word_def full_word_def word_shape_def Let_def)

text \<open>The flush defect of the MAC filter: when the last word of an accepted frame fills lane 6 (or
  6 and 7), the purge cycle repeats the previous output word instead of flushing the rest, because
  the data history only shifts on valid words. The frame's last one or two bytes never leave the
  filter; the eight bytes before them leave it twice.\<close>
theorem mac_flush_repeats:
  assumes "mac_quiet s" and "ds = a # b # c # es" "list_all (\<lambda>d. length d = 8) ds"
    and "address_match (take 6 a) MAC_ADDR" and "6 < length t" "length t \<le> 8"
    and "idle_word i1" "idle_word i2" "idle_word i3"
  shows "let r = run_loop mac_step s (frame_words ds t @ [i1, i2, i3])
    in mac_quiet (fst r) \<and> concat (map enabled (snd r)) =
       drop 14 (concat ds @ take 6 t) @ drop 6 (last ds) @ take 6 t"
proof -
  from mac_accepted [OF assms(1-4)]
  obtain s2 outs v' a' b' where run: "run_loop mac_step s (map full_word ds) = (s2, outs)"
    and mid: "mac_mid v' a' b' (last ds) s2" "length a' = 8" "length b' = 8" "length (last ds) = 8"
    and bytes: "concat (map enabled outs) @ waiting v' a' b' (last ds) @ drop 6 (last ds) = drop 14 (concat ds)"
    by blast
  obtain s3 o3 where drain: "run_loop mac_step s2 [last_word t, i1, i2, i3] = (s3, o3)" by fastforce
  have o3: "mac_quiet s3" "concat (map enabled o3) =
      waiting v' a' b' (last ds) @ (drop 6 (last ds) @ take 6 t) @ drop 6 (last ds) @ take 6 t"
    using mac_purge_drain [OF mid assms(5-9), unfolded Let_def drain fst_conv snd_conv] by blast+
  have words: "frame_words ds t @ [i1, i2, i3] = map full_word ds @ [last_word t, i1, i2, i3]"
    by (simp add: frame_words_def)
  have "14 \<le> length (concat ds)" using assms(2,3) by simp
  then have "concat (map enabled outs) @ concat (map enabled o3) =
      drop 14 (concat ds @ take 6 t) @ drop 6 (last ds) @ take 6 t"
    using arg_cong [OF bytes, of "\<lambda>xs. xs @ take 6 t @ drop 6 (last ds) @ take 6 t"] by (simp add: o3(2))
  moreover have "run_loop mac_step s (frame_words ds t @ [i1, i2, i3]) = (s3, outs @ o3)"
    unfolding words by (simp add: run_loop_append [of mac_step] run drain Let_def split_beta del: run_loop.simps)
  ultimately show ?thesis using o3(1) by (simp only: Let_def fst_conv snd_conv map_append concat_append)
qed

theorem mac_flush_repeats_witness:
  "let i = full_word (replicate 8 0) \<lparr>wvalid := False\<rparr>
   in concat (map enabled (snd (run_loop mac_step mac_init
     (frame_words [[0, 0x0a, 0x35, 0x18, 0x3c, 0x1f, 0xaa, 0xbb], [0xcc, 0xdd, 0xee, 0xff, 8, 0, 1, 2],
        [3, 4, 5, 6, 7, 8, 9, 10]] [11, 12, 13, 14, 15, 16, 17] @ [i, i, i])))) =
     [1, 2, 3, 4, 5, 6, 7, 8] @ [9, 10, 11, 12, 13, 14, 15, 16] @ [9, 10, 11, 12, 13, 14, 15, 16]"
  using mac_flush_repeats [OF mac_quiet_init refl, of "[0, 0x0a, 0x35, 0x18, 0x3c, 0x1f, 0xaa, 0xbb]"
      "[0xcc, 0xdd, 0xee, 0xff, 8, 0, 1, 2]" "[3, 4, 5, 6, 7, 8, 9, 10]" "[]" "[11, 12, 13, 14, 15, 16, 17]"
      "full_word (replicate 8 0) \<lparr>wvalid := False\<rparr>" "full_word (replicate 8 0) \<lparr>wvalid := False\<rparr>"
      "full_word (replicate 8 0) \<lparr>wvalid := False\<rparr>"]
  by (simp add: address_match_def MAC_ADDR_def upt_rec idle_word_def full_word_def word_shape_def Let_def)

end
