(* ===== verification/NI_Driver.thy ===== *)
theory NI_Driver
  imports NI_Mac Frame_Beats
begin

text \<open>
  The driver of \<open>ni_stream_model.py\<close>: it turns the rows of a beat file into clock cycles, passes
  each through the four filters, collects the words that reach the clock-crossing FIFO and feeds
  them to the bit-exact parser step.
\<close>

section \<open>The code\<close>

text \<open>A clock cycle: data, byte enables, last, valid, frame number.\<close>

type_synonym cycle = "int \<times> int \<times> int \<times> int \<times> int"

fun cycles_from :: "nat \<Rightarrow> beat_row list \<Rightarrow> int \<Rightarrow> int \<times> int \<Rightarrow> cycle list" where
  "cycles_from gap [] last_f hold = replicate 200 (fst hold, snd hold, 0, 0, last_f)"
| "cycles_from gap ((td, tk, tlast, fno, tv) # rows) last_f hold =
     (if fno \<noteq> last_f then replicate gap (fst hold, snd hold, 0, 0, fno) else []) @
     (td, tk, tlast, tv, fno) # cycles_from gap rows fno (td, tk)"

definition cycles_of_rows :: "nat \<Rightarrow> beat_row list \<Rightarrow> cycle list" where
  "cycles_of_rows gap rows = cycles_from gap rows (-1) (0, 0)"

definition cycle_word :: "cycle \<Rightarrow> stream_word py_result" where
  "cycle_word c = (case c of (td, tk, tlast, tv, fno) \<Rightarrow>
     bind_result (to_bytes8 td) (\<lambda>data.
     Inr \<lparr>wdata = data, wvalid = (tv \<noteq> 0), wbe = map (\<lambda>i. drop_bit i tk AND 1 \<noteq> 0) [0..<8],
          weog = (tlast \<noteq> 0), weob = False\<rparr>))"

record pipe =
  p_mac :: mac_filter
  p_sub :: find_subframe
  p_ip :: ipv4_filter
  p_udp :: udp_rx

definition pipe_init :: pipe where
  "pipe_init = \<lparr>p_mac = mac_init, p_sub = sub_init, p_ip = ip_init, p_udp = udp_init\<rparr>"

definition pipe_step :: "pipe \<Rightarrow> stream_word \<Rightarrow> (pipe \<times> stream_word) py_result" where
  "pipe_step p w =
     (let (m, o1) = mac_step (p_mac p) w
      in bind_result (sub_step (p_sub p) o1) (\<lambda>(s, o2).
         let (i, o3, hdr) = ip_step (p_ip p) o2;
             (u, o4) = udp_step (p_udp p) (o3, hdr)
         in Inr (\<lparr>p_mac = m, p_sub = s, p_ip = i, p_udp = u\<rparr>, o4)))"

text \<open>The words that reach the FIFO, with frame number and cycle.\<close>

fun run_cycles :: "pipe \<Rightarrow> nat \<Rightarrow> cycle list \<Rightarrow> (int \<times> nat \<times> stream_word) list py_result" where
  "run_cycles p cyc [] = Inr []"
| "run_cycles p cyc (c # cs) =
     bind_result (cycle_word c) (\<lambda>w.
     bind_result (pipe_step p w) (\<lambda>(p', o4).
     bind_result (run_cycles p' (Suc cyc) cs) (\<lambda>rest.
     Inr (if wvalid o4 \<or> weog o4 \<or> weob o4
          then (snd (snd (snd (snd c))), cyc, o4) # rest else rest))))"

definition keep_of :: "bool list \<Rightarrow> int" where
  "keep_of be = sum_list (map (\<lambda>i. if be ! i then push_bit i 1 else 0) [0..<length be])"

fun feed_elements ::
    "parser \<Rightarrow> (int \<times> nat \<times> stream_word) list \<Rightarrow> debug_record list" where
  "feed_elements p [] = []"
| "feed_elements p ((fno, cyc, e) # es) =
     (let (p', r) = parser_step_elem p fno (wdata e) (keep_of (wbe e)) (wvalid e) (weog e \<or> weob e)
      in (case r of None \<Rightarrow> [] | Some x \<Rightarrow> [x]) @ feed_elements p' es)"

definition ni_run :: "nat \<Rightarrow> string \<Rightarrow>
    ((int \<times> nat \<times> stream_word) list \<times> debug_record list) py_result" where
  "ni_run gap text =
     bind_result (beats_from_file text) (\<lambda>rows.
     bind_result (run_cycles pipe_init 0 (cycles_of_rows gap rows)) (\<lambda>elements.
     Inr (elements, feed_elements parser_init elements)))"

end
