(* ===== verification/Parser_Variants.thy ===== *)
theory Parser_Variants
  imports NI_Driver Replay_Check
begin

text \<open>
  The parser variants of \<open>ip_export/netlist_sim/check_parser_variants.py\<close>: the pad-beat change of
  the reader, and the parser with the end-of-frame clears that the variants A, B and C switch on.
\<close>

section \<open>The code\<close>

fun pad_beats :: "beat_row list \<Rightarrow> beat_row list" where
  "pad_beats [] = []"
| "pad_beats ((td, tk, tlast, fno, tv) # rows) =
     (if tv \<noteq> 0 \<and> tlast \<noteq> 0 \<and> tk \<in> {0x7F, 0xFF}
      then [(td, 0xFF, 0, fno, tv), (0, 0x01, 1, fno, 1)]
      else [(td, tk, tlast, fno, tv)]) @ pad_beats rows"

record vparser =
  v_hdr_clear :: bool
  v_msg_lt_clear :: bool
  v_buf :: "int list"
  v_L :: int
  v_state :: pstate
  v_total :: int
  v_hdr_len :: int
  v_hdrs :: "(int \<times> int) list"
  v_msgs :: "(int \<times> int \<times> int) list"

definition vparser_init :: "bool \<Rightarrow> bool \<Rightarrow> vparser" where
  "vparser_init hdr_clear msg_lt_clear =
     \<lparr>v_hdr_clear = hdr_clear, v_msg_lt_clear = msg_lt_clear, v_buf = replicate (nat NB) 0, v_L = 0,
      v_state = HDR, v_total = 0, v_hdr_len = 0, v_hdrs = [], v_msgs = []\<rparr>"

definition vparser_step :: "vparser \<Rightarrow> int \<Rightarrow> int list \<Rightarrow> int \<Rightarrow> bool \<Rightarrow> bool \<Rightarrow> vparser" where
  "vparser_step p0 fno data8 keep valid eof =
     (let (b1, l1) = (if valid then add_data_to_buffer (v_buf p0) (v_L p0) data8 keep
                      else (v_buf p0, v_L p0));
          p = p0\<lparr>v_buf := b1, v_L := l1\<rparr>
      in case v_state p of
        HDR \<Rightarrow>
          if v_L p \<ge> 8 then
            (let hl = byte_at (v_buf p) 0 OR push_bit 8 (byte_at (v_buf p) 1);
                 (b2, l2) = compress_buffer (v_buf p) (v_L p) 8
             in p\<lparr>v_hdr_len := hl, v_hdrs := v_hdrs p @ [(fno, hl)], v_buf := b2, v_L := l2,
                  v_total := 8, v_state := MSG\<rparr>)
          else if eof \<and> v_hdr_clear p then p\<lparr>v_L := 0\<rparr>
          else p
      | MSG \<Rightarrow>
          if v_L p = 0 then p
          else
            (let ln = byte_at (v_buf p) 0; ty = byte_at (v_buf p) 1
             in if v_L p \<ge> ln then
                  (let (b2, l2) = compress_buffer (v_buf p) (v_L p) ln;
                       done = (v_total p + ln \<ge> v_hdr_len p);
                       q = p\<lparr>v_msgs := v_msgs p @ [(fno, ln, ty)], v_buf := b2, v_L := l2,
                             v_total := v_total p + ln\<rparr>
                   in if done \<or> eof then q\<lparr>v_state := HDR, v_L := 0\<rparr> else q)
                else if eof then
                  p\<lparr>v_state := HDR, v_L := (if v_msg_lt_clear p then 0 else v_L p)\<rparr>
                else p))"

fun feed_variant :: "vparser \<Rightarrow> (int \<times> nat \<times> stream_word) list \<Rightarrow> vparser" where
  "feed_variant p [] = p"
| "feed_variant p ((fno, cyc, o4) # es) =
     feed_variant (vparser_step p fno (wdata o4) (keep_of (wbe o4)) (wvalid o4) (weog o4 \<or> weob o4)) es"

definition variants_run :: "string \<Rightarrow> bool \<Rightarrow> bool \<Rightarrow> vparser py_result" where
  "variants_run beats hdr_clear msg_lt_clear =
     bind_result (beats_from_file beats) (\<lambda>rows.
     bind_result (run_cycles pipe_init 0 (cycles_of_rows 64 (pad_beats rows))) (\<lambda>elements.
     Inr (feed_variant (vparser_init hdr_clear msg_lt_clear) elements)))"

text \<open>The counts reported for a variant: correct headers, messages seen, correct in sequence.\<close>

definition variant_report ::
    "(nat \<times> (nat \<times> int \<times> int) list) list \<Rightarrow> vparser \<Rightarrow> nat \<times> nat \<times> nat" where
  "variant_report truth p =
     (let flat_truth = concat (map (\<lambda>(plen, m). map (\<lambda>(k, ln, ty). (ln, ty)) m) truth);
          flat = map (\<lambda>(f, ln, ty). (ln, ty)) (v_msgs p);
          ok_hdr = length (filter (\<lambda>i. i < length truth \<and> snd (v_hdrs p ! i) = int (fst (truth ! i)))
                     [0..<length (v_hdrs p)]);
          ok_msg = length (filter (\<lambda>(a, b). a = b) (zip flat flat_truth))
      in (ok_hdr, length flat, ok_msg))"

section \<open>End of frame\<close>

text \<open>The fill level a step works with: after the beat, if valid, is in.\<close>

definition filled :: "vparser \<Rightarrow> int list \<Rightarrow> int \<Rightarrow> bool \<Rightarrow> int list \<times> int" where
  "filled p data8 keep valid =
     (if valid then add_data_to_buffer (v_buf p) (v_L p) data8 keep else (v_buf p, v_L p))"

lemma vparser_step_filled:
  assumes "filled p d keep valid = (b1, l1)"
  shows "v_state p = HDR \<Longrightarrow> 8 \<le> l1 \<Longrightarrow> v_state (vparser_step p f d keep valid eof) = MSG"
    and "v_state p = HDR \<Longrightarrow> l1 < 8 \<Longrightarrow> v_state (vparser_step p f d keep valid eof) = HDR \<and>
      v_L (vparser_step p f d keep valid eof) = (if eof \<and> v_hdr_clear p then 0 else l1)"
    and "v_state p = MSG \<Longrightarrow> l1 = 0 \<Longrightarrow> v_state (vparser_step p f d keep valid eof) = MSG \<and>
      v_L (vparser_step p f d keep valid eof) = 0"
    and "v_state p = MSG \<Longrightarrow> l1 \<noteq> 0 \<Longrightarrow> eof \<Longrightarrow>
      v_state (vparser_step p f d keep valid eof) = HDR \<and>
      v_L (vparser_step p f d keep valid eof) =
        (if byte_at b1 0 \<le> l1 \<or> v_msg_lt_clear p then 0 else l1)"
  using assms by (auto simp: vparser_step_def filled_def Let_def split: prod.splits if_splits)

section \<open>Properties\<close>

text \<open>Resynchronisation of variant C: with both clears on, every end-of-frame cycle, from any
  state and with any buffer contents, leaves the parser in the header state with an empty buffer,
  with exactly two exceptions: the cycle that takes the unit header itself, and a cycle in the
  message state with no byte buffered (a unit without messages), which both leave it in the message
  state.\<close>
theorem variant_C_resyncs:
  assumes "v_hdr_clear p" and "v_msg_lt_clear p"
  shows "(let q = vparser_step p f d keep valid True in v_state q = HDR \<and> v_L q = 0) \<longleftrightarrow>
    \<not> (v_state p = HDR \<and> 8 \<le> snd (filled p d keep valid)) \<and>
    \<not> (v_state p = MSG \<and> snd (filled p d keep valid) = 0)"
proof -
  obtain b1 l1 where fl: "filled p d keep valid = (b1, l1)" by fastforce
  note step = vparser_step_filled [OF fl, where f = f and eof = True]
  show ?thesis
  proof (cases "v_state p")
    case HDR
    then show ?thesis using step(1,2) assms fl by (cases "8 \<le> l1") (auto simp: Let_def)
  next
    case MSG
    then show ?thesis using step(3,4) assms fl by (cases "l1 = 0") (auto simp: Let_def)
  qed
qed

theorem variant_C_resyncs_witness:
  "let q = vparser_step ((vparser_init True True)\<lparr>v_state := MSG\<rparr>) 0 [26, 0x22, 3, 4, 5, 6, 0, 0] 63 True True
   in v_state q = HDR \<and> v_L q = 0"
proof -
  have "snd (filled ((vparser_init True True)\<lparr>v_state := MSG\<rparr>) [26, 0x22, 3, 4, 5, 6, 0, 0] 63 True) = 6"
    by code_simp
  then show ?thesis
    using variant_C_resyncs [of "(vparser_init True True)\<lparr>v_state := MSG\<rparr>" 0 "[26, 0x22, 3, 4, 5, 6, 0, 0]" 63 True]
    by (simp add: vparser_init_def)
qed

text \<open>What variants A and B leave behind: a frame that ends inside a message puts the parser back in
  the header state with that message's bytes still buffered when the second clear is off, and with
  an empty buffer when it is on; either way no message is emitted.\<close>
theorem cut_message_leftover:
  assumes "v_state p = MSG" and "filled p d keep valid = (b1, l1)" and "l1 \<noteq> 0" and "l1 < byte_at b1 0"
  shows "let q = vparser_step p f d keep valid True
    in v_state q = HDR \<and> v_msgs q = v_msgs p \<and> v_L q = (if v_msg_lt_clear p then 0 else l1)"
  using assms by (auto simp: vparser_step_def filled_def Let_def split: prod.splits if_splits)

theorem cut_message_leftover_witness:
  "let q = vparser_step ((vparser_init True False)\<lparr>v_state := MSG\<rparr>) 0 [26, 0x22, 3, 4, 5, 6, 0, 0] 63 True True
   in v_state q = HDR \<and> v_L q = 6"
proof -
  let ?p = "(vparser_init True False)\<lparr>v_state := MSG\<rparr>"
  have fl: "filled ?p [26, 0x22, 3, 4, 5, 6, 0, 0] 63 True = ([0x1A22030405060000, 0, 0, 0, 0, 0, 0, 0, 0], 6)"
    by code_simp
  have "(6::int) < byte_at [0x1A22030405060000, 0, 0, 0, 0, 0, 0, 0, 0] 0" by code_simp
  from cut_message_leftover [OF _ fl _ this, of 0] show ?thesis by (simp add: vparser_init_def Let_def)
qed

section \<open>Pad beats and the MAC filter\<close>

lemma frame_rows_cons:
  assumes "length d = 8" and "r \<noteq> []"
  shows "frame_rows (d @ r) fno = (from_le d, 255, 0, int fno, 1) # frame_rows r fno"
proof -
  have "0 < length r" using assms(2) by simp
  then have beats: "(length (d @ r) + 7) div 8 = Suc ((length r + 7) div 8)" "0 < (length r + 7) div 8"
    using assms(1) \<open>0 < length r\<close> by (simp, linarith)
  have "frame_row (d @ r) fno 0 = (from_le d, 255, 0, int fno, 1)"
    using beats assms(1) by (simp add: frame_row_def Let_def)
  moreover have "frame_row (d @ r) fno (Suc i) = frame_row r fno i" for i
    using beats assms(1) by (simp add: frame_row_def Let_def py_slice_def)
  ultimately show ?thesis
    unfolding frame_rows_def beats(1) upt_conv_Cons [OF zero_less_Suc] map_Suc_upt [symmetric]
    by (simp del: upt_Suc)
qed

lemma frame_rows_single:
  assumes "0 < length t" and "length t \<le> 8"
  shows "frame_rows t fno =
    [(from_le (t @ replicate (8 - length t) 0), push_bit (length t) 1 - 1, 1, int fno, 1)]"
proof -
  have "(length t + 7) div 8 = 1" using assms by linarith
  then show ?thesis using assms by (simp add: frame_rows_def frame_row_def Let_def)
qed

lemma frame_rows_words:
  assumes "list_all (\<lambda>d. length d = 8) ds" and "0 < length t" "length t \<le> 8"
  shows "frame_rows (concat ds @ t) fno =
    map (\<lambda>d. (from_le d, 255, 0, int fno, 1)) ds @
    [(from_le (t @ replicate (8 - length t) 0), push_bit (length t) 1 - 1, 1, int fno, 1)]"
  using assms(1)
proof (induction ds)
  case Nil
  then show ?case using frame_rows_single [OF assms(2,3)] by simp
next
  case (Cons d ds)
  have "concat ds @ t \<noteq> []" using assms(2) by auto
  with Cons show ?case using frame_rows_cons [of d "concat ds @ t"] by simp
qed

lemma pad_beats_append: "pad_beats (xs @ ys) = pad_beats xs @ pad_beats ys"
  by (induction xs rule: pad_beats.induct) simp_all

lemma pad_beats_full:
  "pad_beats (map (\<lambda>d. (from_le d, 255, 0, fno, 1)) ds) = map (\<lambda>d. (from_le d, 255, 0, fno, 1)) ds"
  by (induction ds) simp_all

lemma cycle_word_full:
  assumes "is_bytes d" and "length d = 8"
  shows "cycle_word (from_le d, 255, 0, 1, fno) = Inr (full_word d)"
proof -
  have "map (\<lambda>i. drop_bit i 255 AND 1 \<noteq> (0::int)) [0..<8] = replicate 8 True" by code_simp
  then show ?thesis using word_nat [OF assms] to_le_from_le [OF assms(1)] assms(2)
    by (simp add: cycle_word_def to_bytes8_def full_word_def del: upt_rec_numeral)
qed

lemma cycle_word_pad: "cycle_word (0, 1, 1, 1, fno) = Inr (last_word [0])"
proof -
  have "map (\<lambda>i. drop_bit i 1 AND 1 \<noteq> (0::int)) [0..<8] = [True, False, False, False, False, False, False, False]"
    "to_le 8 0 = replicate 8 0" by code_simp+
  then show ?thesis
    by (simp add: cycle_word_def to_bytes8_def last_word_def eval_nat_numeral del: upt_rec_numeral)
qed

lemma padded_rows:
  assumes "list_all (\<lambda>d. length d = 8) ds" and "is_bytes (concat ds @ t)" and "6 < length t" "length t \<le> 8"
  shows "map (\<lambda>(td, tk, tla, f, tv). cycle_word (td, tk, tla, tv, f)) (pad_beats (frame_rows (concat ds @ t) fno)) =
    map Inr (frame_words (ds @ [t @ replicate (8 - length t) 0]) [0])"
proof -
  let ?ds = "ds @ [t @ replicate (8 - length t) 0]"
  have t: "0 < length t" using assms(3) by linarith
  have "length t = 7 \<or> length t = 8" using assms(3,4) by linarith
  then have keep: "push_bit (length t) 1 - 1 \<in> {0x7F, 0xFF :: int}" by auto
  have eq: "pad_beats (frame_rows (concat ds @ t) fno) =
      map (\<lambda>d. (from_le d, 255, 0, int fno, 1)) ?ds @ [(0, 1, 1, int fno, 1)]"
    unfolding frame_rows_words [OF assms(1) t assms(4)] pad_beats_append pad_beats_full
    using keep by simp
  have len: "list_all (\<lambda>d. length d = 8) ?ds" using assms(1,4) by simp
  have "is_bytes (concat ds)" "is_bytes t" using assms(2) by simp_all
  then have bytes: "is_bytes d" if "d \<in> set ?ds" for d
    using that by (auto simp: is_bytes_def list_all_iff is_byte_def)
  have "cycle_word (from_le d, 255, 0, 1, int fno) = Inr (full_word d)" if "d \<in> set ?ds" for d
    by (rule cycle_word_full) (use bytes len that in \<open>auto simp: list_all_iff\<close>)
  then have "map (\<lambda>(td, tk, tla, f, tv). cycle_word (td, tk, tla, tv, f))
      (map (\<lambda>d. (from_le d, 255, 0, int fno, 1)) ?ds) = map Inr (map full_word ?ds)"
    unfolding map_map by (intro map_cong [OF refl]) simp
  then show ?thesis unfolding eq frame_words_def map_append by (simp only: cycle_word_pad list.map prod.case)
qed

text \<open>C13. The pad-beat change does repair the flush defect: a frame whose last word fills lane 6 or 7
  becomes a frame of full words and one pad byte, and the MAC filter then passes every byte behind
  the Ethernet header, the whole tail included, followed only by the padding zeros.\<close>
theorem pad_beats_repair_flush:
  assumes "ds = a # b # c # es" and "list_all (\<lambda>d. length d = 8) ds" and "is_bytes (concat ds @ t)"
    and "address_match (take 6 a) MAC_ADDR" and "6 < length t" "length t \<le> 8"
    and "mac_quiet s" and "idle_word i1" "idle_word i2" "list_all idle_word rest"
  shows "\<exists>ws. map (\<lambda>(td, tk, tla, f, tv). cycle_word (td, tk, tla, tv, f)) (pad_beats (frame_rows (concat ds @ t) fno)) =
      map Inr ws \<and>
    concat (map enabled (snd (run_loop mac_step s (ws @ i1 # i2 # rest)))) =
      drop 14 (concat ds @ t) @ replicate (9 - length t) 0"
proof -
  let ?t = "t @ replicate (8 - length t) 0" and ?ds = "ds @ [t @ replicate (8 - length t) 0]"
  have "?ds = a # b # c # (es @ [?t])" "list_all (\<lambda>d. length d = 8) ?ds" using assms(1,2,6) by simp_all
  from mac_strips_full [OF assms(7) this assms(4), of "[0]"] assms(8-10)
  have "concat (map enabled (snd (run_loop mac_step s (frame_words ?ds [0] @ i1 # i2 # rest)))) =
      drop 14 (concat ?ds @ [0])" by (simp add: Let_def)
  moreover have "9 - length t = Suc (8 - length t)" using assms(6) by simp
  then have "replicate (8 - length t) 0 @ [0::int] = replicate (9 - length t) 0"
    by (simp only: replicate_Suc replicate_append_same)
  moreover have "14 \<le> length (concat ds)" using assms(1,2) by simp
  ultimately have "concat (map enabled (snd (run_loop mac_step s (frame_words ?ds [0] @ i1 # i2 # rest)))) =
      drop 14 (concat ds @ t) @ replicate (9 - length t) 0" by simp
  then show ?thesis using padded_rows [OF assms(2,3,5,6)] by blast
qed

theorem pad_beats_repair_flush_witness:
  "let i = full_word (replicate 8 0) \<lparr>wvalid := False\<rparr>;
       f = concat [[0, 0x0a, 0x35, 0x18, 0x3c, 0x1f, 0xaa, 0xbb], [0xcc, 0xdd, 0xee, 0xff, 8, 0, 1, 2],
             [3, 4, 5, 6, 7, 8, 9, 10]] @ [11, 12, 13, 14, 15, 16, 17]
   in \<exists>ws. map (\<lambda>(td, tk, tla, f, tv). cycle_word (td, tk, tla, tv, f)) (pad_beats (frame_rows f 0)) = map Inr ws \<and>
      concat (map enabled (snd (run_loop mac_step mac_init (ws @ i # i # [])))) =
        drop 14 f @ replicate (9 - length [11::int, 12, 13, 14, 15, 16, 17]) 0"
  unfolding Let_def
  by (rule pad_beats_repair_flush [OF refl _ _ _ _ _ mac_quiet_init])
    (simp_all add: is_byte_def address_match_def MAC_ADDR_def upt_rec idle_word_def full_word_def word_shape_def)

end
