(* ===== verification/NI_Bursts.thy ===== *)
theory NI_Bursts
  imports NI_Mac
begin

text \<open>
  Bursts: a frame between two filter stages is a run of consecutive valid words, all lanes enabled,
  with an end word behind them whose enabled lanes are a prefix; around it are gaps. This theory
  gives the exact output burst of the MAC filter and of the subframe finder for an input burst, and
  the condition under which the subframe finder raises.
\<close>

section \<open>Bursts\<close>

definition end_word :: "int list \<Rightarrow> nat \<Rightarrow> stream_word" where
  "end_word y k = \<lparr>wdata = y, wvalid = True, wbe = replicate k True @ replicate (8 - k) False,
     weog = True, weob = False\<rparr>"

definition burst :: "int list list \<Rightarrow> int list \<Rightarrow> nat \<Rightarrow> stream_word list" where
  "burst Y y k = map full_word Y @ [end_word y k]"

text \<open>The bytes a burst carries, and its shape.\<close>

definition burst_bytes :: "int list list \<Rightarrow> int list \<Rightarrow> nat \<Rightarrow> int list" where
  "burst_bytes Y y k = concat Y @ take k y"

definition lanes8 :: "int list list \<Rightarrow> int list \<Rightarrow> nat \<Rightarrow> bool" where
  "lanes8 Y y k \<longleftrightarrow> list_all (\<lambda>d. length d = 8) Y \<and> length y = 8 \<and> 0 < k \<and> k \<le> 8"

definition gap_word :: "stream_word \<Rightarrow> bool" where
  "gap_word w \<longleftrightarrow> silent w \<and> wbe w = replicate 8 False \<and> length (wdata w) = 8"

lemma gap_silent: "gap_word w \<Longrightarrow> silent w"
  by (simp add: gap_word_def)

lemma silentD: "silent w \<Longrightarrow> \<not> wvalid w" "silent w \<Longrightarrow> \<not> weog w" "silent w \<Longrightarrow> \<not> weob w"
  by (simp_all add: silent_def)

lemma full_word_sel [simp]: "wdata (full_word d) = d" "wvalid (full_word d)"
  "wbe (full_word d) = replicate 8 True" "\<not> weog (full_word d)" "\<not> weob (full_word d)"
  by (simp_all add: full_word_def)

lemma end_word_sel [simp]: "wdata (end_word y k) = y" "wvalid (end_word y k)"
  "wbe (end_word y k) = replicate k True @ replicate (8 - k) False" "weog (end_word y k)" "\<not> weob (end_word y k)"
  by (simp_all add: end_word_def)

lemma last_end_word: "last_word t = end_word (t @ replicate (8 - length t) 0) (length t)"
  by (simp add: last_word_def end_word_def)

lemma burst_simps: "burst (d # Y) y k = full_word d # burst Y y k" "burst [] y k = [end_word y k]"
  by (simp_all add: burst_def)

lemma enabled_burst: "lanes8 Y y k \<Longrightarrow> concat (map enabled (burst Y y k)) = burst_bytes Y y k"
proof (induction Y)
  case Nil
  then show ?case using enabled_prefix [of "end_word y k" k "8 - k"]
    by (simp add: burst_def burst_bytes_def lanes8_def)
next
  case (Cons d Y)
  then show ?case using enabled_full [of "full_word d"]
    by (simp add: burst_simps burst_bytes_def lanes8_def)
qed

text \<open>Words cut from bytes are determined by them.\<close>

lemma burst_head:
  assumes "lanes8 Y y k" and "burst_bytes Y y k = bs" and "8 < length bs"
  obtains d Y' where "Y = d # Y'" "d = take 8 bs" "lanes8 Y' y k" "burst_bytes Y' y k = drop 8 bs"
proof (cases Y)
  case Nil
  then have "length bs \<le> 8" using assms(1,2) by (auto simp: lanes8_def burst_bytes_def)
  then show thesis using assms(3) by simp
next
  case (Cons d Y')
  then show thesis using assms(1,2) that [OF Cons] by (auto simp: lanes8_def burst_bytes_def)
qed

section \<open>The MAC filter\<close>

lemma mac_mid_burst:
  assumes "mac_mid v a b c s" and "length a = 8" "length b = 8" "length c = 8"
    and "list_all (\<lambda>d. length d = 8) ds" and t: "0 < length t" "length t \<le> 6"
    and idle: "idle_word i1" "idle_word i2"
  shows "\<exists>Y y. lanes8 Y y (2 + length t) \<and>
    burst_bytes Y y (2 + length t) = lanes b c @ drop 6 c @ concat ds @ t \<and>
    mac_quiet (fst (run_loop mac_step s (map full_word ds @ [last_word t, i1, i2]))) \<and>
    snd (run_loop mac_step s (map full_word ds @ [last_word t, i1, i2])) =
      \<lparr>wdata = lanes a b, wvalid = v, wbe = replicate 8 v, weog = False, weob = False\<rparr> #
      burst Y y (2 + length t)"
  using assms(1-5)
proof (induction ds arbitrary: v a b c s)
  case Nil
  let ?y = "lanes c (t @ replicate (8 - length t) 0)"
  have "length ?y = 8" using length_lanes Nil.prems(4) t by simp
  moreover have "take (2 + length t) ?y = drop 6 c @ t" using lanes_tail [OF Nil.prems(4) t(2)] .
  moreover have "length (lanes b c) = 8" using length_lanes Nil.prems(3,4) by blast
  ultimately show ?case using mac_drain_words [OF Nil.prems(1-4) t idle] t
    by (intro exI [of _ "[lanes b c]"] exI [of _ ?y])
      (simp add: lanes8_def burst_bytes_def burst_def full_word_def end_word_def del: run_loop.simps)
next
  case (Cons d ds)
  have d: "length d = 8" "list_all (\<lambda>d. length d = 8) ds" using Cons.prems(5) by simp_all
  note step = mac_mid_step [OF Cons.prems(1,3) d(1)]
  from Cons.IH [OF step [THEN conjunct1] Cons.prems(3,4) d(1,2)]
  obtain Y y where ih: "lanes8 Y y (2 + length t)"
    "burst_bytes Y y (2 + length t) = lanes c d @ drop 6 d @ concat ds @ t"
    "mac_quiet (fst (run_loop mac_step (fst (mac_step s (full_word d))) (map full_word ds @ [last_word t, i1, i2])))"
    "snd (run_loop mac_step (fst (mac_step s (full_word d))) (map full_word ds @ [last_word t, i1, i2])) =
       full_word (lanes b c) # burst Y y (2 + length t)"
    unfolding full_word_def [symmetric] by blast
  have "length (lanes b c) = 8" using length_lanes Cons.prems(3,4) by blast
  moreover have "drop 6 c @ d = lanes c d @ drop 6 d" by (simp add: lanes_def)
  ultimately show ?case using ih step
    by (intro exI [of _ "lanes b c # Y"] exI [of _ y])
      (simp add: Let_def split_beta lanes8_def burst_bytes_def burst_simps)
qed

lemma gap_enables: "silent w \<Longrightarrow> enables_valid w \<Longrightarrow> gap_word w"
  by (simp add: gap_word_def silent_def enables_valid_def word_shape_def)

lemma gaps_enables: "list_all silent ws \<Longrightarrow> list_all enables_valid ws \<Longrightarrow> list_all gap_word ws"
  by (induction ws) (simp_all add: gap_enables)

lemma word_shape_words [simp]: "length d = 8 \<Longrightarrow> word_shape (full_word d)"
  "length t \<le> 8 \<Longrightarrow> word_shape (last_word t)" "idle_word w \<Longrightarrow> word_shape w"
  by (simp_all add: word_shape_def last_word_def idle_word_def)

lemma mac_burst:
  assumes s: "mac_quiet s" "mac_shape s" and ds: "ds = a # b # c # es" "list_all (\<lambda>d. length d = 8) ds"
    and m: "address_match (take 6 a) MAC_ADDR" and t: "0 < length t" "length t \<le> 6"
    and idles: "list_all idle_word (i1 # i2 # rest)"
  shows "\<exists>pre Y y post s'. run_loop mac_step s (frame_words ds t @ i1 # i2 # rest) =
      (s', pre @ burst Y y (2 + length t) @ post) \<and>
    mac_quiet s' \<and> mac_shape s' \<and> lanes8 Y y (2 + length t) \<and>
    burst_bytes Y y (2 + length t) = drop 14 (concat ds @ t) \<and>
    list_all gap_word pre \<and> list_all gap_word post \<and> length post = length rest"
proof -
  have len: "length a = 8" "length b = 8" "length c = 8" "list_all (\<lambda>d. length d = 8) es"
    using ds by simp_all
  have i: "idle_word i1" "idle_word i2" "list_all idle_word rest" using idles by simp_all
  let ?run = "run_loop mac_step"
  define s1 where "s1 = fst (?run s (map full_word [a, b, c]))"
  define o1 where "o1 = snd (?run s (map full_word [a, b, c]))"
  have start: "mac_mid False a b c s1" "list_all silent o1"
    using mac_accept_start [OF s(1) len(1-3) m] unfolding s1_def o1_def by blast+
  define s2 where "s2 = fst (?run s1 (map full_word es @ [last_word t, i1, i2]))"
  let ?w = "\<lparr>wdata = lanes a b, wvalid = False, wbe = replicate 8 False, weog = False, weob = False\<rparr>"
  from mac_mid_burst [OF start(1) len t i(1,2)]
  obtain Y y where Y: "lanes8 Y y (2 + length t)"
    "burst_bytes Y y (2 + length t) = lanes b c @ drop 6 c @ concat es @ t"
    and s2: "mac_quiet s2" and o2: "snd (?run s1 (map full_word es @ [last_word t, i1, i2])) =
      ?w # burst Y y (2 + length t)"
    unfolding s2_def by blast
  define s3 where "s3 = fst (?run s2 rest)"
  define o3 where "o3 = snd (?run s2 rest)"
  have s3: "mac_quiet s3" "list_all silent o3"
    using mac_quiet_idles [OF s2 i(3)] unfolding s3_def o3_def by blast+
  have words: "frame_words ds t @ i1 # i2 # rest =
      map full_word [a, b, c] @ (map full_word es @ [last_word t, i1, i2]) @ rest"
    by (simp add: frame_words_def ds(1))
  have r1: "?run s (map full_word [a, b, c]) = (s1, o1)" by (simp only: s1_def o1_def prod.collapse)
  have r2: "?run s1 (map full_word es @ [last_word t, i1, i2]) = (s2, ?w # burst Y y (2 + length t))"
    by (simp only: s2_def o2 [symmetric] prod.collapse)
  have r3: "?run s2 rest = (s3, o3)" by (simp only: s3_def o3_def prod.collapse)
  have run: "?run s (frame_words ds t @ i1 # i2 # rest) =
      (s3, (o1 @ [?w]) @ burst Y y (2 + length t) @ o3)"
    using run_loop_joined [OF r1 run_loop_joined [OF r2 r3]] by (simp add: words del: run_loop.simps)
  have admissible: "list_all word_shape (frame_words ds t @ i1 # i2 # rest)"
    using ds(2) t i by (auto simp: frame_words_def list_all_iff)
  have shape: "mac_shape s3" using mac.inv_run [OF s(2) admissible] run by simp
  have "list_all enables_valid ((o1 @ [?w]) @ burst Y y (2 + length t) @ o3)"
    using mac.good_run [OF s(2) admissible] run by simp
  then have gaps: "list_all gap_word (o1 @ [?w])" "list_all gap_word o3"
    using start(2) s3(2) by (auto intro!: gaps_enables gap_enables simp: silent_def)
  have len3: "length o3 = length rest" by (simp add: o3_def)
  have bytes: "burst_bytes Y y (2 + length t) = drop 14 (concat ds @ t)"
    using Y(2) len by (simp add: ds(1) lanes_def)
  show ?thesis using run s3(1) shape Y(1) bytes gaps len3 by blast
qed

section \<open>The subframe finder\<close>

text \<open>The registered output word, and what a step does to it.\<close>

definition sub_regs :: "find_subframe \<Rightarrow> stream_word" where
  "sub_regs s = \<lparr>wdata = s_fb6 s, wvalid = s_fb1 s, wbe = s_fb5 s, weog = fst (s_prev_eof s),
     weob = snd (s_prev_eof s)\<rparr>"

lemma sub_step_cases:
  "sub_step s w = Inr (s', out) \<longleftrightarrow> s_fb0 s \<in> {0, 2} \<and> out = sub_regs s \<and>
     s' = \<lparr>s_fb0 = (if (weog w \<or> weob w) \<and> wvalid w then 0
                    else if s_fb0 s = 2 then 2
                    else if take 4 (wdata w) ! 0 = 0x45 \<and> wvalid w
                         then if wdata w ! 2 = 0 \<and> wdata w ! 3 < 46 then 1 else 2 else 0),
           s_fb1 = wvalid w, s_fb5 = wbe w, s_fb6 = wdata w, s_prev_eof = (weog w, weob w)\<rparr>"
  by (auto simp: sub_step_def sub_regs_def Let_def)

lemma sub_regs_next: "sub_step s w = Inr (s', out) \<Longrightarrow> sub_regs s' = w"
  unfolding sub_step_cases by (simp add: sub_regs_def)

lemma sub_delay:
  "run_result sub_step s ws = Inr (s', outs) \<Longrightarrow> outs @ [sub_regs s'] = sub_regs s # ws"
proof (induction ws arbitrary: s outs)
  case (Cons w ws)
  then obtain s1 out outs1 where "sub_step s w = Inr (s1, out)" "outs = out # outs1"
    "run_result sub_step s1 ws = Inr (s', outs1)" by (auto simp: bind_result_Inr)
  with Cons.IH [of s1 outs1] show ?case using sub_regs_next [of s w s1 out] by (auto simp: sub_step_cases)
qed simp

text \<open>Where the finder's state goes: over gaps it waits, over a frame it follows the words.\<close>

lemma sub_gaps: "s_fb0 s = 0 \<Longrightarrow> list_all silent ws \<Longrightarrow>
  \<exists>s' outs. run_result sub_step s ws = Inr (s', outs) \<and> s_fb0 s' = 0"
proof (induction ws arbitrary: s)
  case (Cons w ws)
  define s1 where "s1 = \<lparr>s_fb0 = 0, s_fb1 = wvalid w, s_fb5 = wbe w, s_fb6 = wdata w, s_prev_eof = (weog w, weob w)\<rparr>"
  have "sub_step s w = Inr (s1, sub_regs s)"
    using Cons.prems by (simp add: sub_step_cases s1_def silent_def)
  then show ?case using Cons.IH [of s1] Cons.prems by (auto simp: s1_def)
qed simp

lemma sub_frame: "s_fb0 s = 2 \<Longrightarrow> \<exists>s' outs. run_result sub_step s (burst Y y k) = Inr (s', outs) \<and> s_fb0 s' = 0"
proof (induction Y arbitrary: s)
  case Nil
  then have "sub_step s (end_word y k) = Inr (\<lparr>s_fb0 = 0, s_fb1 = True, s_fb5 = wbe (end_word y k), s_fb6 = y,
      s_prev_eof = (True, False)\<rparr>, sub_regs s)" by (simp add: sub_step_cases)
  then show ?case by (simp add: burst_simps)
next
  case (Cons d Y)
  define s1 where "s1 = \<lparr>s_fb0 = 2, s_fb1 = True, s_fb5 = replicate 8 True, s_fb6 = d, s_prev_eof = (False, False)\<rparr>"
  have "sub_step s (full_word d) = Inr (s1, sub_regs s)"
    using Cons.prems by (simp add: sub_step_cases s1_def)
  then show ?case using Cons.IH [of s1] by (auto simp: burst_simps s1_def)
qed

text \<open>A whole burst with an IPv4 header that is not a small packet passes unchanged, one cycle late.\<close>

definition ipv4_not_small :: "int list \<Rightarrow> bool" where
  "ipv4_not_small h \<longleftrightarrow> h ! 0 = 0x45 \<and> \<not> (h ! 2 = 0 \<and> h ! 3 < 46)"

lemma sub_burst:
  assumes s: "s_fb0 s = 0" and pre: "list_all silent pre" and post: "list_all silent post"
    and h: "ipv4_not_small h" and Y: "Y = h # Y'"
  shows "\<exists>s' outs. run_result sub_step s (pre @ burst Y y k @ post) = Inr (s', outs) \<and> s_fb0 s' = 0 \<and>
    outs @ [sub_regs s'] = sub_regs s # pre @ burst Y y k @ post"
proof -
  obtain s1 o1 where r1: "run_result sub_step s pre = Inr (s1, o1)" "s_fb0 s1 = 0"
    using sub_gaps [OF s pre] by blast
  define s2 where "s2 = \<lparr>s_fb0 = 2, s_fb1 = True, s_fb5 = replicate 8 True, s_fb6 = h, s_prev_eof = (False, False)\<rparr>"
  have "sub_step s1 (full_word h) = Inr (s2, sub_regs s1)"
    using h r1(2) by (auto simp: sub_step_cases s2_def ipv4_not_small_def)
  then have r2: "run_result sub_step s1 [full_word h] = Inr (s2, [sub_regs s1])" by simp
  obtain s3 o3 where r3: "run_result sub_step s2 (burst Y' y k) = Inr (s3, o3)" "s_fb0 s3 = 0"
    using sub_frame [of s2 Y' y k] by (auto simp: s2_def)
  obtain s4 o4 where r4: "run_result sub_step s3 post = Inr (s4, o4)" "s_fb0 s4 = 0"
    using sub_gaps [OF r3(2) post] by blast
  have "run_result sub_step s (pre @ burst Y y k @ post) = Inr (s4, o1 @ [sub_regs s1] @ o3 @ o4)"
    using run_result_joined [OF r1(1) run_result_joined [OF r2 run_result_joined [OF r3(1) r4(1)]]]
    by (simp add: Y burst_simps del: run_result.simps)
  with r4(2) sub_delay [OF this] show ?thesis by blast
qed

lemma sub_small_raises:
  assumes s: "s_fb0 s = 0" and pre: "list_all silent pre"
    and w: "wvalid w" "\<not> weog w" "\<not> weob w" "wdata w ! 0 = 0x45" "wdata w ! 2 = 0" "wdata w ! 3 < 46"
  shows "run_result sub_step s (pre @ w # v # post) = Inl NotImplementedError"
proof -
  obtain s1 o1 where r1: "run_result sub_step s pre = Inr (s1, o1)" "s_fb0 s1 = 0"
    using sub_gaps [OF s pre] by blast
  then show ?thesis using w by (simp add: run_result_append sub_step_def Let_def)
qed

section \<open>Properties\<close>

text \<open>The subframe finder stops the whole model on a small packet: when the first word of an IPv4 packet
  announces a total length below 46 and is not the packet's last word, the cycle after it raises
  \<open>NotImplementedError\<close>, whatever comes then. (Every minimum-size Ethernet frame with a short
  datagram is such a packet.)\<close>
theorem finder_small_raises:
  assumes "s_fb0 s = 0" and "list_all silent pre"
    and "wvalid w" "\<not> weog w" "\<not> weob w" "wdata w ! 0 = 0x45" "wdata w ! 2 = 0" "wdata w ! 3 < 46"
  shows "run_result sub_step s (pre @ w # v # post) = Inl NotImplementedError"
  by (rule sub_small_raises [OF assms])

theorem finder_small_raises_witness:
  "run_result sub_step sub_init ([] @ full_word [0x45, 0, 0, 45, 0, 1, 0, 0] # last_word [1] # []) =
     Inl NotImplementedError"
  by (rule finder_small_raises) (simp_all add: sub_init_def)

end
