(* ===== verification/NI_Ip.thy ===== *)
theory NI_Ip
  imports NI_Bursts
begin

text \<open>
  What the IPv4 filter of \<open>ni_stream_model.py\<close> does to whole packets: it strips the 20-byte header of
  a packet for the board's address and latches its fields, drops a packet for another address, and
  stops for good when a packet ends in, or a gap falls into, the third header word.
\<close>

section \<open>Between packets\<close>

text \<open>Nothing valid in the output registers and nothing about to become valid.\<close>

definition ip_dead :: "ipv4_filter \<Rightarrow> bool" where
  "ip_dead s \<longleftrightarrow> \<not> r_ipd (i_fb2 s) \<and> \<not> i_fb6 s \<and> i_fb7 s = (False, False) \<and> i_fb8 s = (False, False)"

definition ip_quiet :: "ipv4_filter \<Rightarrow> bool" where
  "ip_quiet s \<longleftrightarrow> i_fb0 s = 0 \<and> ip_dead s"

lemma ip_S_sel [simp]:
  "\<not> r_ipd ip_S0" "\<not> r_ipd ip_S1" "\<not> r_ipd ip_S2" "r_ipd ip_S3"
  "r_adv ip_S0" "r_adv ip_S1" "r_adv ip_S2" "\<not> r_adv ip_S3"
  "r_h1 ip_S0" "\<not> r_h1 ip_S1" "\<not> r_h1 ip_S2" "\<not> r_h1 ip_S3"
  "\<not> r_h2 ip_S0" "r_h2 ip_S1" "\<not> r_h2 ip_S2" "\<not> r_h2 ip_S3"
  by (simp_all add: ip_S0_def ip_S1_def ip_S2_def ip_S3_def)

lemma ip_and_sel [simp]:
  "r_ipd (ip_and b r) = (b \<and> r_ipd r)" "r_h1 (ip_and b r) = (b \<and> r_h1 r)"
  "r_h2 (ip_and b r) = (b \<and> r_h2 r)" "ip_and True r = r"
  by (simp_all add: ip_and_def)

abbreviation ip_out :: "ipv4_filter \<Rightarrow> stream_word \<Rightarrow> stream_word" where
  "ip_out s w \<equiv> fst (snd (ip_step s w))"

abbreviation ip_next :: "ipv4_filter \<Rightarrow> stream_word \<Rightarrow> ipv4_filter" where
  "ip_next s w \<equiv> fst (ip_step s w)"

lemma ip_quiet_init: "ip_quiet ip_init"
  by (simp add: ip_quiet_def ip_dead_def ip_init_def)

lemma ip_quiet_gap:
  "ip_quiet s \<Longrightarrow> silent w \<Longrightarrow> ip_quiet (ip_next s w) \<and> silent (ip_out s w)"
  by (simp add: ip_quiet_def ip_dead_def silent_def ip_step_def Let_def)

lemma ip_quiet_gaps:
  "ip_quiet s \<Longrightarrow> list_all silent ws \<Longrightarrow> ip_quiet (fst (run_loop ip_step s ws)) \<and>
   list_all silent (map fst (snd (run_loop ip_step s ws)))"
  by (induction ws arbitrary: s) (simp_all add: Let_def split_beta ip_quiet_gap)

section \<open>A packet for the board\<close>

definition quads :: "int list \<Rightarrow> int list \<Rightarrow> int list" where
  "quads a b = drop 4 a @ take 4 b"

lemma length_quads: "length a = 8 \<Longrightarrow> length b = 8 \<Longrightarrow> length (quads a b) = 8"
  by (simp add: quads_def)

lemma slice_quads: "length a = 8 \<Longrightarrow> py_slice 4 12 (a @ b) = quads a b"
  by (simp add: py_slice_def quads_def)

lemma slice_second: "length a = 8 \<Longrightarrow> length b = 8 \<Longrightarrow> py_slice 8 16 (a @ b) = b"
  by (simp add: py_slice_def)

lemma slice_quads_enables: "py_slice 4 12 (replicate 8 True @ replicate 8 True) = replicate 8 True"
  by (simp add: py_slice_def flip: replicate_add)

text \<open>In an accepted packet whose header words are \<open>h0\<close>, \<open>h1\<close>: the last two words are \<open>a\<close> and
  \<open>b\<close>; \<open>v\<close> and \<open>p\<close> are the valid flags of this and the next output word, \<open>z\<close> is this one's data.\<close>

definition ip_mid :: "int list \<Rightarrow> int list \<Rightarrow> bool \<Rightarrow> bool \<Rightarrow> int list \<Rightarrow> int list \<Rightarrow> int list \<Rightarrow> ipv4_filter \<Rightarrow> bool" where
  "ip_mid h0 h1 v p z a b s \<longleftrightarrow> i_fb0 s = 3 \<and> i_fb1 s \<and> r_ipd (i_fb2 s) = p \<and> \<not> r_h1 (i_fb2 s) \<and>
     \<not> r_h2 (i_fb2 s) \<and> i_fb5 s = h0 \<and> i_fb4 s = h1 \<and> i_fb6 s = v \<and> i_fb7 s = (False, False) \<and>
     i_fb8 s = (False, False) \<and> i_fb18 s = b \<and> i_fb19 s = a \<and> i_fb20 s = replicate 8 True \<and>
     i_fb21 s = replicate 8 True \<and> i_fb22 s = [ip_S3, ip_S3, ip_S3] \<and> i_fb23 s = z \<and>
     (v \<longrightarrow> i_fb24 s = replicate 8 True)"

text \<open>The header fields the UDP stage reads.\<close>

definition fields_of :: "int list \<Rightarrow> int list \<Rightarrow> ip_header \<Rightarrow> bool" where
  "fields_of h0 h1 hdr \<longleftrightarrow> h_ident hdr = push_bit 8 (h0 ! 4) OR h0 ! 5 \<and>
     h_flags hdr = drop_bit 5 (h0 ! 6) AND 7 \<and> h_frag hdr = push_bit 8 (h0 ! 6 AND 0x1F) OR h0 ! 7 \<and>
     h_proto hdr = h1 ! 1"

lemma ip_mid_fields: "ip_mid h0 h1 v p z a b s \<Longrightarrow> fields_of h0 h1 (ip_header_of s)"
  by (simp add: ip_mid_def fields_of_def ip_header_of_def Let_def)

lemma ip_step_header: "snd (snd (ip_step s w)) = ip_header_of s"
  by (simp add: ip_step_def Let_def split_beta)

lemma ip_accept_start:
  assumes "ip_quiet s" and "ip_shape s" and "length h0 = 8" "length h1 = 8" "length h2 = 8" and "h0 ! 0 = 0x45"
    and "address_match h2 IP_ADDR"
  shows "\<exists>z. ip_mid h0 h1 False False z h1 h2 (fst (run_loop ip_step s (map full_word [h0, h1, h2]))) \<and>
    list_all silent (map fst (snd (run_loop ip_step s (map full_word [h0, h1, h2]))))"
  using assms
  by (simp add: ip_quiet_def ip_dead_def ip_shape_def ip_mid_def silent_def ip_step_def Let_def full_word_def
      slice_quads slice_second)

text \<open>What a cycle in the middle puts out.\<close>

definition emits :: "bool \<Rightarrow> int list \<Rightarrow> stream_word \<Rightarrow> bool" where
  "emits v z w \<longleftrightarrow> (if v then w = full_word z else silent w)"

lemma ip_mid_out: "ip_mid h0 h1 v p z a b s \<Longrightarrow> emits v z (ip_out s w)"
  by (simp add: ip_mid_def emits_def silent_def full_word_def ip_step_def Let_def split_beta)

lemma ip_mid_step:
  assumes "ip_mid h0 h1 v p z a b s" and "length a = 8" "length b = 8"
  shows "ip_mid h0 h1 p True (quads a b) b d (ip_next s (full_word d))"
  using assms
  by (simp add: ip_mid_def ip_step_def Let_def slice_quads slice_quads_enables)

text \<open>The last word: with at most four enabled lanes it ends the packet, with more a purge follows.\<close>

lemma lane_flags_ip:
  "k \<le> 8 \<Longrightarrow> any_lane (replicate k True @ replicate (8 - k) False) [4, 5, 6, 7] \<longleftrightarrow> 4 < k"
  by (auto simp: any_lane_def nth_append)

definition ip_flush :: "bool \<Rightarrow> bool \<Rightarrow> int list \<Rightarrow> bool list \<Rightarrow> int list \<Rightarrow> int list \<Rightarrow> bool list \<Rightarrow> ipv4_filter \<Rightarrow> bool" where
  "ip_flush v p z bez a b beb s \<longleftrightarrow> r_ipd (i_fb2 s) \<and> i_fb6 s = p \<and> i_fb8 s = (False, False) \<and>
     i_fb18 s = b \<and> i_fb19 s = a \<and> i_fb20 s = beb \<and> i_fb21 s = replicate 8 True \<and> i_fb23 s = z \<and>
     (p \<longrightarrow> i_fb24 s = bez) \<and> (if v then i_fb0 s = 0 \<and> i_fb7 s = (True, False)
       else i_fb0 s = 4 \<and> i_fb7 s = (False, False) \<and> i_fb9 s = (True, False))"

lemma ip_mid_end:
  assumes "ip_mid h0 h1 v p z a b s" and "length a = 8" "length b = 8" and "0 < k" "k \<le> 8"
  shows "ip_flush (k \<le> 4) p (quads a b) (replicate 8 True) b x
    (replicate k True @ replicate (8 - k) False) (ip_next s (end_word x k))"
  using assms lane_flags_ip [of k]
  by (simp add: ip_mid_def ip_flush_def ip_step_def Let_def slice_quads slice_quads_enables not_le)

lemma slice_end_enables:
  "k \<le> 4 \<Longrightarrow> py_slice 4 12 (replicate 8 True @ replicate k True @ replicate (8 - k) False) =
     replicate (4 + k) True @ replicate (8 - (4 + k)) False"
  "4 < k \<Longrightarrow> k \<le> 8 \<Longrightarrow> py_slice 4 12 (replicate 8 True @ replicate k True @ replicate (8 - k) False) = replicate 8 True"
  "4 < k \<Longrightarrow> k \<le> 8 \<Longrightarrow> py_slice 4 12 ((replicate k True @ replicate (8 - k) False) @ replicate 8 False) =
     replicate (k - 4) True @ replicate (8 - (k - 4)) False"
  by (intro nth_equalityI; auto simp: py_slice_def nth_append min_def)+

lemma ip_flush_small:
  assumes "ip_flush True p z (replicate 8 True) a b (replicate k True @ replicate (8 - k) False) s"
    and "length a = 8" "length b = 8" and "k \<le> 4" and "silent g1" "silent g2"
  shows "ip_quiet (ip_next (ip_next s g1) g2) \<and> emits p z (ip_out s g1) \<and>
    ip_out (ip_next s g1) g2 = end_word (quads a b) (4 + k)"
  using assms slice_end_enables(1) [OF assms(4)]
  by (simp add: ip_flush_def ip_quiet_def ip_dead_def emits_def full_word_def silent_def ip_step_def Let_def
      end_word_def slice_quads split_beta)

lemma ip_flush_purge:
  assumes "ip_flush False p z (replicate 8 True) a b (replicate k True @ replicate (8 - k) False) s"
    and "length a = 8" "length b = 8" and "4 < k" "k \<le> 8" and "gap_word g1" "silent g2" "silent g3"
  shows "ip_quiet (ip_next (ip_next (ip_next s g1) g2) g3) \<and> emits p z (ip_out s g1) \<and>
    ip_out (ip_next s g1) g2 = full_word (quads a b) \<and>
    ip_out (ip_next (ip_next s g1) g2) g3 = end_word (quads b (wdata g1)) (k - 4)"
proof -
  define s1 where "s1 = ip_next s g1"
  define s2 where "s2 = ip_next s1 g2"
  have g: "\<not> wvalid g1" "\<not> weog g1" "\<not> weob g1" "wbe g1 = replicate 8 False" "length (wdata g1) = 8"
    "\<not> wvalid g2" "\<not> weog g2" "\<not> weob g2" "\<not> wvalid g3" "\<not> weog g3" "\<not> weob g3"
    using assms(6-8) by (simp_all add: gap_word_def silent_def)
  note sl = slice_end_enables(2,3) [OF assms(4,5)]
  have s1: "i_fb0 s1 = 0" "r_ipd (i_fb2 s1)" "i_fb6 s1" "i_fb7 s1 = (True, False)" "i_fb8 s1 = (False, False)"
    "i_fb18 s1 = wdata g1" "i_fb19 s1 = b" "i_fb20 s1 = replicate 8 False"
    "i_fb21 s1 = replicate k True @ replicate (8 - k) False" "i_fb23 s1 = quads a b" "i_fb24 s1 = replicate 8 True"
    and o1: "emits p z (ip_out s g1)"
    using assms(1-5) g sl unfolding s1_def
    by (simp_all add: ip_flush_def emits_def full_word_def silent_def ip_step_def Let_def slice_quads)
  have s2: "i_fb0 s2 = 0" "\<not> r_ipd (i_fb2 s2)" "i_fb6 s2" "i_fb7 s2 = (False, False)" "i_fb8 s2 = (True, False)"
    "i_fb23 s2 = quads b (wdata g1)" "i_fb24 s2 = replicate (k - 4) True @ replicate (8 - (k - 4)) False"
    and o2: "ip_out s1 g2 = full_word (quads a b)"
    using s1 g sl assms(3,5) unfolding s2_def
    by (simp_all add: full_word_def ip_step_def Let_def slice_quads)
  have "ip_quiet (ip_next s2 g3)" "ip_out s2 g3 = end_word (quads b (wdata g1)) (k - 4)"
    using s2 g by (simp_all add: ip_quiet_def ip_dead_def end_word_def ip_step_def Let_def)
  then show ?thesis using o1 o2 by (simp only: s1_def s2_def)
qed

text \<open>From the middle of an accepted packet to its end.\<close>

abbreviation ip_outs :: "ipv4_filter \<Rightarrow> stream_word list \<Rightarrow> stream_word list" where
  "ip_outs s ws \<equiv> map fst (snd (run_loop ip_step s ws))"

lemma run_step [simp]:
  "fst (run_loop f s (w # ws)) = fst (run_loop f (fst (f s w)) ws)"
  "snd (run_loop f s (w # ws)) = snd (f s w) # snd (run_loop f (fst (f s w)) ws)"
  by (simp_all add: Let_def split_beta)

text \<open>The end of a packet: with up to four bytes in its last word the filter needs one more cycle, with
  more of them two.\<close>

lemma ip_end_small:
  assumes mid: "ip_mid h0 h1 True True z a b s" and len: "length z = 8" "length a = 8" "length b = 8"
    and k: "0 < k" "k \<le> 4" "length x = 8" and g: "list_all gap_word (g1 # g2 # g3 # gs)"
  shows "\<exists>Y y k' post. ip_outs s (burst [] x k @ g1 # g2 # g3 # gs) = burst Y y k' @ post \<and>
    lanes8 Y y k' \<and> burst_bytes Y y k' = z @ quads a b @ drop 4 b @ burst_bytes [] x k \<and>
    list_all silent post \<and> ip_quiet (fst (run_loop ip_step s (burst [] x k @ g1 # g2 # g3 # gs)))"
proof -
  note run_loop.simps(2) [simp del]
  have gs: "silent g1" "silent g2" "list_all silent (g3 # gs)" using g by (auto simp: gap_word_def list_all_iff)
  define s1 where "s1 = ip_next s (end_word x k)"
  have "ip_flush (k \<le> 4) True (quads a b) (replicate 8 True) b x (replicate k True @ replicate (8 - k) False) s1"
    unfolding s1_def by (rule ip_mid_end [OF mid len(2,3) k(1)]) (use k in simp)
  from ip_flush_small [of True "quads a b" b x k s1 g1 g2] this k len(3) gs
  have f: "ip_quiet (ip_next (ip_next s1 g1) g2)" "ip_out s1 g1 = full_word (quads a b)"
    "ip_out (ip_next s1 g1) g2 = end_word (quads b x) (4 + k)"
    by (simp_all add: emits_def)
  have o0: "ip_out s (end_word x k) = full_word z" using ip_mid_out [OF mid] by (simp add: emits_def)
  have "ip_outs s (burst [] x k @ g1 # g2 # g3 # gs) =
      burst [z, quads a b] (quads b x) (4 + k) @ ip_outs (ip_next (ip_next s1 g1) g2) (g3 # gs)"
    using o0 f by (simp add: burst_simps flip: s1_def)
  moreover have "fst (run_loop ip_step s (burst [] x k @ g1 # g2 # g3 # gs)) =
      fst (run_loop ip_step (ip_next (ip_next s1 g1) g2) (g3 # gs))"
    by (simp add: burst_simps s1_def)
  moreover have "burst_bytes [z, quads a b] (quads b x) (4 + k) = z @ quads a b @ drop 4 b @ burst_bytes [] x k"
    using len(3) k(2) by (simp add: burst_bytes_def quads_def)
  moreover have "lanes8 [z, quads a b] (quads b x) (4 + k)"
    using len length_quads k by (simp add: lanes8_def)
  ultimately show ?thesis using ip_quiet_gaps [OF f(1) gs(3)] by metis
qed

lemma ip_end_purge:
  assumes mid: "ip_mid h0 h1 True True z a b s" and len: "length z = 8" "length a = 8" "length b = 8"
    and k: "4 < k" "k \<le> 8" "length x = 8" and g: "list_all gap_word (g1 # g2 # g3 # gs)"
  shows "\<exists>Y y k' post. ip_outs s (burst [] x k @ g1 # g2 # g3 # gs) = burst Y y k' @ post \<and>
    lanes8 Y y k' \<and> burst_bytes Y y k' = z @ quads a b @ drop 4 b @ burst_bytes [] x k \<and>
    list_all silent post \<and> ip_quiet (fst (run_loop ip_step s (burst [] x k @ g1 # g2 # g3 # gs)))"
proof -
  note run_loop.simps(2) [simp del]
  have gs: "silent g1" "silent g2" "silent g3" "list_all silent gs" "gap_word g1" "length (wdata g1) = 8"
    using g by (auto simp: gap_word_def list_all_iff)
  define s1 where "s1 = ip_next s (end_word x k)"
  have "ip_flush (k \<le> 4) True (quads a b) (replicate 8 True) b x (replicate k True @ replicate (8 - k) False) s1"
    unfolding s1_def by (rule ip_mid_end [OF mid len(2,3) _ k(2)]) (use k in simp)
  from ip_flush_purge [of True "quads a b" b x k s1 g1 g2 g3] this k len(3) gs
  have f: "ip_quiet (ip_next (ip_next (ip_next s1 g1) g2) g3)" "ip_out s1 g1 = full_word (quads a b)"
    "ip_out (ip_next s1 g1) g2 = full_word (quads b x)"
    "ip_out (ip_next (ip_next s1 g1) g2) g3 = end_word (quads x (wdata g1)) (k - 4)"
    by (simp_all add: emits_def)
  have o0: "ip_out s (end_word x k) = full_word z" using ip_mid_out [OF mid] by (simp add: emits_def)
  have "ip_outs s (burst [] x k @ g1 # g2 # g3 # gs) =
      burst [z, quads a b, quads b x] (quads x (wdata g1)) (k - 4) @
      ip_outs (ip_next (ip_next (ip_next s1 g1) g2) g3) gs"
    using o0 f by (simp add: burst_simps flip: s1_def)
  moreover have "fst (run_loop ip_step s (burst [] x k @ g1 # g2 # g3 # gs)) =
      fst (run_loop ip_step (ip_next (ip_next (ip_next s1 g1) g2) g3) gs)"
    by (simp add: burst_simps s1_def)
  moreover have "take 4 x @ take (k - 4) (drop 4 x) = take k x"
    using take_append_drop_take [of 4 k x] k(1) by simp
  then have "burst_bytes [z, quads a b, quads b x] (quads x (wdata g1)) (k - 4) =
      z @ quads a b @ drop 4 b @ burst_bytes [] x k"
    using len(3) k by (simp add: burst_bytes_def quads_def)
  moreover have "lanes8 [z, quads a b, quads b x] (quads x (wdata g1)) (k - 4)"
    using len length_quads gs(6) k by (simp add: lanes8_def)
  ultimately show ?thesis using ip_quiet_gaps [OF f(1) gs(4)] by metis
qed

lemma ip_mid_burst:
  assumes "ip_mid h0 h1 True True z a b s" and "length z = 8" "length a = 8" "length b = 8"
    and "lanes8 Ds x k" and g: "list_all gap_word (g1 # g2 # g3 # gs)"
  shows "\<exists>Y y k' post. ip_outs s (burst Ds x k @ g1 # g2 # g3 # gs) = burst Y y k' @ post \<and>
    lanes8 Y y k' \<and> burst_bytes Y y k' = z @ quads a b @ drop 4 b @ burst_bytes Ds x k \<and>
    list_all silent post \<and> ip_quiet (fst (run_loop ip_step s (burst Ds x k @ g1 # g2 # g3 # gs)))"
  using assms(1-5)
proof (induction Ds arbitrary: z a b s)
  case Nil
  have k: "0 < k" "k \<le> 8" "length x = 8" using Nil.prems(5) by (simp_all add: lanes8_def)
  show ?case
    using ip_end_small [OF Nil.prems(1-4) k(1) _ k(3) g] ip_end_purge [OF Nil.prems(1-4) _ k(2,3) g]
    by (cases "k \<le> 4") auto
next
  case (Cons d Ds)
  note run_loop.simps(2) [simp del]
  have d: "length d = 8" "lanes8 Ds x k" using Cons.prems(5) by (simp_all add: lanes8_def)
  let ?s = "ip_next s (full_word d)"
  have mid: "ip_mid h0 h1 True True (quads a b) b d ?s" by (rule ip_mid_step [OF Cons.prems(1,3,4)])
  from Cons.IH [OF mid length_quads [OF Cons.prems(3,4)] Cons.prems(4) d]
  obtain Y y k' post where ih: "ip_outs ?s (burst Ds x k @ g1 # g2 # g3 # gs) = burst Y y k' @ post"
    "lanes8 Y y k'" "burst_bytes Y y k' = quads a b @ quads b d @ drop 4 d @ burst_bytes Ds x k"
    "list_all silent post" "ip_quiet (fst (run_loop ip_step ?s (burst Ds x k @ g1 # g2 # g3 # gs)))"
    by blast
  have o0: "ip_out s (full_word d) = full_word z"
    using ip_mid_out [OF Cons.prems(1)] by (simp add: emits_def)
  have "ip_outs s (burst (d # Ds) x k @ g1 # g2 # g3 # gs) = burst (z # Y) y k' @ post"
    using o0 ih(1) by (simp add: burst_simps)
  moreover have "lanes8 (z # Y) y k'" using ih(2) Cons.prems(2) by (simp add: lanes8_def)
  moreover have "drop 4 b @ d = quads b d @ drop 4 d" by (simp add: quads_def)
  then have "burst_bytes (z # Y) y k' = z @ quads a b @ drop 4 b @ burst_bytes (d # Ds) x k"
    using ih(3) by (simp add: burst_bytes_def)
  ultimately show ?case using ih(4,5)
    by (intro exI [of _ "z # Y"] exI [of _ y] exI [of _ k'] exI [of _ post]) (simp add: burst_simps)
qed

section \<open>Whole packets\<close>

lemma word_shape_gap: "gap_word w \<Longrightarrow> word_shape w"
  by (simp add: gap_word_def word_shape_def)

lemma word_shape_burst: "lanes8 Y y k \<Longrightarrow> list_all word_shape (burst Y y k)"
  by (induction Y) (auto simp: burst_simps lanes8_def word_shape_def)

lemma gaps_silent: "list_all gap_word ws \<Longrightarrow> list_all silent ws"
  by (auto simp: list_all_iff gap_word_def)

lemma address_match_take: "length addr \<le> n \<Longrightarrow> address_match (take n xs) addr = address_match xs addr"
  by (auto simp: address_match_def list_all_iff)

text \<open>The bytes of an IPv4 packet the filter accepts; \<open>ip_fields\<close> is what it latches of them.\<close>

definition ip_accepts :: "int list \<Rightarrow> bool" where
  "ip_accepts bs \<longleftrightarrow> bs ! 0 = 0x45 \<and> address_match (drop 16 bs) IP_ADDR"

definition ip_fields :: "int list \<Rightarrow> ip_header \<Rightarrow> bool" where
  "ip_fields bs hdr \<longleftrightarrow> fields_of (take 8 bs) (take 8 (drop 8 bs)) hdr"

text \<open>The first five words of a packet are latched or held back.\<close>

lemma five_heads:
  assumes "lanes8 H x k" and "burst_bytes H x k = bs" and "40 < length bs"
  obtains D where "H = take 8 bs # take 8 (drop 8 bs) # take 8 (drop 16 bs) # take 8 (drop 24 bs) # take 8 (drop 32 bs) # D"
    "lanes8 D x k" "burst_bytes D x k = drop 40 bs"
proof -
  obtain H0 where H0: "H = take 8 bs # H0" "lanes8 H0 x k" "burst_bytes H0 x k = drop 8 bs"
    using burst_head [OF assms(1,2)] assms(3) by force
  obtain H1 where H1: "H0 = take 8 (drop 8 bs) # H1" "lanes8 H1 x k" "burst_bytes H1 x k = drop 16 bs"
    using burst_head [OF H0(2,3)] assms(3) by force
  obtain H2 where H2: "H1 = take 8 (drop 16 bs) # H2" "lanes8 H2 x k" "burst_bytes H2 x k = drop 24 bs"
    using burst_head [OF H1(2,3)] assms(3) by force
  obtain H3 where H3: "H2 = take 8 (drop 24 bs) # H3" "lanes8 H3 x k" "burst_bytes H3 x k = drop 32 bs"
    using burst_head [OF H2(2,3)] assms(3) by force
  obtain H4 where H4: "H3 = take 8 (drop 32 bs) # H4" "lanes8 H4 x k" "burst_bytes H4 x k = drop 40 bs"
    using burst_head [OF H3(2,3)] assms(3) by force
  show thesis by (rule that [of H4]) (simp_all add: H0(1) H1(1) H2(1) H3(1) H4)
qed

lemma ip_front:
  assumes "ip_quiet s" "ip_shape s" and len: "length h0 = 8" "length h1 = 8" "length h2 = 8" "length d1 = 8" "length d2 = 8"
    and acc: "h0 ! 0 = 0x45" "address_match h2 IP_ADDR"
  shows "\<exists>s' out. run_loop ip_step s (map full_word [h0, h1, h2, d1, d2]) = (s', out) \<and>
    ip_mid h0 h1 True True (quads h2 d1) d1 d2 s' \<and> list_all silent (map fst out)"
proof -
  note run_loop.simps(2) [simp del]
  obtain s2 out2 where r2: "run_loop ip_step s (map full_word [h0, h1, h2]) = (s2, out2)" by (metis surj_pair)
  from ip_accept_start [OF assms(1,2) len(1-3) acc] obtain z where
    mid2: "ip_mid h0 h1 False False z h1 h2 s2" and out2: "list_all silent (map fst out2)" unfolding r2 by auto
  have mid3: "ip_mid h0 h1 False True (quads h1 h2) h2 d1 (ip_next s2 (full_word d1))"
    by (rule ip_mid_step [OF mid2 len(2,3)])
  have mid4: "ip_mid h0 h1 True True (quads h2 d1) d1 d2 (ip_next (ip_next s2 (full_word d1)) (full_word d2))"
    by (rule ip_mid_step [OF mid3 len(3,4)])
  have "run_loop ip_step s2 [full_word d1, full_word d2] = (ip_next (ip_next s2 (full_word d1)) (full_word d2),
      [snd (ip_step s2 (full_word d1)), snd (ip_step (ip_next s2 (full_word d1)) (full_word d2))])"
    by (simp add: run_loop.simps(2) Let_def split_beta)
  from run_loop_joined [OF r2 this] mid4 out2 show ?thesis
    using ip_mid_out [OF mid2] ip_mid_out [OF mid3] by (auto simp: emits_def)
qed

lemma ip_packet:
  assumes s: "ip_quiet s" "ip_shape s" and pre: "list_all gap_word pre"
    and H: "lanes8 H x k" "burst_bytes H x k = bs" "40 < length bs" and acc: "ip_accepts bs"
    and g: "list_all gap_word (g1 # g2 # g3 # gs)"
  shows "\<exists>s' Opre Orest Y y k' post. run_loop ip_step s (pre @ burst H x k @ g1 # g2 # g3 # gs) = (s', Opre @ Orest) \<and>
    ip_quiet s' \<and> ip_shape s' \<and> list_all silent (map fst Opre) \<and>
    map fst Orest = burst Y y k' @ post \<and> list_all silent post \<and>
    lanes8 Y y k' \<and> burst_bytes Y y k' = drop 20 bs \<and> ip_fields bs (snd (hd Orest))"
proof -
  note run_loop.simps(2) [simp del]
  let ?run = "run_loop ip_step"
  let ?h0 = "take 8 bs" and ?h1 = "take 8 (drop 8 bs)" and ?h2 = "take 8 (drop 16 bs)"
  let ?d1 = "take 8 (drop 24 bs)" and ?d2 = "take 8 (drop 32 bs)"
  obtain D where D: "H = ?h0 # ?h1 # ?h2 # ?d1 # ?d2 # D" "lanes8 D x k" "burst_bytes D x k = drop 40 bs"
    by (rule five_heads [OF H])
  have len: "length ?h0 = 8" "length ?h1 = 8" "length ?h2 = 8" "length ?d1 = 8" "length ?d2 = 8" using H(3) by simp_all
  obtain s1 out1 where r1: "?run s pre = (s1, out1)" by (metis surj_pair)
  have s1: "ip_quiet s1" "list_all silent (map fst out1)"
    using ip_quiet_gaps [OF s(1) gaps_silent [OF pre]] unfolding r1 by simp_all
  have "ip_shape (fst (?run s pre))"
    by (rule ip.inv_run [OF s(2)]) (use pre word_shape_gap in \<open>auto simp: list_all_iff\<close>)
  then have shape1: "ip_shape s1" by (simp add: r1)
  have "?h0 ! 0 = 0x45" "address_match ?h2 IP_ADDR"
    using acc by (simp_all add: ip_accepts_def address_match_take IP_ADDR_def)
  from ip_front [OF s1(1) shape1 len this] obtain s4 out4 where
    r2: "?run s1 (map full_word [?h0, ?h1, ?h2, ?d1, ?d2]) = (s4, out4)"
    and mid4: "ip_mid ?h0 ?h1 True True (quads ?h2 ?d1) ?d1 ?d2 s4" and out4: "list_all silent (map fst out4)" by blast
  let ?rest = "burst D x k @ g1 # g2 # g3 # gs"
  obtain s' Orest where r3: "?run s4 ?rest = (s', Orest)" by (metis surj_pair)
  from ip_mid_burst [OF mid4 length_quads [OF len(3,4)] len(4,5) D(2) g, unfolded r3]
  obtain Y y k' post where Y: "map fst Orest = burst Y y k' @ post" "lanes8 Y y k'" "list_all silent post"
    "burst_bytes Y y k' = quads ?h2 ?d1 @ quads ?d1 ?d2 @ drop 4 ?d2 @ burst_bytes D x k" "ip_quiet s'"
    by auto
  have "quads ?h2 ?d1 @ quads ?d1 ?d2 @ drop 4 ?d2 @ burst_bytes D x k = drop 4 ?h2 @ ?d1 @ ?d2 @ drop 40 bs"
    using append_take_drop_id [of 4 ?d1] append_take_drop_id [of 4 ?d2] by (simp add: quads_def D(3) del: append_take_drop_id)
  also have "\<dots> = drop 20 bs"
    using H(3) append_take_drop_id [of 4 "drop 20 bs"] append_take_drop_id [of 8 "drop 24 bs"]
      append_take_drop_id [of 8 "drop 32 bs"] by (simp add: drop_take)
  finally have bytes: "burst_bytes Y y k' = drop 20 bs" using Y(4) by simp
  have words: "pre @ burst H x k @ g1 # g2 # g3 # gs = pre @ map full_word [?h0, ?h1, ?h2, ?d1, ?d2] @ ?rest"
    by (simp add: D(1) burst_simps)
  have run: "?run s (pre @ burst H x k @ g1 # g2 # g3 # gs) = (s', (out1 @ out4) @ Orest)"
    using run_loop_joined [OF r1 run_loop_joined [OF r2 r3]] by (simp only: words append_assoc)
  have "list_all word_shape (pre @ burst H x k @ g1 # g2 # g3 # gs)"
    using pre g word_shape_gap word_shape_burst [OF H(1)] by (auto simp: list_all_iff)
  from ip.inv_run [OF s(2) this] have shape: "ip_shape s'" using run by simp
  have "snd (hd (snd (?run s4 ?rest))) = ip_header_of s4"
    by (cases "burst D x k") (simp_all add: burst_def ip_step_header)
  then have "ip_fields bs (snd (hd Orest))"
    using ip_mid_fields [OF mid4] by (simp add: r3 ip_fields_def)
  moreover have "list_all silent (map fst (out1 @ out4))" using s1(2) out4 by simp
  ultimately show ?thesis using run shape Y(1-3,5) bytes by blast
qed

section \<open>A packet for another address\<close>

lemma ip_reject_middle:
  assumes "ip_dead s" and "i_fb0 s = 3" and "\<not> i_fb1 s"
  shows "ip_dead (ip_next s w) \<and> \<not> i_fb1 (ip_next s w) \<and> silent (ip_out s w) \<and>
    i_fb0 (ip_next s w) = (if weog w \<or> weob w then 0 else 3)"
  using assms by (simp add: ip_dead_def silent_def ip_step_def Let_def)

lemma ip_reject_rest:
  assumes "ip_dead s" and "i_fb0 s = 3" and "\<not> i_fb1 s" and "list_all no_end ws" and "weog l \<or> weob l"
  shows "ip_quiet (fst (run_loop ip_step s (ws @ [l]))) \<and> list_all silent (ip_outs s (ws @ [l]))"
  using assms
proof (induction ws arbitrary: s)
  case Nil
  then show ?case using ip_reject_middle [OF Nil(1-3), of l]
    by (simp add: ip_quiet_def del: run_loop.simps(2))
next
  case (Cons w ws)
  then show ?case using ip_reject_middle [OF Cons.prems(1-3), of w]
    by (simp add: no_end_def del: run_loop.simps(2))
qed

lemma ip_reject_start:
  assumes "ip_quiet s" and w: "wvalid w0" "no_end w0" "wvalid w1" "no_end w1" "wvalid w2" "no_end w2"
    and other: "wdata w0 ! 0 = 0x45" "\<not> address_match (wdata w2) IP_ADDR"
  shows "let s' = fst (run_loop ip_step s [w0, w1, w2])
    in ip_dead s' \<and> i_fb0 s' = 3 \<and> \<not> i_fb1 s' \<and> list_all silent (ip_outs s [w0, w1, w2])"
  using assms
  by (simp add: ip_quiet_def ip_dead_def silent_def no_end_def ip_step_def Let_def)

section \<open>The filter that hangs\<close>

definition ip_stuck :: "ipv4_filter \<Rightarrow> bool" where
  "ip_stuck s \<longleftrightarrow> i_fb0 s = 2 \<and> i_fb22 s = [ip_S3, ip_S3, ip_S3] \<and> \<not> r_ipd (i_fb2 s) \<and> \<not> i_fb6 s"

lemma ip_stuck_step: "ip_stuck s \<Longrightarrow> ip_stuck (ip_next s w) \<and> \<not> wvalid (ip_out s w)"
  by (simp add: ip_stuck_def ip_step_def Let_def)

lemma ip_stuck_run: "ip_stuck s \<Longrightarrow> list_all (\<lambda>o'. \<not> wvalid o') (ip_outs s ws)"
  by (induction ws arbitrary: s) (simp_all add: ip_stuck_step del: run_loop.simps(2))

lemma ip_gets_stuck:
  assumes "ip_quiet s" and "wvalid w0" "no_end w0" "wdata w0 ! 0 = 0x45" and "wvalid w1" "no_end w1"
    and "\<not> (wvalid w2 \<and> no_end w2)"
  shows "ip_stuck (fst (run_loop ip_step s [w0, w1, w2])) \<and>
    list_all (\<lambda>o'. \<not> wvalid o') (ip_outs s [w0, w1, w2])"
  using assms
  by (cases "wvalid w2") (simp_all add: ip_quiet_def ip_dead_def ip_stuck_def no_end_def ip_step_def Let_def)

section \<open>Properties\<close>

text \<open>C36. The IPv4 filter hangs for good: when the third word of an IPv4 packet is missing for a cycle,
  or ends the packet, the role schedule has moved on while the state has not, and no later input can
  ever make an output word valid again.\<close>
theorem ip_filter_hangs:
  assumes "ip_quiet s" and "wvalid w0" "no_end w0" "wdata w0 ! 0 = 0x45" and "wvalid w1" "no_end w1"
    and "\<not> (wvalid w2 \<and> no_end w2)"
  shows "list_all (\<lambda>(out, hdr). \<not> wvalid out) (snd (run_loop ip_step s (w0 # w1 # w2 # ws)))"
proof -
  let ?r = "run_loop ip_step s [w0, w1, w2]"
  have "run_loop ip_step s ([w0, w1, w2] @ ws) =
      (fst (run_loop ip_step (fst ?r) ws), snd ?r @ snd (run_loop ip_step (fst ?r) ws))"
    using run_loop_joined [of ip_step s "[w0, w1, w2]" "fst ?r" "snd ?r"] by (metis prod.collapse)
  moreover note ip_gets_stuck [OF assms]
  moreover from this have "list_all (\<lambda>o'. \<not> wvalid o') (ip_outs (fst ?r) ws)"
    by (blast intro: ip_stuck_run)
  ultimately have "list_all (\<lambda>o'. \<not> wvalid o') (map fst (snd (run_loop ip_step s ([w0, w1, w2] @ ws))))"
    by (simp del: run_loop.simps(2))
  then show ?thesis by (auto simp: list_all_iff simp del: run_loop.simps(2))
qed

theorem ip_filter_hangs_witness:
  "list_all (\<lambda>(out, hdr). \<not> wvalid out) (snd (run_loop ip_step ip_init
     (full_word [0x45, 0, 0, 80, 0, 1, 0, 0] # full_word [64, 17, 0, 0, 10, 0, 1, 10] #
      full_word [10, 0, 1, 14, 0, 1, 0, 2] \<lparr>wvalid := False\<rparr> #
      map full_word [[10, 0, 1, 14, 0, 1, 31, 64], [0x45, 0, 0, 80, 0, 1, 0, 0]])))"
  by (rule ip_filter_hangs [OF ip_quiet_init]) (simp_all add: no_end_def)

text \<open>C35. The IPv4 filter drops a packet for another address: with a destination that matches neither the
  board's address nor 255 byte for byte, no output word of the whole packet is valid or carries an end
  flag, and the filter is ready for the next packet.\<close>
theorem ip_drops_other_packet:
  assumes "ip_quiet s" and "wvalid w0" "no_end w0" "wvalid w1" "no_end w1" "wvalid w2" "no_end w2"
    and "wdata w0 ! 0 = 0x45" "\<not> address_match (wdata w2) IP_ADDR"
    and "list_all no_end ws" and "weog l \<or> weob l"
  shows "ip_quiet (fst (run_loop ip_step s (w0 # w1 # w2 # ws @ [l]))) \<and>
    list_all (\<lambda>(out, hdr). silent out) (snd (run_loop ip_step s (w0 # w1 # w2 # ws @ [l])))"
proof -
  let ?r = "run_loop ip_step s [w0, w1, w2]" and ?ws = "ws @ [l]"
  have run: "run_loop ip_step s ([w0, w1, w2] @ ?ws) =
      (fst (run_loop ip_step (fst ?r) ?ws), snd ?r @ snd (run_loop ip_step (fst ?r) ?ws))"
    using run_loop_joined [of ip_step s "[w0, w1, w2]" "fst ?r" "snd ?r"] by (metis prod.collapse)
  note start = ip_reject_start [OF assms(1-9), unfolded Let_def]
  with ip_reject_rest [OF _ _ _ assms(10,11)]
  have "ip_quiet (fst (run_loop ip_step (fst ?r) ?ws))" "list_all silent (ip_outs (fst ?r) ?ws)" by blast+
  with start run have "ip_quiet (fst (run_loop ip_step s ([w0, w1, w2] @ ?ws)))"
    "list_all silent (map fst (snd (run_loop ip_step s ([w0, w1, w2] @ ?ws))))"
    by (simp_all del: run_loop.simps(2))
  then show ?thesis by (auto simp: list_all_iff simp del: run_loop.simps(2))
qed

theorem ip_drops_other_packet_witness:
  "list_all (\<lambda>(out, hdr). silent out) (snd (run_loop ip_step ip_init
     (full_word [0x45, 0, 0, 80, 0, 1, 0, 0] # full_word [64, 17, 0, 0, 10, 0, 1, 10] #
      full_word [10, 0, 1, 15, 0, 1, 0, 2] # map full_word [[10, 0, 1, 14, 0, 1, 31, 64]] @ [last_word [1]])))"
  by (rule ip_drops_other_packet [OF ip_quiet_init, THEN conjunct2])
    (simp_all add: no_end_def address_match_def IP_ADDR_def upt_rec last_word_def)

end
