(* ===== verification/NI_Path.thy ===== *)
theory NI_Path
  imports NI_Ip NI_Driver
begin

text \<open>
  The receive path as a whole: the UDP state machine on whole datagrams, the four stages of
  \<open>ni_stream_model.py\<close> composed over a run, the words that reach the FIFO for an accepted Ethernet
  frame, and what the parser behind the FIFO makes of them.
\<close>

section \<open>The UDP state machine\<close>

definition udp_quiet :: "udp_rx \<Rightarrow> bool" where
  "udp_quiet u \<longleftrightarrow> \<not> u_fb2 u \<and> \<not> u_fb4 u"

lemma udp_quiet_gap:
  "udp_quiet u \<Longrightarrow> silent w \<Longrightarrow> udp_quiet (fst (udp_step u (w, hdr))) \<and> silent (snd (udp_step u (w, hdr)))"
  by (simp add: udp_quiet_def silent_def udp_step_def Let_def)

lemma udp_quiet_gaps:
  "udp_quiet u \<Longrightarrow> list_all silent (map fst ins) \<Longrightarrow> udp_quiet (fst (run_loop udp_step u ins)) \<and>
   list_all silent (snd (run_loop udp_step u ins))"
proof (induction ins arbitrary: u)
  case (Cons i ins)
  note run_loop.simps(2) [simp del]
  show ?case using Cons udp_quiet_gap [of u "fst i" "snd i"] by simp
qed simp

text \<open>The datagram header that opens the gate: the port, protocol 17, an unfragmented packet.\<close>

definition udp_accepts :: "int list \<Rightarrow> ip_header \<Rightarrow> bool" where
  "udp_accepts h hdr \<longleftrightarrow> push_bit 8 (h ! 2) OR h ! 3 = UDP_PORT \<and> h_proto hdr = 17 \<and> h_frag hdr = 0 \<and>
     h_flags hdr AND 1 = 0"

definition udp_open :: "udp_rx \<Rightarrow> bool" where
  "udp_open u \<longleftrightarrow> u_fb0 u \<and> u_fb2 u \<and> \<not> u_fb4 u"

lemma udp_header_step:
  "udp_quiet u \<Longrightarrow> udp_accepts h hdr \<Longrightarrow> udp_open (fst (udp_step u (full_word h, hdr))) \<and>
   silent (snd (udp_step u (full_word h, hdr)))"
  by (simp add: udp_quiet_def udp_accepts_def udp_open_def silent_def udp_step_def Let_def)

lemma udp_open_step: "udp_open u \<Longrightarrow> udp_open (fst (udp_step u (full_word d, hdr))) \<and>
  snd (udp_step u (full_word d, hdr)) = full_word d"
  by (simp add: udp_open_def udp_step_def Let_def)

lemma udp_end_step: "udp_open u \<Longrightarrow> udp_quiet (fst (udp_step u (end_word y k, hdr))) \<and>
  snd (udp_step u (end_word y k, hdr)) = end_word y k"
  by (simp add: udp_open_def udp_quiet_def udp_step_def Let_def)

lemma udp_open_burst:
  "udp_open u \<Longrightarrow> map fst ins = burst Y y k \<Longrightarrow> udp_quiet (fst (run_loop udp_step u ins)) \<and>
   snd (run_loop udp_step u ins) = burst Y y k"
proof (induction Y arbitrary: u ins)
  case Nil
  note run_loop.simps(2) [simp del]
  from Nil.prems(2) obtain hdr where "ins = [(end_word y k, hdr)]" by (auto simp: burst_simps)
  then show ?case using udp_end_step [OF Nil.prems(1), of y k hdr] by (simp add: burst_simps)
next
  case (Cons d Y)
  note run_loop.simps(2) [simp del]
  from Cons.prems(2) obtain hdr ins' where ins: "ins = (full_word d, hdr) # ins'" "map fst ins' = burst Y y k"
    by (auto simp: burst_simps)
  note step = udp_open_step [OF Cons.prems(1), of d hdr]
  with Cons.IH [of "fst (udp_step u (full_word d, hdr))" ins'] ins show ?case by (simp add: burst_simps)
qed

lemma udp_datagram:
  assumes u: "udp_quiet u" and pre: "list_all silent (map fst Opre)"
    and rest: "map fst Orest = burst Y y k @ post" "list_all silent post"
    and Y: "lanes8 Y y k" "burst_bytes Y y k = bs" "8 < length bs"
    and acc: "udp_accepts (take 8 bs) (snd (hd Orest))"
  shows "\<exists>u' pre' Y' post'. run_loop udp_step u (Opre @ Orest) = (u', pre' @ burst Y' y k @ post') \<and>
    udp_quiet u' \<and> list_all silent pre' \<and> list_all silent post' \<and> lanes8 Y' y k \<and>
    burst_bytes Y' y k = drop 8 bs"
proof -
  let ?run = "run_loop udp_step"
  obtain h Y' where Y': "Y = h # Y'" "h = take 8 bs" "lanes8 Y' y k" "burst_bytes Y' y k = drop 8 bs"
    by (rule burst_head [OF Y])
  obtain hdr O1 where O1: "Orest = (full_word h, hdr) # O1" "map fst O1 = burst Y' y k @ post"
    using rest(1) by (cases Orest) (auto simp: Y'(1) burst_simps)
  obtain O2 O3 where O2: "O1 = O2 @ O3" "map fst O2 = burst Y' y k" "map fst O3 = post"
    using O1(2) by (auto simp: map_eq_append_conv)
  define u1 where "u1 = fst (?run u Opre)"
  define u2 where "u2 = fst (udp_step u1 (full_word h, hdr))"
  define u3 where "u3 = fst (?run u2 O2)"
  have u1: "udp_quiet u1" "list_all silent (snd (?run u Opre))"
    using udp_quiet_gaps [OF u pre] by (simp_all add: u1_def)
  have "udp_accepts h hdr" using acc O1(1) Y'(2) by simp
  note u2 = udp_header_step [OF u1(1) this, folded u2_def]
  have u3: "udp_quiet u3" "snd (?run u2 O2) = burst Y' y k"
    using udp_open_burst [OF _ O2(2), of u2] u2 by (simp_all add: u3_def)
  have u4: "udp_quiet (fst (?run u3 O3))" "list_all silent (snd (?run u3 O3))"
    using udp_quiet_gaps [OF u3(1), of O3] rest(2) O2(3) by simp_all
  have r1: "?run u Opre = (u1, snd (?run u Opre))" by (simp only: u1_def prod.collapse)
  have r2: "?run u1 [(full_word h, hdr)] = (u2, [snd (udp_step u1 (full_word h, hdr))])"
    by (simp add: u2_def Let_def split_beta)
  have r3: "?run u2 O2 = (u3, burst Y' y k)" using u3(2) by (metis u3_def prod.collapse)
  have r4: "?run u3 O3 = (fst (?run u3 O3), snd (?run u3 O3))" by simp
  have "?run u (Opre @ Orest) = (fst (?run u3 O3),
      (snd (?run u Opre) @ [snd (udp_step u1 (full_word h, hdr))]) @ burst Y' y k @ snd (?run u3 O3))"
    using run_loop_joined [OF r1 run_loop_joined [OF r2 run_loop_joined [OF r3 r4]]]
    by (simp add: O1(1) O2(1) del: run_loop.simps(2))
  then show ?thesis using u1(2) u2 u4 Y'(3,4)
    by (intro exI conjI) (assumption | simp)+
qed

section \<open>The composed path\<close>

text \<open>A run of the whole pipe is a run of each stage over the words of the stage before it.\<close>

lemma pipe_run:
  "run_result pipe_step p ws =
     (let (m, o1) = run_loop mac_step (p_mac p) ws
      in bind_result (run_result sub_step (p_sub p) o1) (\<lambda>(s, o2).
         let (i, o3) = run_loop ip_step (p_ip p) o2; (u, o4) = run_loop udp_step (p_udp p) o3
         in Inr (\<lparr>p_mac = m, p_sub = s, p_ip = i, p_udp = u\<rparr>, o4)))"
proof (induction ws arbitrary: p)
  case Nil
  then show ?case by simp
next
  case (Cons w ws)
  obtain m o1 where m: "mac_step (p_mac p) w = (m, o1)" by fastforce
  show ?case
  proof (cases "sub_step (p_sub p) o1")
    case (Inl e)
    then show ?thesis using m by (simp add: pipe_step_def Let_def split_beta)
  next
    case (Inr r)
    obtain s o2 where r: "r = (s, o2)" by (cases r)
    obtain i o3 hdr where i: "ip_step (p_ip p) o2 = (i, o3, hdr)" by (metis surj_pair)
    obtain u o4 where u: "udp_step (p_udp p) (o3, hdr) = (u, o4)" by fastforce
    let ?p = "\<lparr>p_mac = m, p_sub = s, p_ip = i, p_udp = u\<rparr>"
    have "pipe_step p w = Inr (?p, o4)" using m Inr r i u by (simp add: pipe_step_def Let_def)
    then show ?thesis using Cons [of ?p] m Inr r i u
      by (cases "run_result sub_step s (snd (run_loop mac_step m ws))")
        (auto simp: Let_def split_beta)
  qed
qed

definition pipe_quiet :: "pipe \<Rightarrow> bool" where
  "pipe_quiet p \<longleftrightarrow> mac_quiet (p_mac p) \<and> mac_shape (p_mac p) \<and> s_fb0 (p_sub p) = 0 \<and>
     gap_word (sub_regs (p_sub p)) \<and> ip_quiet (p_ip p) \<and> ip_shape (p_ip p) \<and> udp_quiet (p_udp p)"

lemma pipe_quiet_init: "pipe_quiet pipe_init"
  using mac_quiet_init ip_quiet_init mac.inv_start ip.inv_start
  by (simp add: pipe_quiet_def pipe_init_def sub_init_def sub_regs_def gap_word_def silent_def
      udp_quiet_def udp_init_def)

text \<open>The Ethernet frames the path accepts: for the board's address, IPv4 with a 20-byte header and a
  total length field of at least 46, not fragmented, for the board's IP address, UDP for its port, long
  enough, and with a last word of one to six bytes (the MAC filter's flush loses longer ones).\<close>

definition path_accepts :: "int list \<Rightarrow> bool" where
  "path_accepts f \<longleftrightarrow> address_match f MAC_ADDR \<and> ipv4_not_small (drop 14 f) \<and>
     address_match (drop 30 f) IP_ADDR \<and> f ! 23 = 17 \<and>
     push_bit 8 (f ! 20 AND 0x1F) OR f ! 21 = 0 \<and> drop_bit 5 (f ! 20) AND 1 = 0 \<and>
     push_bit 8 (f ! 36) OR f ! 37 = UDP_PORT \<and>
     54 < length f \<and> 0 < length f mod 8 \<and> length f mod 8 \<le> 6"

lemma fields_accept:
  assumes "ip_fields (drop 14 f) hdr" and "path_accepts f"
  shows "udp_accepts (take 8 (drop 34 f)) hdr"
proof -
  have "(drop_bit 5 (f ! 20) AND 7) AND 1 = drop_bit 5 (f ! 20) AND (1::int)"
    by (simp add: and.assoc)
  then show ?thesis using assms
    by (simp add: ip_fields_def fields_of_def path_accepts_def udp_accepts_def)
qed

text \<open>The words of a frame's bytes.\<close>

definition words_of :: "int list \<Rightarrow> stream_word list" where
  "words_of f = frame_words (map (\<lambda>i. py_slice (8 * i) (8 * i + 8) f) [0..<length f div 8])
     (drop (8 * (length f div 8)) f)"

lemma concat_slices: "concat (map (\<lambda>i. py_slice (8 * i) (8 * i + 8) f) [0..<n]) = take (8 * n) f"
proof (induction n)
  case (Suc n)
  have "take (8 * n) f @ py_slice (8 * n) (8 * n + 8) f = take (8 * n + 8) f"
    by (simp add: py_slice_def take_add)
  then show ?case using Suc by (simp add: add.commute)
qed simp

lemma three_elements: "3 \<le> length xs \<Longrightarrow> \<exists>a b c r. xs = a # b # c # r"
  by (cases xs; cases "tl xs"; cases "tl (tl xs)") auto

lemma six_elements: "6 \<le> length xs \<Longrightarrow> \<exists>a b c d e g r. xs = a # b # c # d # e # g # r"
proof -
  assume six: "6 \<le> length xs"
  then obtain a b c r where r: "xs = a # b # c # r" using three_elements [of xs] by auto
  then have "3 \<le> length r" using six by simp
  then obtain d e g r' where "r = d # e # g # r'" using three_elements by blast
  then show ?thesis using r by blast
qed

text \<open>A frame through the MAC filter.\<close>

lemma frame_mac:
  assumes mq: "mac_quiet m" "mac_shape m" and f: "path_accepts f"
    and idles: "list_all idle_word (i1 # i2 # i3 # i4 # i5 # i6 # irest)"
  shows "\<exists>m' pre Y y k post. run_loop mac_step m (words_of f @ i1 # i2 # i3 # i4 # i5 # i6 # irest) = (m', pre @ burst Y y k @ post) \<and>
    mac_quiet m' \<and> mac_shape m' \<and> lanes8 Y y k \<and> burst_bytes Y y k = drop 14 f \<and>
    list_all gap_word pre \<and> list_all gap_word post \<and> length post = length (i3 # i4 # i5 # i6 # irest)"
proof -
  let ?ds = "map (\<lambda>i. py_slice (8 * i) (8 * i + 8) f) [0..<length f div 8]"
  let ?t = "drop (8 * (length f div 8)) f"
  have f': "54 < length f" "0 < length f mod 8" "length f mod 8 \<le> 6" "address_match f MAC_ADDR"
    using f by (simp_all add: path_accepts_def)
  have "8 * i + 8 \<le> length f" if "i < length f div 8" for i using that by linarith
  then have ds8: "list_all (\<lambda>d. length d = 8) ?ds" by (auto simp: list_all_iff length_py_slice)
  have t: "0 < length ?t" "length ?t \<le> 6"
    using f' by (simp_all add: minus_mult_div_eq_mod)
  have n: "length f div 8 = Suc (Suc (Suc (length f div 8 - 3)))" using f'(1) by simp
  obtain a b c es where ds: "?ds = a # b # c # es" "a = py_slice 0 8 f"
  proof -
    have "3 \<le> length ?ds" using n by simp
    from three_elements [OF this] obtain a b c es where e: "?ds = a # b # c # es" by (elim exE) (rule that)
    have "a = ?ds ! 0" by (simp only: e nth_Cons_0)
    then have "a = py_slice 0 8 f" using n by simp
    with e show thesis by (rule that)
  qed
  have joined: "concat ?ds @ ?t = f" by (simp only: concat_slices append_take_drop_id)
  have m: "address_match (take 6 a) MAC_ADDR"
    using f'(4) by (simp add: ds(2) address_match_take MAC_ADDR_def)
  from mac_burst [OF mq ds(1) ds8 m t idles] show ?thesis
    unfolding joined words_of_def by blast
qed

lemma frame_receive:
  assumes p: "pipe_quiet p" and f: "path_accepts f"
    and idles: "list_all idle_word idles" "6 \<le> length idles"
  shows "\<exists>p' pre Y y k post. run_result pipe_step p (words_of f @ idles) = Inr (p', pre @ burst Y y k @ post) \<and>
    pipe_quiet p' \<and> list_all silent pre \<and> list_all silent post \<and> lanes8 Y y k \<and>
    burst_bytes Y y k = drop 42 f"
proof -
  note q = p [unfolded pipe_quiet_def]
  have mq: "mac_quiet (p_mac p)" "mac_shape (p_mac p)" using q by blast+
  obtain i1 i2 i3 i4 i5 i6 irest where i: "idles = i1 # i2 # i3 # i4 # i5 # i6 # irest"
    using six_elements [OF idles(2)] by blast
  from frame_mac [OF mq f idles(1) [unfolded i]]
  obtain pre1 Y1 y1 k1 post1 m' where r1: "run_loop mac_step (p_mac p) (words_of f @ idles) =
      (m', pre1 @ burst Y1 y1 k1 @ post1)"
    and m': "mac_quiet m'" "mac_shape m'" and Y1: "lanes8 Y1 y1 k1" "burst_bytes Y1 y1 k1 = drop 14 f"
    and gaps1: "list_all gap_word pre1" "list_all gap_word post1" "length post1 = length (i3 # i4 # i5 # i6 # irest)"
    unfolding i by blast
  have f': "54 < length f" using f by (simp add: path_accepts_def)
  have long: "40 < length (drop 14 f)" using f' by simp
  obtain h1 Y1' where h1: "Y1 = h1 # Y1'" "h1 = take 8 (drop 14 f)"
    by (rule burst_head [OF Y1]) (use f' in simp_all)
  have small: "ipv4_not_small h1"
    using f f' by (simp add: h1(2) path_accepts_def ipv4_not_small_def)
  have "s_fb0 (p_sub p) = 0" "gap_word (sub_regs (p_sub p))" using q by blast+
  from sub_burst [OF this(1) gaps_silent [OF gaps1(1)] gaps_silent [OF gaps1(2)] small h1(1), of y1 k1]
  obtain s' outs2 where r2: "run_result sub_step (p_sub p) (pre1 @ burst Y1 y1 k1 @ post1) = Inr (s', outs2)"
    and s': "s_fb0 s' = 0" "outs2 @ [sub_regs s'] = sub_regs (p_sub p) # pre1 @ burst Y1 y1 k1 @ post1"
    by blast
  have post1: "post1 \<noteq> []" using gaps1(3) by auto
  have o2: "outs2 = (sub_regs (p_sub p) # pre1) @ burst Y1 y1 k1 @ butlast post1"
    and regs: "sub_regs s' = last post1"
    using arg_cong [OF s'(2), of butlast] arg_cong [OF s'(2), of last] post1
    by (simp_all add: butlast_append)
  have gap_regs: "gap_word (sub_regs s')" using regs gaps1(2) post1 by (simp add: list_all_iff)
  have "length (butlast post1) = length (i4 # i5 # i6 # irest)" using gaps1(3) by simp
  then obtain g1 g2 g3 gs where g: "butlast post1 = g1 # g2 # g3 # gs"
    by (cases "butlast post1"; cases "tl (butlast post1)"; cases "tl (tl (butlast post1))") auto
  have ggaps: "list_all gap_word (g1 # g2 # g3 # gs)"
    unfolding g [symmetric] using gaps1(2) by (auto simp: list_all_iff dest: in_set_butlastD)
  have acc: "ip_accepts (drop 14 f)"
    using f f' by (simp add: path_accepts_def ip_accepts_def ipv4_not_small_def)
  have iq: "ip_quiet (p_ip p)" "ip_shape (p_ip p)" "udp_quiet (p_udp p)" using q by blast+
  have pre2: "list_all gap_word (sub_regs (p_sub p) # pre1)" using q gaps1(1) by simp
  from ip_packet [OF iq(1,2) pre2 Y1 long acc ggaps]
  obtain i' Opre Orest Y y k post where r3: "run_loop ip_step (p_ip p) outs2 = (i', Opre @ Orest)"
    and i': "ip_quiet i'" "ip_shape i'" and O: "list_all silent (map fst Opre)"
    "map fst Orest = burst Y y k @ post" "list_all silent post"
    and Y: "lanes8 Y y k" "burst_bytes Y y k = drop 20 (drop 14 f)" and hdr: "ip_fields (drop 14 f) (snd (hd Orest))"
    unfolding o2 g by blast
  have Y34: "burst_bytes Y y k = drop 34 f" "8 < length (drop 34 f)" using Y(2) f' by simp_all
  from udp_datagram [OF iq(3) O Y(1) Y34 fields_accept [OF hdr f]]
  obtain u' pre' Y' post' where r4: "run_loop udp_step (p_udp p) (Opre @ Orest) = (u', pre' @ burst Y' y k @ post')"
    and u': "udp_quiet u'" "list_all silent pre'" "list_all silent post'" "lanes8 Y' y k"
    "burst_bytes Y' y k = drop 8 (drop 34 f)"
    by blast
  have "run_result pipe_step p (words_of f @ idles) =
      Inr (\<lparr>p_mac = m', p_sub = s', p_ip = i', p_udp = u'\<rparr>, pre' @ burst Y' y k @ post')"
    unfolding pipe_run r1 Let_def prod.case r2 bind_result_simps r3 r4 by (rule refl)
  moreover have "pipe_quiet \<lparr>p_mac = m', p_sub = s', p_ip = i', p_udp = u'\<rparr>"
    using m' s'(1) gap_regs i' u'(1) by (simp add: pipe_quiet_def)
  ultimately show ?thesis using u' by (intro exI conjI) (assumption | simp)+
qed

end
