(* ===== verification/NI_Receive.thy ===== *)
theory NI_Receive
  imports NI_Path Replay_Check
begin

text \<open>
  From the beat file to the parser: the driver \<open>run\<close> of \<open>ni_stream_model.py\<close> on the beat file of
  captured frames. The FIFO carries exactly the UDP payloads, one burst of words per frame, and the
  parser behind it goes through the same states as in the replay of those payloads.
\<close>

section \<open>Byte values\<close>

text \<open>Every data register of the path holds bytes when its inputs do.\<close>

definition byte_word :: "stream_word \<Rightarrow> bool" where
  "byte_word w \<longleftrightarrow> is_bytes (wdata w)"

definition mac_bytes :: "mac_filter \<Rightarrow> bool" where
  "mac_bytes s \<longleftrightarrow> is_bytes (m_fb20 s) \<and> is_bytes (m_fb21 s) \<and> is_bytes (m_fb24 s)"

definition ip_bytes :: "ipv4_filter \<Rightarrow> bool" where
  "ip_bytes s \<longleftrightarrow> is_bytes (i_fb18 s) \<and> is_bytes (i_fb19 s) \<and> is_bytes (i_fb23 s)"

lemma is_bytes_slice: "is_bytes xs \<Longrightarrow> is_bytes (py_slice a b xs)"
  by (simp add: py_slice_def)

interpretation macb: guarded_clocked mac_step mac_init byte_word mac_bytes byte_word
  by unfold_locales
    (simp_all add: mac_bytes_def byte_word_def mac_init_def mac_step_def Let_def split_beta is_bytes_slice is_byte_def)

interpretation ipb: guarded_clocked ip_step ip_init byte_word ip_bytes "\<lambda>r. byte_word (fst r)"
  by unfold_locales
    (simp_all add: ip_bytes_def byte_word_def ip_init_def ip_step_def Let_def split_beta is_bytes_slice is_byte_def)

definition pipe_bytes :: "pipe \<Rightarrow> bool" where
  "pipe_bytes p \<longleftrightarrow> mac_bytes (p_mac p) \<and> is_bytes (s_fb6 (p_sub p)) \<and> ip_bytes (p_ip p)"

lemma pipe_bytes_init: "pipe_bytes pipe_init"
  using macb.inv_start ipb.inv_start by (simp add: pipe_bytes_def pipe_init_def sub_init_def is_byte_def)

lemma sub_step_bytes: "sub_step s w = Inr (s', out) \<Longrightarrow> is_bytes (s_fb6 s) \<Longrightarrow> byte_word w \<Longrightarrow>
  is_bytes (s_fb6 s') \<and> byte_word out"
  by (auto simp: sub_step_cases sub_regs_def byte_word_def)

lemma pipe_step_bytes:
  assumes "pipe_step p w = Inr (p', out)" and p: "pipe_bytes p" and w: "byte_word w"
  shows "pipe_bytes p' \<and> byte_word out"
proof -
  obtain m o1 where m: "mac_step (p_mac p) w = (m, o1)" by fastforce
  obtain s o2 where s: "sub_step (p_sub p) o1 = Inr (s, o2)"
    using assms(1) m by (auto simp: pipe_step_def bind_result_Inr)
  obtain i o3 hdr where i: "ip_step (p_ip p) o2 = (i, o3, hdr)" by (metis surj_pair)
  obtain u o4 where u: "udp_step (p_udp p) (o3, hdr) = (u, o4)" by fastforce
  have eq: "p' = \<lparr>p_mac = m, p_sub = s, p_ip = i, p_udp = u\<rparr>" "out = o4"
    using assms(1) m s i u by (simp_all add: pipe_step_def)
  have b1: "mac_bytes m" "byte_word o1"
    using macb.inv_step [of "p_mac p" w] macb.good_step [of "p_mac p" w] p w m by (simp_all add: pipe_bytes_def)
  have b2: "is_bytes (s_fb6 s)" "byte_word o2"
    using sub_step_bytes [OF s _ b1(2)] p by (simp_all add: pipe_bytes_def)
  have b3: "ip_bytes i" "byte_word o3"
    using ipb.inv_step [of "p_ip p" o2] ipb.good_step [of "p_ip p" o2] p b2(2) i by (simp_all add: pipe_bytes_def)
  have "wdata o4 = wdata o3" using u by (auto simp: udp_step_def Let_def split: if_splits)
  then show ?thesis using b1 b2 b3 by (simp add: eq pipe_bytes_def byte_word_def)
qed

lemma pipe_run_bytes:
  "run_result pipe_step p ws = Inr (p', outs) \<Longrightarrow> pipe_bytes p \<Longrightarrow> list_all byte_word ws \<Longrightarrow>
   pipe_bytes p' \<and> list_all byte_word outs"
proof (induction ws arbitrary: p outs)
  case (Cons w ws)
  then obtain p1 out outs1 where "pipe_step p w = Inr (p1, out)" "outs = out # outs1"
    "run_result pipe_step p1 ws = Inr (p', outs1)" by (auto simp: bind_result_Inr)
  with Cons pipe_step_bytes [of p w p1 out] show ?case by simp
qed simp

section \<open>Cycles\<close>

definition pushed :: "stream_word \<Rightarrow> bool" where
  "pushed w \<longleftrightarrow> wvalid w \<or> weog w \<or> weob w"

lemma run_cycles_words:
  "map cycle_word cs = map Inr ws \<Longrightarrow> run_result pipe_step p ws = Inr (p', outs) \<Longrightarrow>
   \<exists>els. (\<forall>cs'. run_cycles p cyc (cs @ cs') =
       bind_result (run_cycles p' (cyc + length cs) cs') (\<lambda>rest. Inr (els @ rest))) \<and>
     map (\<lambda>(fno, c, w). w) els = filter pushed outs"
proof (induction cs arbitrary: ws p outs cyc)
  case Nil
  have "bind_result m (\<lambda>rest. Inr ([] @ rest)) = m" for m :: "(int \<times> nat \<times> stream_word) list py_result"
    by (cases m) simp_all
  then show ?case using Nil by (intro exI [of _ "[]"]) simp
next
  case (Cons c cs)
  then obtain w ws' where ws: "ws = w # ws'" "cycle_word c = Inr w" "map cycle_word cs = map Inr ws'"
    by (cases ws) auto
  with Cons.prems(2) obtain p1 out outs1 where r: "pipe_step p w = Inr (p1, out)" "outs = out # outs1"
    "run_result pipe_step p1 ws' = Inr (p', outs1)" by (auto simp: bind_result_Inr)
  from Cons.IH [OF ws(3) r(3), of "Suc cyc"] obtain els where els:
    "\<forall>cs'. run_cycles p1 (Suc cyc) (cs @ cs') =
       bind_result (run_cycles p' (Suc cyc + length cs) cs') (\<lambda>rest. Inr (els @ rest))"
    "map (\<lambda>(fno, c, w). w) els = filter pushed outs1" by blast
  let ?e = "if pushed out then [(snd (snd (snd (snd c))), cyc, out)] else []"
  have "run_cycles p cyc ((c # cs) @ cs') =
      bind_result (run_cycles p' (cyc + length (c # cs)) cs') (\<lambda>rest. Inr ((?e @ els) @ rest))" for cs'
    using els(1) ws(2) r(1) by (cases "run_cycles p' (Suc cyc + length cs) cs'") (simp_all add: pushed_def)
  moreover have "map (\<lambda>(fno, c, w). w) (?e @ els) = filter pushed outs"
    using els(2) r(2) by simp
  ultimately show ?case by blast
qed

definition row_cycle :: "beat_row \<Rightarrow> cycle" where
  "row_cycle r = (case r of (td, tk, tlast, fno, tv) \<Rightarrow> (td, tk, tlast, tv, fno))"

lemma enables_of_keep:
  "n \<le> 8 \<Longrightarrow> map (\<lambda>i. drop_bit i (push_bit n 1 - 1 :: int) AND 1 \<noteq> 0) [0..<8] =
     replicate n True @ replicate (8 - n) False"
proof (rule nth_equalityI)
  fix i
  assume n: "n \<le> 8" and "i < length (map (\<lambda>i. drop_bit i (push_bit n 1 - 1 :: int) AND 1 \<noteq> 0) [0..<8])"
  then have i: "i < 8" by simp
  have "drop_bit i (push_bit n 1 - 1 :: int) AND 1 \<noteq> 0 \<longleftrightarrow> bit (push_bit n 1 - 1 :: int) i"
    by (simp only: and_one_eq bit_iff_odd_drop_bit odd_iff_mod_2_eq_one) simp
  also have "\<dots> \<longleftrightarrow> i < n" unfolding ones_mask by (simp add: bit_mask_iff)
  finally show "map (\<lambda>i. drop_bit i (push_bit n 1 - 1 :: int) AND 1 \<noteq> 0) [0..<8] ! i =
      (replicate n True @ replicate (8 - n) False) ! i"
    using n i by (simp add: nth_append)
qed simp

lemma beats_partial: "0 < n mod 8 \<Longrightarrow> (n + 7) div 8 = Suc (n div 8)" for n :: nat
  by presburger

lemma frame_row_cycle:
  assumes f: "is_bytes f" and i: "i < (length f + 7) div 8"
  defines "c \<equiv> py_slice (8 * i) (8 * i + 8) f"
  shows "cycle_word (row_cycle (frame_row f k i)) = Inr \<lparr>wdata = c @ replicate (8 - length c) 0, wvalid = True,
    wbe = replicate (length c) True @ replicate (8 - length c) False, weog = (i + 1 = (length f + 7) div 8), weob = False\<rparr>"
proof -
  obtain td keep tlast fn tv where r: "frame_row f k i = (td, keep, tlast, fn, tv)" by (metis surj_pair)
  note parts = frame_row_parts [OF f r]
  have c: "c = py_slice (i * 8) ((i + 1) * 8) f" by (simp add: c_def mult.commute add.commute)
  have keep: "keep = push_bit (length c) 1 - 1" and tlast: "tlast = (if i + 1 = (length f + 7) div 8 then 1 else 0)"
    using r unfolding frame_row_def c by (simp_all add: Let_def)
  have len: "length c \<le> 8" by (simp add: c_def length_py_slice)
  have "to_bytes8 td = Inr (c @ replicate (8 - length c) 0)"
    using parts(1,2,8) by (simp add: to_bytes8_def c Let_def)
  then show ?thesis using parts(7) enables_of_keep [OF len] keep
    by (simp add: r row_cycle_def cycle_word_def tlast)
qed

lemma frame_cycle_words:
  assumes f: "is_bytes f" and m: "0 < length f mod 8"
  shows "map cycle_word (map row_cycle (frame_rows f k)) = map Inr (words_of f)"
proof -
  let ?n = "length f div 8"
  have n: "(length f + 7) div 8 = Suc ?n" by (rule beats_partial [OF m])
  have full: "cycle_word (row_cycle (frame_row f k i)) = Inr (full_word (py_slice (8 * i) (8 * i + 8) f))" if "i < ?n" for i
  proof -
    have "length (py_slice (8 * i) (8 * i + 8) f) = 8" using that by (simp add: length_py_slice)
    then show ?thesis using frame_row_cycle [OF f, of i k] that n by (simp add: full_word_def)
  qed
  have "py_slice (8 * ?n) (8 * ?n + 8) f = drop (8 * ?n) f"
  proof -
    have "length (drop (8 * ?n) f) \<le> 8" by (simp add: minus_mult_div_eq_mod)
    then show ?thesis by (simp add: py_slice_def)
  qed
  then have last: "cycle_word (row_cycle (frame_row f k ?n)) = Inr (last_word (drop (8 * ?n) f))"
    using frame_row_cycle [OF f, of ?n k] n by (simp add: last_word_def)
  have "frame_rows f k = map (frame_row f k) [0..<?n] @ [frame_row f k ?n]"
    by (simp add: frame_rows_def n)
  then show ?thesis using full last by (simp add: words_of_def frame_words_def)
qed

text \<open>An idle cycle holds the data and enables of the row before it.\<close>

definition idle_cycle :: "cycle \<Rightarrow> bool" where
  "idle_cycle c \<longleftrightarrow> (case c of (td, tk, tlast, tv, fno) \<Rightarrow> 0 \<le> td \<and> td < 2 ^ 64 \<and> tlast = 0 \<and> tv = 0)"

lemma idle_cycle_words: "list_all idle_cycle cs \<Longrightarrow>
  \<exists>ws. map cycle_word cs = map Inr ws \<and> list_all idle_word ws \<and> list_all byte_word ws"
proof (induction cs)
  case (Cons c cs)
  then obtain ws where ws: "map cycle_word cs = map Inr ws" "list_all idle_word ws" "list_all byte_word ws" by auto
  obtain td tk tlast tv fno where c: "c = (td, tk, tlast, tv, fno)" by (metis surj_pair)
  let ?w = "\<lparr>wdata = to_le 8 td, wvalid = False, wbe = map (\<lambda>i. drop_bit i tk AND 1 \<noteq> 0) [0..<8], weog = False, weob = False\<rparr>"
  have "cycle_word c = Inr ?w" "idle_word ?w" "byte_word ?w"
    using Cons.prems by (simp_all add: c idle_cycle_def cycle_word_def to_bytes8_def idle_word_def word_shape_def byte_word_def)
  then show ?case using ws by (intro exI [of _ "?w # ws"]) simp
qed simp

text \<open>The cycles of a frame, with the idle cycles before it and the rest of the rows.\<close>

lemma cycles_same_frame:
  "list_all (\<lambda>(td, tk, tl, fno, tv). fno = k) rows \<Longrightarrow>
   cycles_from gap (rows @ rest) k hold = map row_cycle rows @
     cycles_from gap rest k (if rows = [] then hold else (fst (last rows), fst (snd (last rows))))"
proof (induction rows arbitrary: hold)
  case (Cons r rows)
  obtain td tk tl fno tv where r: "r = (td, tk, tl, fno, tv)" by (metis surj_pair)
  with Cons show ?case by (simp add: row_cycle_def)
qed simp

lemma cycles_next_frame:
  assumes "rows = r # rows'" and "list_all (\<lambda>(td, tk, tl, fno, tv). fno = k) rows" and "last_f \<noteq> k"
  shows "cycles_from gap (rows @ rest) last_f hold = replicate gap (fst hold, snd hold, 0, 0, k) @
    map row_cycle rows @ cycles_from gap rest k (fst (last rows), fst (snd (last rows)))"
proof -
  obtain td tk tl fno tv where r: "r = (td, tk, tl, fno, tv)" by (metis surj_pair)
  show ?thesis using assms cycles_same_frame [of k rows' gap rest "(td, tk)"]
    by (simp add: r row_cycle_def)
qed

section \<open>What the FIFO carries\<close>

text \<open>A frame's words in the FIFO: a burst of full words and an end word with the payload's bytes.\<close>

definition carries :: "stream_word list \<Rightarrow> int list \<Rightarrow> bool" where
  "carries B bs \<longleftrightarrow> (\<exists>Y y k. B = burst Y y k \<and> lanes8 Y y k \<and> list_all byte_word B \<and> burst_bytes Y y k = bs)"

lemma carries_enabled: "carries B bs \<Longrightarrow> concat (map enabled B) = bs"
  using enabled_burst by (auto simp: carries_def)

lemma pushed_burst: "list_all silent pre \<Longrightarrow> list_all silent post \<Longrightarrow>
  filter pushed (pre @ burst Y y k @ post) = burst Y y k"
proof -
  have silent: "filter pushed ws = []" if "list_all silent ws" for ws
    using that by (induction ws) (simp_all add: pushed_def silent_def)
  have "filter pushed (burst Y y k) = burst Y y k"
    by (induction Y) (simp_all add: burst_simps pushed_def)
  then show "list_all silent pre \<Longrightarrow> list_all silent post \<Longrightarrow> ?thesis" by (simp add: silent)
qed

lemma byte_word_words: "is_bytes f \<Longrightarrow> list_all byte_word (words_of f)"
  by (auto simp: words_of_def frame_words_def list_all_iff byte_word_def last_word_def is_bytes_slice is_byte_def)

lemma frame_cycles_receive:
  assumes p: "pipe_quiet p" "pipe_bytes p" and f: "is_bytes f" "path_accepts f"
    and idl: "list_all idle_cycle idl" "6 \<le> length idl"
  shows "\<exists>p' els c'. (\<forall>cs'. run_cycles p cyc (map row_cycle (frame_rows f k) @ idl @ cs') =
      bind_result (run_cycles p' c' cs') (\<lambda>rest. Inr (els @ rest))) \<and>
    pipe_quiet p' \<and> pipe_bytes p' \<and> carries (map (\<lambda>(fno, c, w). w) els) (drop 42 f)"
proof -
  obtain ws where ws: "map cycle_word idl = map Inr ws" "list_all idle_word ws" "list_all byte_word ws"
    using idle_cycle_words [OF idl(1)] by blast
  have len: "6 \<le> length ws" using idl(2) ws(1) by (metis length_map)
  from frame_receive [OF p(1) f(2) ws(2) len]
  obtain p' pre Y y n post where r: "run_result pipe_step p (words_of f @ ws) = Inr (p', pre @ burst Y y n @ post)"
    and p': "pipe_quiet p'" "list_all silent pre" "list_all silent post" "lanes8 Y y n" "burst_bytes Y y n = drop 42 f"
    by blast
  have bytes: "pipe_bytes p'" "list_all byte_word (burst Y y n)"
    using pipe_run_bytes [OF r p(2)] byte_word_words [OF f(1)] ws(3) by simp_all
  have "0 < length f mod 8" using f(2) by (simp add: path_accepts_def)
  then have cyc: "map cycle_word (map row_cycle (frame_rows f k) @ idl) = map Inr (words_of f @ ws)"
    using frame_cycle_words [OF f(1)] ws(1) by (simp del: map_map)
  from run_cycles_words [OF cyc r, of cyc] obtain els where els:
    "\<forall>cs'. run_cycles p cyc ((map row_cycle (frame_rows f k) @ idl) @ cs') =
       bind_result (run_cycles p' (cyc + length (map row_cycle (frame_rows f k) @ idl)) cs') (\<lambda>rest. Inr (els @ rest))"
    "map (\<lambda>(fno, c, w). w) els = burst Y y n"
    unfolding pushed_burst [OF p'(2,3)] by blast
  have "carries (map (\<lambda>(fno, c, w). w) els) (drop 42 f)"
    using els(2) p'(4,5) bytes(2) unfolding carries_def by metis
  then show ?thesis using els(1) p'(1) bytes(1) unfolding append_assoc by blast
qed

lemma frame_rows_nonempty: "f \<noteq> [] \<Longrightarrow> \<exists>r rows'. frame_rows f k = r # rows'"
  by (cases "frame_rows f k"; cases f) (auto simp: frame_rows_def)

lemma frame_rows_fno: "list_all (\<lambda>(td, tk, tl, fno, tv). fno = int k) (frame_rows f k)"
  by (simp add: frame_rows_def list_all_iff frame_row_def Let_def)

lemma last_row_idle:
  assumes "is_bytes f" and "f \<noteq> []"
  shows "list_all idle_cycle (replicate n (fst (last (frame_rows f k)), fst (snd (last (frame_rows f k))), 0, 0, j))"
proof -
  have "frame_rows f k \<noteq> []" using frame_rows_nonempty [OF assms(2), of k] by auto
  then have "last (frame_rows f k) \<in> set (frame_rows f k)" by (rule last_in_set)
  then obtain i where "last (frame_rows f k) = frame_row f k i" by (auto simp: frame_rows_def)
  moreover obtain td tk tl fno tv where r: "frame_row f k i = (td, tk, tl, fno, tv)" by (metis surj_pair)
  ultimately show ?thesis using frame_row_parts(1,2) [OF assms(1) r]
    by (simp add: idle_cycle_def list_all_iff)
qed

text \<open>A frame, the idle cycles behind it and all further frames.\<close>

lemma frames_receive:
  assumes "pipe_quiet p" "pipe_bytes p" and "list_all (\<lambda>f. is_bytes f \<and> path_accepts f) (f # fs)" and g: "6 \<le> gap"
  shows "\<exists>els Bs. run_cycles p cyc (map row_cycle (frame_rows f k) @ cycles_from gap (rows_from (Suc k) fs) (int k)
      (fst (last (frame_rows f k)), fst (snd (last (frame_rows f k))))) = Inr els \<and>
    map (\<lambda>(fno, c, w). w) els = concat Bs \<and> list_all2 carries Bs (map (drop 42) (f # fs))"
  using assms(1-3)
proof (induction fs arbitrary: p f k cyc)
  case Nil
  let ?l = "last (frame_rows f k)"
  have f: "is_bytes f" "path_accepts f" "f \<noteq> []" using Nil.prems(3) by (auto simp: path_accepts_def)
  define N where "N = (200::nat)"
  have N: "6 \<le> N" by (simp add: N_def)
  let ?idl = "replicate N (fst ?l, fst (snd ?l), 0, 0, int k)"
  from frame_cycles_receive [OF Nil.prems(1,2) f(1,2) last_row_idle [OF f(1,3)], of N k "int k" cyc k] N
  obtain p' els c' where r: "\<forall>cs'. run_cycles p cyc (map row_cycle (frame_rows f k) @ ?idl @ cs') =
      bind_result (run_cycles p' c' cs') (\<lambda>rest. Inr (els @ rest))"
    and c: "carries (map (\<lambda>(fno, c, w). w) els) (drop 42 f)" by auto
  have "run_cycles p cyc (map row_cycle (frame_rows f k) @ ?idl) = Inr els"
    using r [rule_format, of "[]"] by simp
  moreover have "cycles_from gap (rows_from (Suc k) []) (int k) (fst ?l, fst (snd ?l)) = ?idl"
    by (simp only: rows_from.simps cycles_from.simps fst_conv snd_conv N_def)
  ultimately show ?case using c
    by (intro exI [of _ els] exI [of _ "[map (\<lambda>(fno, c, w). w) els]"]) simp
next
  case (Cons f2 fs)
  let ?l = "last (frame_rows f k)"
  have f: "is_bytes f" "path_accepts f" "f \<noteq> []" and f2: "f2 \<noteq> []"
    and rest: "list_all (\<lambda>f. is_bytes f \<and> path_accepts f) (f2 # fs)"
    using Cons.prems(3) by (auto simp: path_accepts_def)
  let ?idl = "replicate gap (fst ?l, fst (snd ?l), 0, 0, int (Suc k))"
  let ?next = "map row_cycle (frame_rows f2 (Suc k)) @ cycles_from gap (rows_from (Suc (Suc k)) fs) (int (Suc k))
      (fst (last (frame_rows f2 (Suc k))), fst (snd (last (frame_rows f2 (Suc k)))))"
  obtain r rows' where rows: "frame_rows f2 (Suc k) = r # rows'"
    using frame_rows_nonempty [OF f2] by blast
  have cycles: "cycles_from gap (rows_from (Suc k) (f2 # fs)) (int k) (fst ?l, fst (snd ?l)) = ?idl @ ?next"
    using cycles_next_frame [OF rows frame_rows_fno, of "int k" gap "rows_from (Suc (Suc k)) fs" "(fst ?l, fst (snd ?l))"] by simp
  from frame_cycles_receive [OF Cons.prems(1,2) f(1,2) last_row_idle [OF f(1,3)], of gap k "int (Suc k)" cyc k] g
  obtain p' els c' where r: "\<forall>cs'. run_cycles p cyc (map row_cycle (frame_rows f k) @ ?idl @ cs') =
      bind_result (run_cycles p' c' cs') (\<lambda>rest. Inr (els @ rest))"
    and p': "pipe_quiet p'" "pipe_bytes p'" and c: "carries (map (\<lambda>(fno, c, w). w) els) (drop 42 f)" by auto
  from Cons.IH [OF p' rest, of c' "Suc k"] obtain els2 Bs where
    "run_cycles p' c' ?next = Inr els2" "map (\<lambda>(fno, c, w). w) els2 = concat Bs"
    "list_all2 carries Bs (map (drop 42) (f2 # fs))" by blast
  then show ?case using r c cycles
    by (intro exI [of _ "els @ els2"] exI [of _ "map (\<lambda>(fno, c, w). w) els # Bs"]) simp
qed

lemma cycles_of_frames:
  assumes "f \<noteq> []"
  shows "cycles_of_rows gap (rows_from 0 (f # fs)) = replicate gap (0, 0, 0, 0, 0) @ map row_cycle (frame_rows f 0) @
    cycles_from gap (rows_from (Suc 0) fs) 0 (fst (last (frame_rows f 0)), fst (snd (last (frame_rows f 0))))"
proof -
  obtain r rows' where rows: "frame_rows f 0 = r # rows'" using frame_rows_nonempty [OF assms] by blast
  show ?thesis
    using cycles_next_frame [OF rows frame_rows_fno, of "-1" gap "rows_from (Suc 0) fs" "(0, 0)"]
    by (simp add: cycles_of_rows_def)
qed

text \<open>Idle cycles leave the path between frames.\<close>

lemma pipe_idles:
  "pipe_quiet p \<Longrightarrow> pipe_bytes p \<Longrightarrow> list_all idle_word ws \<Longrightarrow> list_all byte_word ws \<Longrightarrow>
   \<exists>p' outs. run_result pipe_step p ws = Inr (p', outs) \<and> pipe_quiet p' \<and> pipe_bytes p' \<and> list_all silent outs"
proof -
  assume p: "pipe_quiet p" "pipe_bytes p" and ws: "list_all idle_word ws" "list_all byte_word ws"
  note q = p(1) [unfolded pipe_quiet_def]
  have shape: "list_all word_shape ws" using ws(1) by (auto simp: list_all_iff idle_word_def)
  obtain m o1 where m: "run_loop mac_step (p_mac p) ws = (m, o1)" by fastforce
  have m': "mac_quiet m" "mac_shape m" "list_all gap_word o1"
    using mac_quiet_idles [of "p_mac p" ws] mac.inv_run [of "p_mac p" ws] mac.good_run [of "p_mac p" ws]
      gaps_enables [of o1] q ws(1) shape m by simp_all
  have "s_fb0 (p_sub p) = 0" "gap_word (sub_regs (p_sub p))" using q by blast+
  then obtain s o2 where s: "run_result sub_step (p_sub p) o1 = Inr (s, o2)" "s_fb0 s = 0"
    using sub_gaps [of "p_sub p" o1] gaps_silent [OF m'(3)] by blast
  have delay: "o2 @ [sub_regs s] = sub_regs (p_sub p) # o1" by (rule sub_delay [OF s(1)])
  have "list_all gap_word (o2 @ [sub_regs s])" unfolding delay using q m'(3) by simp
  then have o2: "list_all gap_word o2" "gap_word (sub_regs s)" by simp_all
  obtain i o3 where i: "run_loop ip_step (p_ip p) o2 = (i, o3)" by fastforce
  have i': "ip_quiet i" "ip_shape i" "list_all silent (map fst o3)"
    using ip_quiet_gaps [of "p_ip p" o2] ip.inv_run [of "p_ip p" o2] q gaps_silent [OF o2(1)] i o2(1)
      word_shape_gap by (auto simp: list_all_iff)
  obtain u o4 where u: "run_loop udp_step (p_udp p) o3 = (u, o4)" by fastforce
  have u': "udp_quiet u" "list_all silent o4" using udp_quiet_gaps [of "p_udp p" o3] q i'(3) u by simp_all
  have run: "run_result pipe_step p ws = Inr (\<lparr>p_mac = m, p_sub = s, p_ip = i, p_udp = u\<rparr>, o4)"
    unfolding pipe_run m Let_def prod.case s(1) bind_result_simps i u by (rule refl)
  moreover have "pipe_quiet \<lparr>p_mac = m, p_sub = s, p_ip = i, p_udp = u\<rparr>"
    using m' s(2) o2(2) i' u'(1) by (simp add: pipe_quiet_def)
  ultimately show ?thesis using pipe_run_bytes [OF run p(2) ws(2)] u'(2) by blast
qed

lemma rows_receive:
  assumes "list_all (\<lambda>f. is_bytes f \<and> path_accepts f) (f # fs)" and "6 \<le> gap"
  shows "\<exists>els Bs. run_cycles pipe_init 0 (cycles_of_rows gap (rows_from 0 (f # fs))) = Inr els \<and>
    map (\<lambda>(fno, c, w). w) els = concat Bs \<and> list_all2 carries Bs (map (drop 42) (f # fs))"
proof -
  have ne: "f \<noteq> []" using assms(1) by (auto simp: path_accepts_def)
  let ?idl = "replicate gap (0, 0, 0, 0, 0) :: cycle list"
  have "list_all idle_cycle ?idl" by (simp add: list_all_iff idle_cycle_def)
  then obtain ws where ws: "map cycle_word ?idl = map Inr ws" "list_all idle_word ws" "list_all byte_word ws"
    using idle_cycle_words by blast
  obtain p outs where p: "run_result pipe_step pipe_init ws = Inr (p, outs)" "pipe_quiet p" "pipe_bytes p" "list_all silent outs"
    using pipe_idles [OF pipe_quiet_init pipe_bytes_init ws(2,3)] by blast
  obtain els0 where els0: "\<forall>cs'. run_cycles pipe_init 0 (?idl @ cs') =
      bind_result (run_cycles p (0 + length ?idl) cs') (\<lambda>rest. Inr (els0 @ rest))"
    "map (\<lambda>(fno, c, w). w) els0 = filter pushed outs"
    using run_cycles_words [OF ws(1) p(1), of 0] by blast
  have "filter pushed outs = []" using p(4) by (induction outs) (simp_all add: pushed_def silent_def)
  then have "els0 = []" using els0(2) by simp
  moreover from frames_receive [OF p(2,3) assms, of "length ?idl" 0] obtain els Bs where
    "run_cycles p (length ?idl) (map row_cycle (frame_rows f 0) @ cycles_from gap (rows_from (Suc 0) fs) (int 0)
      (fst (last (frame_rows f 0)), fst (snd (last (frame_rows f 0))))) = Inr els"
    "map (\<lambda>(fno, c, w). w) els = concat Bs" "list_all2 carries Bs (map (drop 42) (f # fs))"
    by blast
  ultimately show ?thesis using els0(1)
    by (intro exI [of _ els] exI [of _ Bs]) (simp add: cycles_of_frames [OF ne] del: rows_from.simps)
qed

lemma list_all2_enabled: "list_all2 carries Bs fs \<Longrightarrow> concat (map enabled (concat Bs)) = concat fs"
  by (induction rule: list_all2_induct) (simp_all add: carries_enabled)

text \<open>The beat file of captures through \<open>run\<close>.\<close>

lemma fifo_path_lemma:
  assumes "list_all is_bytes pcaps" and "concat (map pcap_frames pcaps) = f # fs"
    and "list_all path_accepts (f # fs)" and "6 \<le> gap"
  shows "\<exists>els recs Bs. ni_run gap (gen_frames_text pcaps) = Inr (els, recs) \<and>
    map (\<lambda>(fno, cyc, w). w) els = concat Bs \<and> list_all2 carries Bs (map (drop 42) (f # fs))"
proof -
  have "list_all is_bytes (concat (map pcap_frames pcaps))"
    using assms(1) pcap_frames_bytes by (auto simp: list_all_iff)
  then have "list_all (\<lambda>f. is_bytes f \<and> path_accepts f) (f # fs)"
    using assms(2,3) by (auto simp: list_all_iff)
  from rows_receive [OF this assms(4)] obtain els Bs where
    "run_cycles pipe_init 0 (cycles_of_rows gap (rows_from 0 (f # fs))) = Inr els"
    "map (\<lambda>(fno, c, w). w) els = concat Bs" "list_all2 carries Bs (map (drop 42) (f # fs))" by blast
  moreover have "beats_from_file (gen_frames_text pcaps) = Inr (rows_from 0 (f # fs))"
    using beats_of_text [OF assms(1)] by (simp only: assms(2))
  ultimately show ?thesis by (auto simp add: ni_run_def simp del: rows_from.simps)
qed

section \<open>Properties\<close>

text \<open>C3. The receive path delivers exactly the UDP payloads: for the beat file of captures whose frames are
  all addressed to the board (MAC, IP address, UDP port), unfragmented IPv4 with a 20-byte header, at
  least 55 bytes long and with one to six bytes in the last word, and with at least six idle cycles
  between frames, \<open>run\<close> raises no exception and the words it passes to the FIFO are, frame by frame, a
  burst of full words and one end word that enable exactly the bytes of the frame behind its 42 header
  bytes; nothing else reaches the FIFO.\<close>
theorem fifo_carries_payloads:
  assumes "list_all is_bytes pcaps" and "concat (map pcap_frames pcaps) = f # fs"
    and "list_all path_accepts (f # fs)" and "6 \<le> gap"
  shows "\<exists>els recs Bs. ni_run gap (gen_frames_text pcaps) = Inr (els, recs) \<and>
    map (\<lambda>(fno, cyc, w). w) els = concat Bs \<and> list_all2 carries Bs (map (drop 42) (f # fs))"
  by (rule fifo_path_lemma [OF assms])

text \<open>A frame the path accepts, as a capture file.\<close>

definition example_frame :: "int list" where
  "example_frame = [0, 0x0a, 0x35, 0x18, 0x3c, 0x1f] @ [0x24, 0x5e, 0xbe, 0x8b, 0xb1, 0x94] @ [8, 0] @
     [0x45, 0, 0, 46, 0, 1, 0x40, 0, 64, 17, 0, 0, 10, 0, 1, 10, 10, 0, 1, 14] @
     [0xd6, 0x20, 31, 64, 0, 26, 0, 0] @ [18, 0, 1, 1, 5, 0, 0, 0] @ [10, 0x29, 1, 2, 3, 4, 5, 6, 7, 8]"

definition example_pcap :: "int list" where
  "example_pcap = replicate 24 0 @ replicate 11 0 @ [60] @ replicate 4 0 @ example_frame"

lemma example_facts: "list_all is_bytes [example_pcap]" "concat (map pcap_frames [example_pcap]) = [example_frame]"
  "path_accepts example_frame"
  by code_simp+

theorem fifo_carries_payloads_witness:
  "\<exists>els recs. ni_run 64 (gen_frames_text [example_pcap]) = Inr (els, recs) \<and>
     concat (map (\<lambda>(fno, cyc, w). enabled w) els) = drop 42 example_frame"
proof -
  have "list_all path_accepts [example_frame]" using example_facts(3) by simp
  from fifo_carries_payloads [OF example_facts(1,2) this, of 64]
  obtain els recs Bs where run: "ni_run 64 (gen_frames_text [example_pcap]) = Inr (els, recs)"
    "map (\<lambda>(fno, cyc, w). w) els = concat Bs" "list_all2 carries Bs (map (drop 42) [example_frame])" by auto
  have "concat (map (\<lambda>(fno, cyc, w). enabled w) els) = concat (map enabled (concat Bs))"
    by (simp flip: run(2) add: comp_def case_prod_unfold)
  then show ?thesis using run(1) list_all2_enabled [OF run(3)] by auto
qed

end
