(* ===== verification/NI_Parser.thy ===== *)
theory NI_Parser
  imports NI_Receive
begin

text \<open>
  The parser behind the FIFO: \<open>step_elem\<close> on the words of a burst goes through the states of the
  specification on the payload's bytes, and writes one header record per frame and one message record
  per further word.
\<close>

section \<open>One element\<close>

text \<open>The specification's state without the output, which the bit-exact step does not keep.\<close>

definition machine :: "spec \<Rightarrow> spec" where
  "machine s = s\<lparr>sout := []\<rparr>"

lemma machine_eq: "machine s = machine t \<longleftrightarrow>
  spend s = spend t \<and> sstate s = sstate t \<and> stotal s = stotal t \<and> shdr_len s = shdr_len t"
  by (cases s; cases t) (auto simp: machine_def)

lemma machine_step: "machine s = machine t \<Longrightarrow> machine (spec_step s f off bs eof) = machine (spec_step t f' off' bs eof)"
  by (cases "sstate s") (auto simp: machine_eq spec_step_def Let_def)

lemma machine_fits: "machine s = machine t \<Longrightarrow> step_fits s bs = step_fits t bs"
  by (simp add: machine_eq step_fits_def)

lemma machine_same: "same_machine p q \<Longrightarrow> machine (abs_parser p) = machine (abs_parser q) \<and> (wf_parser p \<longleftrightarrow> wf_parser q)"
  by (auto simp: same_machine_def machine_eq abs_parser_def wf_parser_def)

lemma elem_refines:
  assumes wf: "wf_parser p" and m: "machine (abs_parser p) = machine s"
    and d: "is_bytes d" "length d = 8" "popcount keep \<le> 8" and bs: "take (popcount keep) d = bs"
    and fits: "step_fits s bs" and front: "sstate s = MSG \<Longrightarrow> spend s @ bs \<noteq> [] \<and> 0 < hd (spend s @ bs)"
  shows "wf_parser (fst (parser_step_elem p f d keep True eof)) \<and>
    machine (abs_parser (fst (parser_step_elem p f d keep True eof))) = machine (spec_step s f' off bs eof)"
proof -
  let ?q = "add_data_to_buffer (pbuf p) (pL p) d keep"
  have fits': "step_fits (abs_parser p) (take (popcount keep) d)"
    using fits machine_fits [OF m] bs by simp
  have room: "length (queue_bytes (pbuf p, pL p)) + popcount keep \<le> 72"
    using fits' d by (simp add: step_fits_def abs_parser_def Let_def min_def)
  have law: "wf_buf ?q" "queue_bytes ?q = spend s @ bs"
    using bq.add_law [OF wf [unfolded wf_parser_def] d room] m bs
    by (simp_all add: machine_eq abs_parser_def)
  have "0 < byte_at (fst ?q) 0" if "pstate p = MSG"
  proof -
    have "sstate s = MSG" using that m by (simp add: machine_eq abs_parser_def)
    then show ?thesis using front law queue_reads(2) [of "fst ?q" "snd ?q"] by simp
  qed
  from step_elem_machine [OF this]
  have same: "same_machine (fst (parser_step_elem p f d keep True eof)) (parser_step p f off d keep eof)" by blast
  from parser_step_refines_lemma [OF wf d fits', of f off eof]
  have "wf_parser (parser_step p f off d keep eof)"
    "machine (abs_parser (parser_step p f off d keep eof)) = machine (spec_step s f' off bs eof)"
    using machine_step [OF m] bs by simp_all
  then show ?thesis using machine_same [OF same] by simp
qed

text \<open>The debug records.\<close>

lemma elem_msg_record:
  assumes wf: "wf_parser p" and "pstate p = MSG" and d: "is_bytes d" "length d = 8" "popcount keep \<le> 8"
    and room: "length (queue_bytes (pbuf p, pL p)) + popcount keep \<le> 72" and ne: "0 < popcount keep"
  shows "snd (parser_step_elem p f d keep True eof) = Some (RMsg (from_be d))"
proof -
  obtain b l where q: "add_data_to_buffer (pbuf p) (pL p) d keep = (b, l)" by fastforce
  have law: "wf_buf (b, l)" "queue_bytes (b, l) = queue_bytes (pbuf p, pL p) @ take (popcount keep) d"
    using bq.add_law [OF wf [unfolded wf_parser_def] d room] q by simp_all
  have "queue_bytes (b, l) \<noteq> []" using law(2) ne d(2) by auto
  then have "l \<noteq> 0" using queue_reads(1) [OF law(1)] by auto
  then show ?thesis using assms(2) q by (simp add: parser_step_elem_def Let_def split_beta)
qed

lemma word_of_bytes:
  assumes "is_word w" and "is_bytes bs" "length bs = 8" and "\<And>j. j < 8 \<Longrightarrow> wbyte w j = bs ! j"
  shows "w = from_be bs"
proof (rule bit_eqI)
  fix n
  show "bit w n \<longleftrightarrow> bit (from_be bs) n"
  proof (cases "n < 64")
    case True
    let ?j = "7 - n div 8"
    have j: "?j < 8" "n = 8 * (7 - ?j) + n mod 8" using True by (auto simp: div_le_mono)
    have "wbyte w ?j = wbyte (from_be bs) ?j" using assms wbyte_from_be j(1) by simp
    then have "bit (wbyte w ?j) (n mod 8) = bit (wbyte (from_be bs) ?j) (n mod 8)" by simp
    then show ?thesis unfolding bit_wbyte using j(2) by simp
  next
    case False
    then show ?thesis using is_word_bit [OF assms(1)] is_word_bit [OF is_word_from_be [OF assms(2,3)]] by blast
  qed
qed

lemma elem_hdr_record:
  assumes "idle p" and d: "is_bytes d" "length d = 8"
  shows "snd (parser_step_elem p f d 255 True eof) = Some (RHdr (from_le (take 2 d)) (from_be d))"
proof -
  have p: "wf_parser p" "pstate p = HDR" "queue_bytes (pbuf p, pL p) = []"
    using assms(1) by (simp_all add: idle_def)
  obtain b l where q: "add_data_to_buffer (pbuf p) (pL p) d 255 = (b, l)" by fastforce
  have count: "popcount 255 = 8" using popcount_mask [of 8] by simp
  have law: "wf_buf (b, l)" "queue_bytes (b, l) = d"
    using bq.add_law [OF p(1) [unfolded wf_parser_def] d, of 255] q p(3) d(2) count by simp_all
  have l: "l = 8" using queue_reads(1) [OF law(1)] law(2) d(2) by simp
  have head: "byte_at b 0 OR push_bit 8 (byte_at b 1) = from_le (take 2 d)"
    using queue_reads(5) [OF law(1)] law(2) d(2) by simp
  have b0: "is_word (b ! 0)" using law(1) by (auto simp: wf_buf_def list_all_length)
  have "wbyte (b ! 0) j = d ! j" if "j < 8" for j
    using that nth_contents [of j 8 b] law(2) l by (simp add: queue_bytes_def)
  then have "b ! 0 = from_be d" by (rule word_of_bytes [OF b0 d])
  then show ?thesis using p(2) q l head by (simp add: parser_step_elem_def Let_def split_beta)
qed

section \<open>One burst\<close>

lemma keep_of_enables: "k \<le> 8 \<Longrightarrow> popcount (keep_of (replicate k True @ replicate (8 - k) False)) = k"
proof -
  have "list_all (\<lambda>k. popcount (keep_of (replicate k True @ replicate (8 - k) False)) = k) [0..<9]" by code_simp
  then show "k \<le> 8 \<Longrightarrow> ?thesis" by (simp only: list_all_iff set_upt) simp
qed

lemma keep_of_full: "keep_of (replicate 8 True) = 255"
  by code_simp

lemma burst_first:
  assumes "lanes8 Y y k" and "burst_bytes Y y k = r"
  obtains w B where "burst Y y k = w # B" "wvalid w" "weog w \<or> weob w \<longleftrightarrow> length r \<le> 8"
    "length (wdata w) = 8" "popcount (keep_of (wbe w)) \<le> 8" "0 < popcount (keep_of (wbe w))"
    "take (popcount (keep_of (wbe w))) (wdata w) = take 8 r" "r \<noteq> []"
    "if length r \<le> 8 then B = [] else (\<exists>Y'. B = burst Y' y k \<and> lanes8 Y' y k \<and> burst_bytes Y' y k = drop 8 r)"
proof (cases Y)
  case Nil
  have "y \<noteq> []" using assms(1) by (auto simp: lanes8_def)
  then show thesis using assms Nil keep_of_enables [of k] that [of "end_word y k" "[]"]
    by (auto simp: burst_simps lanes8_def burst_bytes_def)
next
  case (Cons d Y')
  have k: "0 < length (burst_bytes Y' y k)" using assms(1) Cons by (auto simp: lanes8_def burst_bytes_def)
  then have long: "\<not> length r \<le> 8" using assms Cons by (auto simp: lanes8_def burst_bytes_def)
  have count: "popcount (keep_of (replicate 8 True)) = 8" using keep_of_enables [of 8] by simp
  show thesis
    by (rule that [of "full_word d" "burst Y' y k"])
      (use assms Cons long count in \<open>auto simp: burst_simps lanes8_def burst_bytes_def\<close>)
qed

lemma held_machine: "machine (abs_parser p) = machine s \<Longrightarrow> queue_bytes (pbuf p, pL p) = spend s \<and> pstate p = sstate s"
  by (simp add: machine_eq abs_parser_def)

lemma feed_burst:
  assumes "wf_parser p" and "machine (abs_parser p) = machine s" and "lanes8 Y y k" "burst_bytes Y y k = r"
    and "list_all byte_word (burst Y y k)" and "map (\<lambda>(fno, c, w). w) els = burst Y y k"
    and "feed_fits s f off r" "feed_msgs s f off r"
  shows "\<exists>q. wf_parser q \<and> machine (abs_parser q) = machine (spec_feed s f off r) \<and>
    (\<forall>rest. feed_elements p (els @ rest) = map (\<lambda>w. RMsg (from_be (wdata w))) (burst Y y k) @ feed_elements q rest)"
  using assms
proof (induction "length r" arbitrary: p s Y r els off rule: less_induct)
  case less
  obtain w B where w: "burst Y y k = w # B" "wvalid w" "weog w \<or> weob w \<longleftrightarrow> length r \<le> 8"
    "length (wdata w) = 8" "popcount (keep_of (wbe w)) \<le> 8" "0 < popcount (keep_of (wbe w))"
    "take (popcount (keep_of (wbe w))) (wdata w) = take 8 r" "r \<noteq> []"
    and B: "if length r \<le> 8 then B = [] else (\<exists>Y'. B = burst Y' y k \<and> lanes8 Y' y k \<and> burst_bytes Y' y k = drop 8 r)"
    by (rule burst_first [OF less.prems(3,4)])
  obtain fno c els' where els: "els = (fno, c, w) # els'" "map (\<lambda>(fno, c, w). w) els' = B"
    using less.prems(6) w(1) by (cases els) auto
  have bytes: "is_bytes (wdata w)" "list_all byte_word B" using less.prems(5) w(1) by (simp_all add: byte_word_def)
  note fits = less.prems(7) [unfolded feed_step(2) [OF w(8)]]
  note msgs = less.prems(8) [unfolded feed_step(3) [OF w(8)]]
  let ?keep = "keep_of (wbe w)" and ?eof = "length r \<le> 8"
  define q where "q = fst (parser_step_elem p fno (wdata w) ?keep True ?eof)"
  let ?s = "spec_step s f (int off) (take 8 r) ?eof"
  have front: "spend s @ take 8 r \<noteq> [] \<and> 0 < hd (spend s @ take 8 r)" using msgs w(8) by simp
  have q: "wf_parser q" "machine (abs_parser q) = machine ?s"
    using elem_refines [OF less.prems(1,2) bytes(1) w(4,5,7), of fno ?eof f "int off"] fits front
    unfolding q_def by blast+
  note held = held_machine [OF less.prems(2)]
  have "step_fits s (take 8 r)" using fits by blast
  then have room: "length (queue_bytes (pbuf p, pL p)) + popcount ?keep \<le> 72"
    using held arg_cong [OF w(7), of length] w(4,5) by (simp add: step_fits_def Let_def)
  have rec: "snd (parser_step_elem p fno (wdata w) ?keep True ?eof) = Some (RMsg (from_be (wdata w)))"
    using elem_msg_record [OF less.prems(1) _ bytes(1) w(4,5) room w(6)] held msgs by simp
  have feed: "feed_elements p (els @ rest) = RMsg (from_be (wdata w)) # feed_elements q (els' @ rest)" for rest
    using rec w(2,3) by (simp add: els(1) Let_def split_beta q_def)
  have next_feed: "spec_feed s f off r = spec_feed ?s f (off + 8) (drop 8 r)" by (rule feed_step(1) [OF w(8)])
  show ?case
  proof (cases "length r \<le> 8")
    case True
    then show ?thesis using q B els feed w(1) next_feed by (intro exI [of _ q]) simp
  next
    case False
    then obtain Y' where Y': "B = burst Y' y k" "lanes8 Y' y k" "burst_bytes Y' y k = drop 8 r" using B by auto
    have "length (drop 8 r) < length r" using w(8) by simp
    from less.hyps [OF this q Y'(2,3) bytes(2) [unfolded Y'(1)] els(2) [unfolded Y'(1)], of "off + 8"] fits msgs
    obtain q' where "wf_parser q'" "machine (abs_parser q') = machine (spec_feed ?s f (off + 8) (drop 8 r))"
      "\<forall>rest. feed_elements q (els' @ rest) = map (\<lambda>w. RMsg (from_be (wdata w))) (burst Y' y k) @ feed_elements q' rest"
      by blast
    then show ?thesis using feed w(1) Y'(1) next_feed by (intro exI [of _ q']) simp
  qed
qed

text \<open>The records of a whole unit, and the parser behind it.\<close>

definition unit_records :: "stream_word list \<Rightarrow> debug_record list" where
  "unit_records B = (case B of [] \<Rightarrow> []
     | w # ws \<Rightarrow> RHdr (from_le (take 2 (wdata w))) (from_be (wdata w)) #
         map (\<lambda>w. RMsg (from_be (wdata w))) ws)"

lemma feed_unit_burst:
  assumes p: "idle p" and wf: "wf_unit hdr ms" and B: "carries B (hdr @ concat ms)"
    and els: "map (\<lambda>(fno, c, w). w) els = B"
  shows "\<exists>q. idle q \<and> (\<forall>rest. feed_elements p (els @ rest) = unit_records B @ feed_elements q rest)"
proof -
  have hdr: "is_bytes hdr" "length hdr = 8" and ms: "ms \<noteq> []" "list_all wf_msg ms"
    using wf by (simp_all add: wf_unit_def)
  then obtain m ms' where m: "ms = m # ms'" "wf_msg m" by (cases ms) auto
  have len: "8 < length (hdr @ concat ms)" using hdr m by (auto simp: wf_msg_def)
  obtain Y y k where Y: "B = burst Y y k" "lanes8 Y y k" "list_all byte_word B" "burst_bytes Y y k = hdr @ concat ms"
    using B by (auto simp: carries_def)
  obtain d Y' where d: "Y = d # Y'" "d = hdr" "lanes8 Y' y k" "burst_bytes Y' y k = concat ms"
    by (rule burst_head [OF Y(2,4) len]) (use hdr(2) in simp)
  obtain fno c els' where e: "els = (fno, c, full_word hdr) # els'" "map (\<lambda>(fno, c, w). w) els' = burst Y' y k"
    using els Y(1) d(1,2) by (cases els) (auto simp: burst_simps)
  let ?s = "abs_parser p"
  have s: "sstate ?s = HDR" "spend ?s = []" "wf_parser p" using p by (simp_all add: idle_def abs_parser_def)
  note feed = feed_unit [OF s(1,2) wf_unit_tail [OF wf], of fno, unfolded append_Nil2 Let_def]
  define s1 where "s1 = spec_step ?s fno 0 hdr False"
  have s1: "feed_msgs s1 fno 8 (concat ms)" using feed by (simp add: s1_def)
  have ne: "hdr @ concat ms \<noteq> []" using hdr(2) by auto
  have short: "\<not> length (hdr @ concat ms) \<le> 8" using len by simp
  have cut: "take 8 (hdr @ concat ms) = hdr" "drop 8 (hdr @ concat ms) = concat ms" using hdr(2) by simp_all
  have fits: "step_fits ?s hdr" "feed_fits s1 fno 8 (concat ms)"
    using feed feed_step(2) [OF ne, of ?s fno 0] short cut by (simp_all add: s1_def)
  have fed: "spec_feed ?s fno 0 (hdr @ concat ms) = spec_feed s1 fno 8 (concat ms)"
    using feed_step(1) [OF ne, of ?s fno 0] short cut by (simp add: s1_def)
  have count: "popcount 255 = 8" using popcount_mask [of 8] by simp
  define p1 where "p1 = fst (parser_step_elem p fno hdr 255 True False)"
  have p1: "wf_parser p1" "machine (abs_parser p1) = machine s1"
    using elem_refines [OF s(3) refl hdr, of 255 hdr fno False fno 0] count hdr(2) fits(1) s(1)
    by (simp_all add: p1_def s1_def)
  have "list_all byte_word (burst Y' y k)" using Y(1,3) d(1) by (simp add: burst_simps)
  from feed_burst [OF p1 d(3,4) this e(2) fits(2) s1]
  obtain q where q: "wf_parser q" "machine (abs_parser q) = machine (spec_feed s1 fno 8 (concat ms))"
    "\<forall>rest. feed_elements p1 (els' @ rest) = map (\<lambda>w. RMsg (from_be (wdata w))) (burst Y' y k) @ feed_elements q rest"
    by blast
  have "pstate q = HDR \<and> queue_bytes (pbuf q, pL q) = []"
    using held_machine [OF q(2)] feed fed by simp
  then have "idle q" using q(1) by (simp add: idle_def)
  moreover have "feed_elements p (els @ rest) = unit_records B @ feed_elements q rest" for rest
    using q(3) elem_hdr_record [OF p hdr, of fno False] keep_of_full
    by (simp add: e(1) Let_def split_beta unit_records_def Y(1) d(1,2) burst_simps flip: p1_def)
  ultimately show ?thesis by blast
qed

section \<open>Whole runs\<close>

lemma feed_units:
  "idle p \<Longrightarrow> list_all wf_capture us \<Longrightarrow> list_all2 carries Bs (map payload_of us) \<Longrightarrow>
   map (\<lambda>(fno, c, w). w) els = concat Bs \<Longrightarrow> feed_elements p els = concat (map unit_records Bs)"
proof (induction us arbitrary: p Bs els)
  case (Cons u us)
  obtain eth hdr ms where u: "u = (eth, hdr, ms)" by (cases u)
  from Cons.prems(3) obtain B Bs' where B: "Bs = B # Bs'" "carries B (hdr @ concat ms)"
    "list_all2 carries Bs' (map payload_of us)" by (auto simp: list_all2_Cons2 u) (auto simp: payload_of_def)
  obtain e1 e2 where e: "els = e1 @ e2" "map (\<lambda>(fno, c, w). w) e1 = B" "map (\<lambda>(fno, c, w). w) e2 = concat Bs'"
    using Cons.prems(4) B(1) by (auto simp: map_eq_append_conv)
  have wf: "wf_unit hdr ms" using Cons.prems(2) by (simp add: u wf_capture_def)
  from feed_unit_burst [OF Cons.prems(1) wf B(2) e(2)] obtain q where
    q: "idle q" "\<forall>rest. feed_elements p (e1 @ rest) = unit_records B @ feed_elements q rest" by blast
  have "feed_elements q e2 = concat (map unit_records Bs')"
    using Cons.IH [OF q(1) _ B(3) e(3)] Cons.prems(2) by simp
  then show ?case using q(2) e(1) B(1) by simp
qed simp

lemma payload_frame: "wf_capture u \<Longrightarrow> drop 42 (frame_of u) = payload_of u"
  by (cases u) (simp add: wf_capture_def frame_of_def payload_of_def)

section \<open>Properties\<close>

lemma receive_path_lemma:
  assumes "list_all is_bytes pcaps" and "concat (map pcap_frames pcaps) = map frame_of (u # us)"
    and "list_all wf_capture (u # us)" and "list_all (path_accepts \<circ> frame_of) (u # us)" and "6 \<le> gap"
  shows "\<exists>els Bs. ni_run gap (gen_frames_text pcaps) = Inr (els, concat (map unit_records Bs)) \<and>
    map (\<lambda>(fno, cyc, w). w) els = concat Bs \<and> list_all2 carries Bs (map payload_of (u # us))"
proof -
  have "list_all is_bytes (map frame_of (u # us))"
    using assms(1) pcap_frames_bytes unfolding assms(2) [symmetric] by (auto simp: list_all_iff)
  then have "list_all (\<lambda>f. is_bytes f \<and> path_accepts f) (frame_of u # map frame_of us)"
    using assms(4) by (auto simp: list_all_iff)
  from rows_receive [OF this assms(5)] obtain els Bs where
    els: "run_cycles pipe_init 0 (cycles_of_rows gap (rows_from 0 (map frame_of (u # us)))) = Inr els"
    "map (\<lambda>(fno, c, w). w) els = concat Bs" "list_all2 carries Bs (map (drop 42) (map frame_of (u # us)))" by auto
  have "map (drop 42) (map frame_of (u # us)) = map payload_of (u # us)"
    using assms(3) payload_frame by (auto simp: list_all_iff)
  then have Bs: "list_all2 carries Bs (map payload_of (u # us))" using els(3) by (simp only:)
  have "feed_elements parser_init els = concat (map unit_records Bs)"
    by (rule feed_units [OF idle_init assms(3) Bs els(2)])
  moreover have "ni_run gap (gen_frames_text pcaps) = Inr (els, feed_elements parser_init els)"
    using beats_of_text [OF assms(1)] els(1) by (simp add: ni_run_def assms(2) del: rows_from.simps)
  ultimately show ?thesis using els(2) Bs by (intro exI [of _ els] exI [of _ Bs]) simp
qed

text \<open>C2. The whole receive path down to the parser's debug records: for the beat file of captures of
  well-formed units in accepted frames, \<open>run\<close> returns, the FIFO carries one burst per frame with
  exactly the frame's unit, and the records are, frame by frame, one header record with the unit's
  length and its first eight bytes, then one message record with the stream word for every further
  word of the frame.\<close>
theorem receive_path_records:
  assumes "list_all is_bytes pcaps" and "concat (map pcap_frames pcaps) = map frame_of (u # us)"
    and "list_all wf_capture (u # us)" and "list_all (path_accepts \<circ> frame_of) (u # us)" and "6 \<le> gap"
  shows "\<exists>els Bs. ni_run gap (gen_frames_text pcaps) = Inr (els, concat (map unit_records Bs)) \<and>
    map (\<lambda>(fno, cyc, w). w) els = concat Bs \<and> list_all2 carries Bs (map payload_of (u # us))"
  by (rule receive_path_lemma [OF assms])

theorem receive_path_records_witness:
  "\<exists>els B. ni_run 64 (gen_frames_text [example_pcap]) = Inr (els, unit_records B) \<and>
     map (\<lambda>(fno, cyc, w). w) els = B \<and>
     concat (map enabled B) = [18, 0, 1, 1, 5, 0, 0, 0] @ [10, 0x29, 1, 2, 3, 4, 5, 6, 7, 8]"
proof -
  let ?u = "(take 42 example_frame, [18, 0, 1, 1, 5, 0, 0, 0], [[10, 0x29, 1, 2, 3, 4, 5, 6, 7, 8]])"
  have frame: "frame_of ?u = example_frame" by (simp add: frame_of_def example_frame_def)
  have "list_all wf_capture [?u]"
    by (simp add: wf_capture_def wf_unit_def wf_msg_def is_byte_def example_frame_def paced_def keeps_pace.simps)
  from receive_path_records [OF example_facts(1) _ this, of 64] example_facts(2,3)
  obtain els Bs where "ni_run 64 (gen_frames_text [example_pcap]) = Inr (els, concat (map unit_records Bs))"
    "map (\<lambda>(fno, cyc, w). w) els = concat Bs" "list_all2 carries Bs (map payload_of [?u])"
    by (auto simp: frame)
  then show ?thesis
    by (cases Bs) (auto simp: payload_of_def dest: carries_enabled)
qed

end
