(* ===== verification/Fifo_Poller.thy ===== *)
theory Fifo_Poller
  imports Py_Bytes Py_Text "HOL-Library.Word" "HOL-Library.List_Lexorder" "HOL-Library.Char_ord"
begin

text \<open>
  The device side of \<open>scripts/fifo_server.py\<close>: finding the UIO device of an address, its 32-bit
  register accesses, and one round of the polling loop that reads a frame out of a PG080 receive FIFO
  and publishes it. The hardware is a parameter, a state \<open>'d\<close> with a read and a write of a register
  that may both change it; registers are \<open>32 word\<close>.
\<close>

section \<open>The code\<close>

definition FIFO_ISR :: nat where "FIFO_ISR = 0x00"
definition FIFO_RDFR :: nat where "FIFO_RDFR = 0x18"
definition FIFO_RDFO :: nat where "FIFO_RDFO = 0x1C"
definition FIFO_RLR :: nat where "FIFO_RLR = 0x24"
definition FIFO_SRR :: nat where "FIFO_SRR = 0x28"
definition FIFO_AXI4_RDFD :: nat where "FIFO_AXI4_RDFD = 0x1000"
definition FIFO_RESET_MAGIC :: "32 word" where "FIFO_RESET_MAGIC = 0xA5"

text \<open>
  \<open>find_uio\<close> over the names in the directory and the text of each \<open>addr\<close> file, \<open>None\<close> where opening
  it fails.
\<close>

fun find_uio_in :: "string list \<Rightarrow> (string \<Rightarrow> string option) \<Rightarrow> int \<Rightarrow> string option py_result" where
  "find_uio_in [] addr_file addr = Inr None"
| "find_uio_in (name # names) addr_file addr =
     (if take 3 name \<noteq> ''uio'' then find_uio_in names addr_file addr
      else case addr_file name of
             None \<Rightarrow> find_uio_in names addr_file addr
           | Some t \<Rightarrow> bind_result (py_int 16 (py_strip t)) (\<lambda>n.
               if n = addr then Inr (Some (''/dev/'' @ name)) else find_uio_in names addr_file addr))"

definition find_uio :: "string list \<Rightarrow> (string \<Rightarrow> string option) \<Rightarrow> int \<Rightarrow> string option py_result" where
  "find_uio listdir addr_file addr = find_uio_in (sort listdir) addr_file addr"

text \<open>A mapping: the register array is indexed by word, each access may change the device.\<close>

record 'd uio_map =
  regs_read :: "'d \<Rightarrow> nat \<Rightarrow> 32 word \<times> 'd"
  regs_write :: "'d \<Rightarrow> nat \<Rightarrow> 32 word \<Rightarrow> 'd"

definition r32 :: "'d uio_map \<Rightarrow> 'd \<Rightarrow> nat \<Rightarrow> 32 word \<times> 'd" where
  "r32 u d off = regs_read u d (off div 4)"

definition w32 :: "'d uio_map \<Rightarrow> 'd \<Rightarrow> nat \<Rightarrow> 32 word \<Rightarrow> 'd" where
  "w32 u d off val = regs_write u d (off div 4) val"

definition reset_rx :: "'d uio_map \<Rightarrow> 'd \<Rightarrow> 'd" where
  "reset_rx ctrl d =
     (let d1 = w32 ctrl d FIFO_RDFR FIFO_RESET_MAGIC in w32 ctrl d1 FIFO_ISR 0xFFFFFFFF)"

definition poller_start :: "'d uio_map \<Rightarrow> 'd \<Rightarrow> 32 word \<times> 'd" where
  "poller_start ctrl d =
     (let d1 = w32 ctrl d FIFO_SRR FIFO_RESET_MAGIC; d2 = reset_rx ctrl d1
      in r32 ctrl d2 FIFO_RDFO)"

text \<open>A published frame; the time stamp is the printed \<open>time.time()\<close>.\<close>

record fifo_frame =
  ff_fifo :: string
  ff_frame :: nat
  ff_ts :: string
  ff_len :: nat
  ff_partial :: bool
  ff_data :: string

definition hex_bytes :: "int list \<Rightarrow> string" where
  "hex_bytes bs = concat (map (\<lambda>b. to_hex 2 (nat b)) bs)"

text \<open>The word-reading loop: two 32-bit pops per 64-bit word, least significant first.\<close>

fun read_words :: "'d uio_map \<Rightarrow> nat \<Rightarrow> 'd \<Rightarrow> int list \<times> 'd" where
  "read_words data 0 d = ([], d)"
| "read_words data (Suc n) d =
     (let (lo, d1) = r32 data d FIFO_AXI4_RDFD;
          (hi, d2) = r32 data d1 FIFO_AXI4_RDFD;
          (raw, d3) = read_words data n d2
      in (to_le 8 (uint lo OR push_bit 32 (uint hi)) @ raw, d3))"

record poll_state =
  ps_frame :: nat
  ps_warned :: bool

text \<open>One round of the loop: the frame to publish, if any.\<close>

definition poll_round ::
    "string \<Rightarrow> 'd uio_map \<Rightarrow> 'd uio_map \<Rightarrow> string \<Rightarrow> poll_state \<Rightarrow> 'd \<Rightarrow>
     poll_state \<times> 'd \<times> fifo_frame option" where
  "poll_round tag ctrl data now s d =
     (let (rdfo, d1) = r32 ctrl d FIFO_RDFO
      in if rdfo = 0 then (s, d1, None)
         else
           (let (rlr, d2) = r32 ctrl d1 FIFO_RLR
            in if rlr = 0 then (s\<lparr>ps_warned := True\<rparr>, d2, None)
               else
                 (let len = unat (rlr AND 0x7FFFFFFF);
                      partial = (drop_bit 31 rlr \<noteq> 0);
                      s1 = s\<lparr>ps_warned := False\<rparr>
                  in if len = 0 \<or> len > 4096 then (s1, reset_rx ctrl d2, None)
                     else
                       (let nwords = (len + 7) div 8;
                            (raw, d3) = read_words data nwords d2
                        in (s1\<lparr>ps_frame := ps_frame s1 + 1\<rparr>, d3,
                            Some \<lparr>ff_fifo = tag, ff_frame = ps_frame s1 + 1, ff_ts = now, ff_len = len,
                                  ff_partial = partial, ff_data = hex_bytes (take len raw)\<rparr>)))))"

section \<open>Words in wire order\<close>

text \<open>Popping a list of 32-bit words, one read each.\<close>

fun pops :: "'d uio_map \<Rightarrow> 32 word list \<Rightarrow> 'd \<Rightarrow> 'd \<Rightarrow> bool" where
  "pops u [] d d' \<longleftrightarrow> d = d'"
| "pops u (w # ws) d d' \<longleftrightarrow> fst (r32 u d FIFO_AXI4_RDFD) = w \<and> pops u ws (snd (r32 u d FIFO_AXI4_RDFD)) d'"

text \<open>A frame as the FIFO holds it: padded to whole 64-bit words, cut into 32-bit ones.\<close>

fun words32 :: "int list \<Rightarrow> 32 word list" where
  "words32 (a # b # c # d # rest) = word_of_int (from_le [a, b, c, d]) # words32 rest"
| "words32 _ = []"

lemma le_pair:
  fixes lo hi :: "32 word"
  shows "to_le 8 (uint lo OR push_bit 32 (uint hi)) = to_le 4 (uint lo) @ to_le 4 (uint hi)"
proof -
  have lo: "0 \<le> uint lo" "uint lo < 2 ^ 32"
    using unsigned_less [of lo, where 'a = int] by simp_all
  have t: "take_bit 32 (uint lo) = uint lo" using lo by (simp add: take_bit_int_eq_self)
  have "\<not> bit (uint lo) i \<or> \<not> bit (push_bit 32 (uint hi)) i" for i
    by (metis t bit_push_bit_iff bit_take_bit_iff leD)
  then have "uint lo OR push_bit 32 (uint hi) = uint lo + push_bit 32 (uint hi)"
    by (rule disjunctive_add [symmetric])
  then have or: "uint lo OR push_bit 32 (uint hi) = uint lo + 2 ^ 32 * uint hi"
    by (simp add: push_bit_eq_mult)
  have split: "to_le (m + k) n = to_le m n @ to_le k (n div 256 ^ m)" for m k and n :: int
    by (induction m arbitrary: n) (simp_all add: zdiv_zmult2_eq)
  have "to_le m (a + 256 ^ m * b) = to_le m a" for m and a b :: int
  proof (induction m arbitrary: a)
    case 0
    then show ?case by simp
  next
    case (Suc m)
    have "(a + 256 ^ Suc m * b) div 256 = a div 256 + 256 ^ m * b" "(a + 256 ^ Suc m * b) mod 256 = a mod 256"
      by (simp_all add: mult.assoc)
    then show ?case using Suc by simp
  qed
  from this [of 4 "uint lo" "uint hi"] have "to_le 4 (uint lo + 2 ^ 32 * uint hi) = to_le 4 (uint lo)" by simp
  moreover have "(uint lo + 2 ^ 32 * uint hi) div 256 ^ 4 = uint hi" using lo by simp
  ultimately show ?thesis using split [of 4 4 "uint lo OR push_bit 32 (uint hi)"]
    by (simp add: or)
qed

lemma words32_quad: "is_bytes [a, b, c, d] \<Longrightarrow> to_le 4 (uint (word_of_int (from_le [a, b, c, d]) :: 32 word)) = [a, b, c, d]"
proof -
  assume b: "is_bytes [a, b, c, d]"
  have "0 \<le> from_le [a, b, c, d]" "from_le [a, b, c, d] < 2 ^ 32" using from_le_range [OF b] by simp_all
  then have "uint (word_of_int (from_le [a, b, c, d]) :: 32 word) = from_le [a, b, c, d]"
    by (simp only: uint_word_of_int) simp
  moreover have "length [a, b, c, d] = 4" by simp
  ultimately show ?thesis using to_le_from_le [OF b] by (simp only:)
qed

lemma read_words_frame:
  "is_bytes bs \<Longrightarrow> length bs = 8 * n \<Longrightarrow> pops u (words32 bs) d d' \<Longrightarrow> read_words u n d = (bs, d')"
proof (induction n arbitrary: bs d)
  case 0
  then show ?case by simp
next
  case (Suc n)
  then obtain a b c e f g h i rest where bs: "bs = a # b # c # e # f # g # h # i # rest"
    by (auto simp: length_Suc_conv numeral_eq_Suc)
  have lo: "to_le 4 (uint (word_of_int (from_le [a, b, c, e]) :: 32 word)) = [a, b, c, e]"
    and hi: "to_le 4 (uint (word_of_int (from_le [f, g, h, i]) :: 32 word)) = [f, g, h, i]"
    using Suc.prems(1) words32_quad by (simp_all add: bs)
  have "read_words u n (snd (r32 u (snd (r32 u d FIFO_AXI4_RDFD)) FIFO_AXI4_RDFD)) = (rest, d')"
    using Suc by (simp add: bs)
  moreover have "fst (r32 u d FIFO_AXI4_RDFD) = word_of_int (from_le [a, b, c, e])"
    "fst (r32 u (snd (r32 u d FIFO_AXI4_RDFD)) FIFO_AXI4_RDFD) = word_of_int (from_le [f, g, h, i])"
    using Suc.prems(3) by (simp_all add: bs)
  ultimately show ?case using lo hi
    by (simp add: split_beta Let_def le_pair bs del: from_le.simps)
qed

lemma poll_round_frame:
  assumes "fst (r32 ctrl d FIFO_RDFO) \<noteq> 0" and "r32 ctrl (snd (r32 ctrl d FIFO_RDFO)) FIFO_RLR = (rlr, dl)"
    and "rlr AND 0x7FFFFFFF = word_of_nat (length f)" and "0 < length f" "length f \<le> 4096"
    and "is_bytes (f @ replicate k 0)" "length (f @ replicate k 0) = 8 * ((length f + 7) div 8)"
    and "pops data (words32 (f @ replicate k 0)) dl de"
  shows "poll_round tag ctrl data now s d = (\<lparr>ps_frame = ps_frame s + 1, ps_warned = False\<rparr>, de,
    Some \<lparr>ff_fifo = tag, ff_frame = ps_frame s + 1, ff_ts = now, ff_len = length f,
          ff_partial = (drop_bit 31 rlr \<noteq> 0), ff_data = hex_bytes f\<rparr>)"
proof -
  have len: "unat (rlr AND 0x7FFFFFFF) = length f"
    unfolding assms(3) using assms(5) by (simp add: unsigned_of_nat take_bit_nat_eq_self)
  then have "rlr \<noteq> 0" using assms(4) by auto
  moreover have "read_words data ((length f + 7) div 8) dl = (f @ replicate k 0, de)"
    by (rule read_words_frame [OF assms(6,7,8)])
  ultimately show ?thesis using assms(1,2,4,5)
    by (cases s) (simp add: poll_round_def split_beta Let_def len)
qed

section \<open>Properties\<close>

text \<open>C29. A frame of 1 to 4096 bytes that the receive FIFO delivers (its length on RLR, then its bytes,
  zero-padded to 64-bit words, as 32-bit pops) is published byte for byte in wire order with its
  length, the partial flag of RLR's top bit and the next frame number.\<close>
theorem poll_round_publishes:
  assumes "fst (r32 ctrl d FIFO_RDFO) \<noteq> 0" and "r32 ctrl (snd (r32 ctrl d FIFO_RDFO)) FIFO_RLR = (rlr, dl)"
    and "rlr AND 0x7FFFFFFF = word_of_nat (length f)" and "0 < length f" "length f \<le> 4096"
    and "is_bytes (f @ replicate k 0)" "length (f @ replicate k 0) = 8 * ((length f + 7) div 8)"
    and "pops data (words32 (f @ replicate k 0)) dl de"
  shows "poll_round tag ctrl data now s d = (\<lparr>ps_frame = ps_frame s + 1, ps_warned = False\<rparr>, de,
    Some \<lparr>ff_fifo = tag, ff_frame = ps_frame s + 1, ff_ts = now, ff_len = length f,
          ff_partial = (drop_bit 31 rlr \<noteq> 0), ff_data = hex_bytes f\<rparr>)"
  by (rule poll_round_frame [OF assms])

text \<open>A device that answers each read from a list.\<close>

definition scripted :: "32 word list uio_map" where
  "scripted = \<lparr>regs_read = (\<lambda>d off. (hd d, tl d)), regs_write = (\<lambda>d off v. d)\<rparr>"

theorem poll_round_publishes_witness:
  "snd (snd (poll_round ''CMD'' scripted scripted ''1699.123'' \<lparr>ps_frame = 2, ps_warned = True\<rparr>
     [1, 0x80000003, 0x00030201, 0])) =
   Some \<lparr>ff_fifo = ''CMD'', ff_frame = 3, ff_ts = ''1699.123'', ff_len = 3, ff_partial = True, ff_data = ''010203''\<rparr>"
proof -
  let ?s = "\<lparr>ps_frame = 2, ps_warned = True\<rparr>" and ?d = "[1, 0x80000003, 0x00030201, 0] :: 32 word list"
  have "poll_round ''CMD'' scripted scripted ''1699.123'' ?s ?d = (\<lparr>ps_frame = ps_frame ?s + 1, ps_warned = False\<rparr>, [],
    Some \<lparr>ff_fifo = ''CMD'', ff_frame = ps_frame ?s + 1, ff_ts = ''1699.123'', ff_len = length [1::int, 2, 3],
          ff_partial = (drop_bit 31 (0x80000003 :: 32 word) \<noteq> 0), ff_data = hex_bytes [1, 2, 3]\<rparr>)"
  proof (rule poll_round_publishes)
    show "r32 scripted (snd (r32 scripted ?d FIFO_RDFO)) FIFO_RLR = (0x80000003, [0x00030201, 0])"
      by (simp add: scripted_def r32_def)
    show "(0x80000003 :: 32 word) AND 0x7FFFFFFF = word_of_nat (length [1::int, 2, 3])" by simp
    show "pops scripted (words32 ([1, 2, 3] @ replicate 5 0)) [0x00030201, 0] []"
    proof -
      have "replicate 5 (0::int) = [0, 0, 0, 0, 0]" by (simp add: eval_nat_numeral)
      then show ?thesis by (simp add: scripted_def r32_def)
    qed
  qed (simp_all add: scripted_def r32_def is_byte_def)
  moreover have "hex_bytes [1, 2, 3] = ''010203''" by code_simp
  moreover have "drop_bit 31 (0x80000003 :: 32 word) \<noteq> 0" by simp
  ultimately show ?thesis by simp
qed

text \<open>Resynchronisation: a length word that is not zero but names no bytes or more than 4096
  publishes nothing, reads no data word and resets the receive FIFO, whatever the device does.\<close>
theorem poll_round_resyncs:
  assumes "fst (r32 ctrl d FIFO_RDFO) \<noteq> 0" and "r32 ctrl (snd (r32 ctrl d FIFO_RDFO)) FIFO_RLR = (rlr, dl)"
    and "rlr \<noteq> 0" and "unat (rlr AND 0x7FFFFFFF) = 0 \<or> 4096 < unat (rlr AND 0x7FFFFFFF)"
  shows "poll_round tag ctrl data now s d = (s\<lparr>ps_warned := False\<rparr>, reset_rx ctrl dl, None)"
  using assms by (auto simp: poll_round_def split_beta Let_def)

theorem poll_round_resyncs_witness:
  "poll_round ''CMD'' scripted scripted ''1'' \<lparr>ps_frame = 2, ps_warned = True\<rparr> [1, 0x80000000, 7] =
     (\<lparr>ps_frame = 2, ps_warned = False\<rparr>, reset_rx scripted [7], None)"
  using poll_round_resyncs [where ctrl = scripted and data = scripted and d = "[1, 0x80000000, 7]"
      and rlr = "0x80000000" and dl = "[7]" and s = "\<lparr>ps_frame = 2, ps_warned = True\<rparr>"]
  by (simp add: scripted_def r32_def)

end
