(* ===== verification/Capture_Text.thy ===== *)
theory Capture_Text
  imports Fifo_Poller
begin

text \<open>
  The text form of captured frames: \<open>hexdump\<close> and the output loop of \<open>scripts/fifo_subscribe.py\<close>, and
  the reader of that text, \<open>parse\<close> of \<open>apps/poc_inject/decode_capture.py\<close> with its regular
  expressions, the printing of 8-byte strings and of the parser's trace records. A frame is a list of
  64-bit words; the round trip says which words of a dumped frame the reader gets.
\<close>

section \<open>Printing frames\<close>

text \<open>\<open>for off in range(0, len(data), 8)\<close>.\<close>

function dump_rows :: "nat \<Rightarrow> int list \<Rightarrow> string list" where
  "dump_rows off data =
     (if off < length data
      then (''  '' @ to_hex 4 off @ '': '' @ hex_bytes (py_slice off (off + 8) data)) # dump_rows (off + 8) data
      else [])"
  by pat_completeness auto
termination by (relation "measure (\<lambda>(off, data). length data - off)") auto

declare dump_rows.simps [simp del]

definition dump_header :: "fifo_frame \<Rightarrow> string" where
  "dump_header m =
     ''['' @ ff_fifo m @ ''] frame '' @ to_dec (ff_frame m) @ '' ('' @ to_dec (ff_len m) @ '' bytes)''
     @ (if ff_partial m then '' (partial)'' else '''') @ '':''"

fun join_lines :: "string list \<Rightarrow> string" where
  "join_lines [] = ''''"
| "join_lines [l] = l"
| "join_lines (l # k # ls) = l @ [CHR 10] @ join_lines (k # ls)"

definition hexdump :: "fifo_frame \<Rightarrow> string py_result" where
  "hexdump m = bind_result (py_fromhex (ff_data m)) (\<lambda>data.
     Inr (join_lines (dump_header m # dump_rows 0 data)))"

text \<open>
  A line of the server, parsed: the greeting or a frame. The loop of \<open>main\<close> over the lines gives the
  text it prints and, where \<open>hexdump\<close> raises, the exception that ends it; with \<open>--json\<close> it passes the
  lines through.
\<close>

datatype server_msg = Hello "string list" | Frame fifo_frame

fun subscriber_output :: "bool \<Rightarrow> (string \<times> server_msg) list \<Rightarrow> string \<times> py_exn option" where
  "subscriber_output json [] = ('''', None)"
| "subscriber_output json ((line, msg) # rest) =
     (if json then (let (out, e) = subscriber_output json rest in (line @ out, e))
      else case msg of
             Hello names \<Rightarrow> subscriber_output json rest
           | Frame m \<Rightarrow>
               (case hexdump m of
                  Inl e \<Rightarrow> ('''', Some e)
                | Inr t \<Rightarrow> (let (out, e) = subscriber_output json rest in (t @ [CHR 10] @ out, e))))"

section \<open>Reading frames\<close>

text \<open>The pieces of the regular expressions: a literal, \<open>\d+\<close>, \<open>\s+\<close> and \<open>[0-9a-f]{n}\<close>.\<close>

definition match_lit :: "string \<Rightarrow> string \<Rightarrow> string option" where
  "match_lit p s = (if take (length p) s = p then Some (drop (length p) s) else None)"

definition is_digit :: "char \<Rightarrow> bool" where
  "is_digit c \<longleftrightarrow> 48 \<le> (of_char c :: nat) \<and> (of_char c :: nat) \<le> 57"

definition is_lower_hex :: "char \<Rightarrow> bool" where
  "is_lower_hex c \<longleftrightarrow> is_digit c \<or> 97 \<le> (of_char c :: nat) \<and> (of_char c :: nat) \<le> 102"

definition match_some :: "(char \<Rightarrow> bool) \<Rightarrow> string \<Rightarrow> (string \<times> string) option" where
  "match_some p s = (let w = takeWhile p s in if w = [] then None else Some (w, dropWhile p s))"

definition match_count :: "nat \<Rightarrow> (char \<Rightarrow> bool) \<Rightarrow> string \<Rightarrow> (string \<times> string) option" where
  "match_count n p s = (if n \<le> length s \<and> list_all p (take n s) then Some (take n s, drop n s) else None)"

text \<open>\<open>\[(DEBUG|MDEBUG|CMD)\] frame (\d+)\<close>: the name and what follows the number.\<close>

definition match_tag :: "string \<Rightarrow> string \<Rightarrow> (string \<times> string) option" where
  "match_tag tag s = Option.bind (match_lit (''['' @ tag @ ''] frame '') s) (\<lambda>t.
     Option.bind (match_some is_digit t) (\<lambda>(n, u). Some (tag, u)))"

definition match_frame :: "string \<Rightarrow> (string \<times> string) option" where
  "match_frame s = (case match_tag ''DEBUG'' s of Some r \<Rightarrow> Some r
     | None \<Rightarrow> (case match_tag ''MDEBUG'' s of Some r \<Rightarrow> Some r
     | None \<Rightarrow> match_tag ''CMD'' s))"

text \<open>The reader also wants \<open>\((\d+) bytes\)\<close>.\<close>

definition match_header :: "string \<Rightarrow> string option" where
  "match_header s = Option.bind (match_frame s) (\<lambda>(tag, t).
     Option.bind (match_lit '' ('' t) (\<lambda>u.
     Option.bind (match_some is_digit u) (\<lambda>(n, v).
     Option.bind (match_lit '' bytes)'' v) (\<lambda>w. Some tag))))"

text \<open>\<open>\s+([0-9a-f]{4}): ([0-9a-f]{16})\<close>: the sixteen digits.\<close>

definition match_row :: "string \<Rightarrow> string option" where
  "match_row s = Option.bind (match_some is_space s) (\<lambda>(sp, t).
     Option.bind (match_count 4 is_lower_hex t) (\<lambda>(off, u).
     Option.bind (match_lit '': '' u) (\<lambda>v.
     Option.bind (match_count 16 is_lower_hex v) (\<lambda>(w, x). Some w))))"

text \<open>\<open>int.from_bytes(bytes.fromhex(w), "little")\<close> of sixteen hexadecimal digits.\<close>

definition row_value :: "string \<Rightarrow> int" where
  "row_value w = (case py_fromhex w of Inr bs \<Rightarrow> from_le bs | Inl e \<Rightarrow> 0)"

text \<open>The list of frames; words are appended to the frame opened last, if there is one.\<close>

type_synonym captured = "(string \<times> int list) list"

definition append_word :: "captured \<Rightarrow> int \<Rightarrow> captured" where
  "append_word frames w =
     (if frames = [] then [] else butlast frames @ [(fst (last frames), snd (last frames) @ [w])])"

definition parse_line :: "captured \<Rightarrow> string \<Rightarrow> captured" where
  "parse_line frames line = (case match_header line of
       Some tag \<Rightarrow> frames @ [(tag, [])]
     | None \<Rightarrow> (case match_row line of
         Some w \<Rightarrow> append_word frames (row_value w)
       | None \<Rightarrow> frames))"

definition parse_capture :: "string list \<Rightarrow> captured" where
  "parse_capture lines = foldl parse_line [] lines"

section \<open>Decoding\<close>

text \<open>\<open>x.to_bytes(8, order)\<close> of a value that is not negative raises from \<open>2 ** 64\<close> on.\<close>

definition le_bytes8 :: "int \<Rightarrow> int list py_result" where
  "le_bytes8 x = (if 0 \<le> x \<and> x < 2 ^ 64 then Inr (to_le 8 x) else Inl OverflowError)"

definition be_bytes8 :: "int \<Rightarrow> int list py_result" where
  "be_bytes8 x = (if 0 \<le> x \<and> x < 2 ^ 64 then Inr (to_be 8 x) else Inl OverflowError)"

definition latin1 :: "int list \<Rightarrow> string" where
  "latin1 bs = map (\<lambda>b. char_of (nat b)) bs"

definition capture_s8 :: "int \<Rightarrow> string py_result" where
  "capture_s8 v = bind_result (le_bytes8 v) (\<lambda>b.
     Inr (if list_all (\<lambda>c. 0x20 \<le> c \<and> c < 0x7F) b then latin1 b else hex_bytes b))"

definition decode_debug :: "int list \<Rightarrow> string py_result" where
  "decode_debug w = bind_result (py_index w 0) (\<lambda>w0.
     if w0 = 0xAAAB then
       Inr (''RESET record ['' @ join_with '', '' (map (\<lambda>x. py_repr (hex_0x x)) w) @ '']'')
     else if w0 = 0xAAAA then Inr ''waiting for header data''
     else if w0 = 0xBBBB then Inr ''waiting for message data''
     else if drop_bit 32 w0 = 0xDE then
       bind_result (py_index w 1) (\<lambda>w1. bind_result (py_index w 2) (\<lambda>w2.
         Inr (''Sequenced Unit Header parsed: length='' @ to_dec (nat (w0 AND 0xFFFFFFFF)) @ '' ('' @ to_dec (nat w1)
              @ ''), first bytes '' @ to_hex 16 (nat w2))))
     else bind_result (py_index w 3) (\<lambda>w3.
       if w3 = 0x99 then
         bind_result (be_bytes8 w0) (\<lambda>b.
           Inr (''message record, data-stream bytes '' @ hex_bytes b @ '' ('' @ py_repr (latin1 b) @ '')''))
       else Inr (''unknown '' @ join_with '' '' (map hex_0x w))))"

text \<open>The report of \<open>main\<close>, line by line. \<open>f"{n:3d}"\<close> pads on the left, \<open>f"{s!r:12}"\<close> on the right.\<close>

definition TICK_NS :: int where "TICK_NS = 10"

definition frames_of :: "string \<Rightarrow> captured \<Rightarrow> int list list" where
  "frames_of tag frames = map snd (filter (\<lambda>(f, w). f = tag) frames)"

definition words_text :: "int list \<Rightarrow> string" where
  "words_text w = join_with '' '' (map (\<lambda>x. to_hex 16 (nat x)) w)"

definition debug_line :: "int list \<Rightarrow> string py_result" where
  "debug_line w =
     (if length w = 4 then bind_result (decode_debug w) (\<lambda>t. Inr (''  '' @ words_text w @ ''   '' @ t))
      else Inr (''  '' @ words_text w @ ''   ('' @ to_dec (length w) @ '' words)''))"

definition mdebug_line :: "int list \<Rightarrow> string" where
  "mdebug_line w =
     (if length w = 4 then ''  '' @ words_text w @ ''   time='' @ to_dec (nat (hd w))
      else ''  ('' @ to_dec (length w) @ '' words)'')"

text \<open>A command record: its line and its latency in ticks, if it is complete.\<close>

definition cmd_line :: "int list \<Rightarrow> (string \<times> int option) py_result" where
  "cmd_line w =
     (if length w \<noteq> 16 then
        Inr (''  ('' @ to_dec (length w) @ '' words, expected 16): ''
             @ join_with '' '' (map (\<lambda>x. to_hex 1 (nat x)) w), None)
      else
        (let ticks = w ! 14 - w ! 13;
             side = (if 0x20 \<le> w ! 1 \<and> w ! 1 < 0x7F then [char_of (nat (w ! 1))] else to_dec (nat (w ! 1)))
         in bind_result (capture_s8 (w ! 2)) (\<lambda>oid. bind_result (capture_s8 (w ! 4)) (\<lambda>sym.
              Inr (''  seq '' @ pad_left 3 (to_dec (nat (w ! 12))) @ ''  type '' @ to_dec (nat (w ! 0)) @ ''  side '' @ side
                   @ ''  orderId '' @ pad_right 12 (py_repr oid) @ '' qty '' @ pad_left 5 (to_dec (nat (w ! 3)))
                   @ ''  symbol '' @ pad_right 10 (py_repr sym) @ '' price '' @ pad_left 8 (to_dec (nat (w ! 5)))
                   @ ''  sec '' @ to_dec (nat (w ! 9)) @ '' ns '' @ to_dec (nat (w ! 10)) @ ''  flags '' @ hex_0x (w ! 11)
                   @ ''  recv 0x'' @ to_hex 1 (nat (w ! 13)) @ '' parse 0x'' @ to_hex 1 (nat (w ! 14))
                   @ '' -> '' @ to_sdec ticks @ '' ticks = '' @ to_sdec (ticks * TICK_NS) @ '' ns  reserved ''
                   @ hex_0x (w ! 15), Some ticks)))))"

fun map_result :: "('a \<Rightarrow> 'b py_result) \<Rightarrow> 'a list \<Rightarrow> 'b list py_result" where
  "map_result f [] = Inr []"
| "map_result f (x # xs) = bind_result (f x) (\<lambda>y. bind_result (map_result f xs) (\<lambda>ys. Inr (y # ys)))"

definition latency_lines :: "int list \<Rightarrow> string list" where
  "latency_lines lat =
     (if lat = [] then []
      else ['''', ''latency recv->parse: min '' @ to_sdec (Min (set lat) * TICK_NS) @ '' ns, max ''
            @ to_sdec (Max (set lat) * TICK_NS) @ '' ns over '' @ to_dec (length lat) @ '' messages''])"

definition capture_report :: "string \<Rightarrow> string list py_result" where
  "capture_report input =
     (let frames = parse_capture (py_splitlines input); count = (\<lambda>tag. to_dec (length (frames_of tag frames)))
      in bind_result (map_result debug_line (frames_of ''DEBUG'' frames)) (\<lambda>debug.
         bind_result (map_result cmd_line (frames_of ''CMD'' frames)) (\<lambda>cmds.
           Inr ([''records: DEBUG='' @ count ''DEBUG'' @ '' MDEBUG='' @ count ''MDEBUG'' @ '' CMD='' @ count ''CMD'', '''']
             @ [''== DEBUG (parser trace) ==''] @ debug
             @ ['''', ''== MDEBUG (per-cycle: time, len, type, ...) ==''] @ map mdebug_line (frames_of ''MDEBUG'' frames)
             @ ['''', ''== CMD (parsed orderbook commands) ==''] @ map fst cmds
             @ latency_lines (List.map_filter snd cmds)))))"

section \<open>What a dump line matches\<close>

lemma match_lit_append [simp]: "match_lit p (p @ s) = Some s"
  by (simp add: match_lit_def)

lemma match_some_append:
  "w \<noteq> [] \<Longrightarrow> list_all p w \<Longrightarrow> s \<noteq> [] \<Longrightarrow> \<not> p (hd s) \<Longrightarrow> match_some p (w @ s) = Some (w, s)"
proof -
  assume a: "w \<noteq> []" "list_all p w" "s \<noteq> []" "\<not> p (hd s)"
  then have "takeWhile p (w @ s) = w" "dropWhile p (w @ s) = s"
    by (cases s; auto simp: list_all_iff takeWhile_append dropWhile_append)+
  then show ?thesis using a(1) by (simp add: match_some_def)
qed

lemma match_count_append: "length w = n \<Longrightarrow> list_all p w \<Longrightarrow> match_count n p (w @ s) = Some (w, s)"
  by (simp add: match_count_def)

lemma digit_char_classes: "d < 10 \<Longrightarrow> is_digit (digit_char d)" "d < 16 \<Longrightarrow> is_lower_hex (digit_char d)"
  by (simp_all add: is_digit_def is_lower_hex_def digit_char_code)

lemma digit_is_digit: "digit_string 10 s \<Longrightarrow> list_all is_digit s"
  unfolding digit_string_def list_all_iff by (metis digit_char_classes(1))

lemma digit_is_hex: "digit_string 16 s \<Longrightarrow> list_all is_lower_hex s"
  unfolding digit_string_def list_all_iff by (metis digit_char_classes(2))

lemma to_dec_digits: "to_dec n \<noteq> []" "list_all is_digit (to_dec n)"
  using to_dec_string [of n] digit_is_digit by (simp_all add: digit_string_def)

lemma to_hex_digits: "list_all is_lower_hex (to_hex w n)"
  by (rule digit_is_hex [OF to_hex_string])

lemma byte_nat: "is_byte b \<Longrightarrow> nat b < 256" "is_byte b \<Longrightarrow> nat b < 16 ^ 2" "is_byte b \<Longrightarrow> int (nat b) = b"
  by (auto simp: is_byte_def)

lemma length_hex_byte: "is_byte b \<Longrightarrow> length (to_hex 2 (nat b)) = 2"
  by (rule length_to_hex) (auto dest: byte_nat(2))

lemma hex_bytes_facts:
  assumes "is_bytes bs"
  shows "list_all is_lower_hex (hex_bytes bs)" "length (hex_bytes bs) = 2 * length bs"
    "py_fromhex (hex_bytes bs) = Inr bs" "one_line (hex_bytes bs)"
proof -
  show "list_all is_lower_hex (hex_bytes bs)"
    by (induction bs) (simp_all add: hex_bytes_def to_hex_digits)
  show "length (hex_bytes bs) = 2 * length bs" using assms
    by (induction bs) (simp_all add: hex_bytes_def length_hex_byte)
  show "py_fromhex (hex_bytes bs) = Inr bs" using assms
    by (induction bs) (simp_all add: hex_bytes_def fromhex_byte byte_nat is_byte_def)
  show "one_line (hex_bytes bs)"
    by (induction bs) (simp_all add: hex_bytes_def digit_string_one_line [OF to_hex_string])
qed

lemma capture_tags: "tag \<in> {''DEBUG'', ''MDEBUG'', ''CMD''} \<Longrightarrow>
   match_frame (''['' @ tag @ ''] frame '' @ to_dec n @ '' '' @ s) = Some (tag, '' '' @ s)"
proof -
  assume tag: "tag \<in> {''DEBUG'', ''MDEBUG'', ''CMD''}"
  let ?s = "''['' @ tag @ ''] frame '' @ to_dec n @ '' '' @ s"
  have num: "match_some is_digit (to_dec n @ '' '' @ s) = Some (to_dec n, '' '' @ s)"
    by (rule match_some_append) (simp_all add: to_dec_digits is_digit_def)
  have own: "match_tag tag ?s = Some (tag, '' '' @ s)"
    using match_lit_append [of "''['' @ tag @ ''] frame ''" "to_dec n @ '' '' @ s"] num
    by (simp add: match_tag_def)
  have other: "match_tag t ?s = None" if "t \<in> {''DEBUG'', ''MDEBUG'', ''CMD''}" "t \<noteq> tag" for t
    using tag that by (elim insertE emptyE) (simp_all add: match_tag_def match_lit_def)
  show ?thesis using tag own other by (elim insertE emptyE) (simp_all add: match_frame_def)
qed

lemma dump_header_matches:
  assumes "ff_fifo m \<in> {''DEBUG'', ''MDEBUG'', ''CMD''}"
  shows "match_header (dump_header m) = Some (ff_fifo m)" "one_line (dump_header m)"
proof -
  let ?t = "(if ff_partial m then '' (partial)'' else '''') @ '':''"
  have h: "dump_header m = ''['' @ ff_fifo m @ ''] frame '' @ to_dec (ff_frame m) @ '' '' @
      ''('' @ to_dec (ff_len m) @ '' bytes)'' @ ?t"
    by (simp add: dump_header_def)
  have num: "match_some is_digit (to_dec (ff_len m) @ '' bytes)'' @ ?t) = Some (to_dec (ff_len m), '' bytes)'' @ ?t)"
    by (rule match_some_append) (simp_all add: to_dec_digits is_digit_def)
  have "match_lit '' ('' ('' '' @ ''('' @ to_dec (ff_len m) @ '' bytes)'' @ ?t) = Some (to_dec (ff_len m) @ '' bytes)'' @ ?t)"
    using match_lit_append [of "'' (''" "to_dec (ff_len m) @ '' bytes)'' @ ?t"] by simp
  then show "match_header (dump_header m) = Some (ff_fifo m)"
    unfolding match_header_def h capture_tags [OF assms]
    by (simp only: Option.bind.bind_lunit case_prod_conv num match_lit_append)
  have "one_line (to_dec n)" for n by (rule digit_string_one_line [OF to_dec_string]) simp
  then show "one_line (dump_header m)" using assms by (auto simp: dump_header_def line_end_def)
qed

lemma dump_row_matches:
  assumes "off < 65536" "is_bytes bs"
  defines "row \<equiv> ''  '' @ to_hex 4 off @ '': '' @ hex_bytes bs"
  shows "match_header row = None" "one_line row"
    "8 = length bs \<Longrightarrow> match_row row = Some (hex_bytes bs)"
    "length bs < 8 \<Longrightarrow> match_row row = None"
proof -
  note hx = hex_bytes_facts [OF assms(2)]
  show "match_header row = None"
    by (simp add: row_def match_header_def match_frame_def match_tag_def match_lit_def)
  have sp: "\<not> line_end (CHR '' '')" "\<not> line_end (CHR '':'')" by (simp_all add: line_end_def)
  show "one_line row" using hx(4) sp by (simp add: row_def digit_string_one_line [OF to_hex_string])
  have len: "length (to_hex 4 off) = 4" by (rule length_to_hex) (use assms(1) in simp_all)
  have ne: "to_hex 4 off \<noteq> []" using len by auto
  have "is_token (to_hex 4 off)" by (rule to_hex_facts)
  then have "\<not> is_space (hd (to_hex 4 off @ '': '' @ hex_bytes bs))"
    using ne by (simp add: is_token_def list_all_iff)
  then have s: "match_some is_space row = Some (''  '', to_hex 4 off @ '': '' @ hex_bytes bs)"
    unfolding row_def by (intro match_some_append) (simp_all add: is_space_def ne)
  have m: "match_row row = Option.bind (match_count 16 is_lower_hex (hex_bytes bs)) (\<lambda>(w, x). Some w)"
    unfolding match_row_def s
    by (simp only: Option.bind.bind_lunit case_prod_conv match_lit_append match_count_append [OF len to_hex_digits])
  show "match_row row = Some (hex_bytes bs)" if "8 = length bs"
    using that hx(1,2) match_count_append [of "hex_bytes bs" 16 is_lower_hex "[]"] by (simp add: m)
  show "match_row row = None" if "length bs < 8" using that hx(2) by (simp add: m match_count_def)
qed

section \<open>Round trip\<close>

text \<open>The whole words of a frame; a rest of fewer than eight bytes is no word.\<close>

function full_words :: "int list \<Rightarrow> int list" where
  "full_words bs = (if length bs < 8 then [] else from_le (take 8 bs) # full_words (drop 8 bs))"
  by pat_completeness auto
termination by (relation "measure length") auto

declare full_words.simps [simp del]

lemma append_word_last: "append_word (fs @ [(tag, ws)]) w = fs @ [(tag, ws @ [w])]"
  by (simp add: append_word_def)

lemma parse_line_row:
  "match_header row = None \<Longrightarrow> match_row row = Some w \<Longrightarrow>
   parse_line (fs @ [(tag, ws)]) row = fs @ [(tag, ws @ [row_value w])]"
  by (simp add: parse_line_def append_word_last)

lemma parse_rows:
  "is_bytes data \<Longrightarrow> length data \<le> 65536 \<Longrightarrow>
   foldl parse_line (fs @ [(tag, ws)]) (dump_rows off data) = fs @ [(tag, ws @ full_words (drop off data))]"
proof (induction off data arbitrary: ws rule: dump_rows.induct)
  case (1 off data)
  show ?case
  proof (cases "off < length data")
    case False
    then show ?thesis by (subst dump_rows.simps, subst full_words.simps) simp
  next
    case True
    let ?c = "py_slice off (off + 8) data"
    have b: "off < 65536" "is_bytes ?c" "?c = take 8 (drop off data)"
      using True "1.prems" by (simp_all add: py_slice_def)
    note row = dump_row_matches [OF b(1,2)]
    show ?thesis
    proof (cases "length (drop off data) < 8")
      case short: True
      then have "length ?c < 8" by (simp add: b(3))
      moreover have "dump_rows (off + 8) data = []" using short by (subst dump_rows.simps) simp
      moreover have "full_words (drop off data) = []" using short by (subst full_words.simps) simp
      ultimately show ?thesis using True row(1,4)
        by (subst dump_rows.simps) (simp add: parse_line_def)
    next
      case long: False
      then have "8 = length ?c" by (simp add: b(3))
      moreover have "row_value (hex_bytes ?c) = from_le ?c"
        using hex_bytes_facts(3) [OF b(2)] by (simp add: row_value_def)
      moreover have "full_words (drop off data) = from_le ?c # full_words (drop (off + 8) data)"
        using long b(3) by (subst full_words.simps) (simp add: add.commute)
      ultimately show ?thesis
        using True parse_line_row [OF row(1) row(3), of fs tag ws] "1.IH" [OF True "1.prems"]
        by (subst dump_rows.simps) simp
    qed
  qed
qed

lemma rows_one_line: "is_bytes data \<Longrightarrow> length data \<le> 65536 \<Longrightarrow> list_all one_line (dump_rows off data)"
proof (induction off data rule: dump_rows.induct)
  case (1 off data)
  show ?case
  proof (cases "off < length data")
    case True
    have "one_line (''  '' @ to_hex 4 off @ '': '' @ hex_bytes (py_slice off (off + 8) data))"
      by (rule dump_row_matches(2)) (use True "1.prems" in \<open>simp_all add: py_slice_def\<close>)
    then show ?thesis using "1.IH" True "1.prems" by (subst dump_rows.simps) simp
  qed (subst dump_rows.simps, simp)
qed

lemma join_lines_concat: "ls \<noteq> [] \<Longrightarrow> join_lines ls @ [CHR 10] = concat (map (\<lambda>l. l @ [CHR 10]) ls)"
  by (induction ls rule: join_lines.induct) simp_all

text \<open>A frame as the server publishes it: a known name and the bytes in hexadecimal.\<close>

definition frame_bytes :: "fifo_frame \<Rightarrow> int list \<Rightarrow> bool" where
  "frame_bytes m bs \<longleftrightarrow> ff_fifo m \<in> {''DEBUG'', ''MDEBUG'', ''CMD''} \<and>
     ff_data m = hex_bytes bs \<and> is_bytes bs \<and> length bs \<le> 65536"

definition dump_lines :: "fifo_frame \<Rightarrow> int list \<Rightarrow> string list" where
  "dump_lines m bs = dump_header m # dump_rows 0 bs"

lemma frame_dump:
  assumes "frame_bytes m bs"
  shows "hexdump m = Inr (join_lines (dump_lines m bs))" "list_all one_line (dump_lines m bs)"
    "foldl parse_line fs (dump_lines m bs) = fs @ [(ff_fifo m, full_words bs)]"
proof -
  have m: "ff_fifo m \<in> {''DEBUG'', ''MDEBUG'', ''CMD''}" "ff_data m = hex_bytes bs" "is_bytes bs" "length bs \<le> 65536"
    using assms by (simp_all add: frame_bytes_def)
  show "hexdump m = Inr (join_lines (dump_lines m bs))"
    using hex_bytes_facts(3) [OF m(3)] by (simp add: hexdump_def m(2) dump_lines_def)
  show "list_all one_line (dump_lines m bs)"
    using rows_one_line [OF m(3,4)] dump_header_matches(2) [OF m(1)] by (simp add: dump_lines_def)
  have "parse_line fs (dump_header m) = fs @ [(ff_fifo m, [])]"
    using dump_header_matches(1) [OF m(1)] by (simp add: parse_line_def)
  then show "foldl parse_line fs (dump_lines m bs) = fs @ [(ff_fifo m, full_words bs)]"
    using parse_rows [OF m(3,4), of fs "ff_fifo m" "[]" 0] by (simp add: dump_lines_def)
qed

text \<open>The frames among the messages, and what the loop prints for them.\<close>

fun frames_among :: "(string \<times> server_msg) list \<Rightarrow> fifo_frame list" where
  "frames_among [] = []"
| "frames_among ((line, Hello names) # rest) = frames_among rest"
| "frames_among ((line, Frame m) # rest) = m # frames_among rest"

lemma subscriber_output_frames:
  "list_all2 frame_bytes (frames_among ms) bss \<Longrightarrow>
   subscriber_output False ms =
     (concat (map (\<lambda>l. l @ [CHR 10]) (concat (map2 dump_lines (frames_among ms) bss))), None)"
proof (induction ms arbitrary: bss rule: frames_among.induct)
  case (3 line m rest)
  then obtain bs bss' where bss: "bss = bs # bss'" "frame_bytes m bs" "list_all2 frame_bytes (frames_among rest) bss'"
    by (cases bss) auto
  have "join_lines (dump_lines m bs) @ [CHR 10] = concat (map (\<lambda>l. l @ [CHR 10]) (dump_lines m bs))"
    by (rule join_lines_concat) (simp add: dump_lines_def)
  moreover have "subscriber_output False ((line, Frame m) # rest) =
      ((join_lines (dump_lines m bs) @ [CHR 10]) @ fst (subscriber_output False rest), snd (subscriber_output False rest))"
    by (simp add: frame_dump(1) [OF bss(2)] split_beta)
  ultimately show ?case using "3.IH" [OF bss(3)] by (simp add: bss(1))
qed simp_all

lemma parse_dumps:
  "list_all2 frame_bytes ms bss \<Longrightarrow>
   foldl parse_line fs (concat (map2 dump_lines ms bss)) = fs @ map2 (\<lambda>m bs. (ff_fifo m, full_words bs)) ms bss"
  by (induction ms bss arbitrary: fs rule: list_all2_induct) (simp_all add: frame_dump(3))

lemma dumps_one_line:
  "list_all2 frame_bytes ms bss \<Longrightarrow> list_all one_line (concat (map2 dump_lines ms bss))"
  by (induction ms bss rule: list_all2_induct) (simp_all add: frame_dump(2))

text \<open>C23. What the subscriber prints is read back: for any stream of greetings and published frames the
  hexadecimal dump of fifo_subscribe.py, split into lines, parses in decode_capture.py into one entry
  per frame, in order, with its FIFO's name and its whole 64-bit words, least significant byte first;
  a trailing partial word and the frame's number, length and partial flag are lost.\<close>
theorem capture_text_roundtrip:
  assumes "list_all2 frame_bytes (frames_among ms) bss"
  shows "snd (subscriber_output False ms) = None \<and>
    parse_capture (py_splitlines (fst (subscriber_output False ms))) =
      map2 (\<lambda>m bs. (ff_fifo m, full_words bs)) (frames_among ms) bss"
  using subscriber_output_frames [OF assms] splitlines_concat [OF dumps_one_line [OF assms]]
    parse_dumps [OF assms, of "[]"]
  by (simp add: parse_capture_def)

theorem capture_text_roundtrip_witness:
  "let m = \<lparr>ff_fifo = ''CMD'', ff_frame = 3, ff_ts = ''1.5'', ff_len = 10, ff_partial = True,
        ff_data = ''0102000000000000ffff''\<rparr>
   in parse_capture (py_splitlines (fst (subscriber_output False [(''h'', Hello [''cmd'']), (''f'', Frame m)]))) =
        [(''CMD'', [513])]"
proof -
  let ?m = "\<lparr>ff_fifo = ''CMD'', ff_frame = 3, ff_ts = ''1.5'', ff_len = 10, ff_partial = True,
    ff_data = ''0102000000000000ffff''\<rparr>"
  let ?bs = "[1, 2, 0, 0, 0, 0, 0, 0, 255, 255]"
  have "hex_bytes ?bs = ''0102000000000000ffff''" by code_simp
  then have "frame_bytes ?m ?bs" by (simp add: frame_bytes_def is_byte_def)
  then have "list_all2 frame_bytes (frames_among [(''h'', Hello [''cmd'']), (''f'', Frame ?m)]) [?bs]" by simp
  from capture_text_roundtrip [OF this] show ?thesis
    by (simp add: full_words.simps Let_def)
qed

section \<open>Every text is reported\<close>

lemma lower_hex_val:
  assumes "is_lower_hex c"
  obtains x where "hex_val c = Some x" "x < 16" "of_char c \<notin> {9, 10, 11, 12, 13, 32 :: nat}"
proof
  have c: "48 \<le> (of_char c :: nat) \<and> (of_char c :: nat) \<le> 57 \<or> 97 \<le> (of_char c :: nat) \<and> (of_char c :: nat) \<le> 102"
    using assms by (auto simp: is_lower_hex_def is_digit_def)
  show "hex_val c = Some (if (of_char c :: nat) \<le> 57 then of_char c - 48 else of_char c - 87)"
    using c by (auto simp: hex_val_def digit_val_def Let_def)
  show "(if (of_char c :: nat) \<le> 57 then of_char c - 48 else of_char c - 87) < (16::nat)"
    using c by auto
  show "of_char c \<notin> {9, 10, 11, 12, 13, 32 :: nat}" using c by auto
qed

lemma fromhex_lower:
  "list_all is_lower_hex w \<Longrightarrow> even (length w) \<Longrightarrow>
   \<exists>bs. py_fromhex w = Inr bs \<and> is_bytes bs \<and> length w = 2 * length bs"
proof (induction w rule: induct_list012)
  case (3 c d w)
  obtain x where x: "hex_val c = Some x" "x < 16" "of_char c \<notin> {9, 10, 11, 12, 13, 32 :: nat}"
    using lower_hex_val [of c] "3.prems"(1) by auto
  obtain y where y: "hex_val d = Some y" "y < 16"
    using lower_hex_val [of d] "3.prems"(1) by auto
  obtain bs where "py_fromhex w = Inr bs" "is_bytes bs" "length w = 2 * length bs"
    using "3.IH"(1) "3.prems" by auto
  then show ?case using x y by (simp add: is_byte_def)
qed simp_all

definition word_range :: "int \<Rightarrow> bool" where
  "word_range x \<longleftrightarrow> 0 \<le> x \<and> x < 2 ^ 64"

lemma row_value_range:
  assumes "match_row s = Some w"
  shows "word_range (row_value w)" "\<exists>bs. py_fromhex w = Inr bs"
proof -
  have "length w = 16 \<and> list_all is_lower_hex w"
    using assms by (auto simp: match_row_def match_count_def bind_eq_Some_conv split: if_splits)
  then obtain bs where "py_fromhex w = Inr bs" "is_bytes bs" "length bs = 8"
    using fromhex_lower [of w] by auto
  then show "word_range (row_value w)" "\<exists>bs. py_fromhex w = Inr bs"
    using from_le_range [of bs] by (auto simp: row_value_def word_range_def)
qed

definition capture_ok :: "captured \<Rightarrow> bool" where
  "capture_ok frames \<longleftrightarrow> list_all (\<lambda>(f, w). list_all word_range w) frames"

lemma capture_ok_append [simp]: "capture_ok (xs @ ys) \<longleftrightarrow> capture_ok xs \<and> capture_ok ys"
  by (simp add: capture_ok_def)

lemma append_word_ok: "capture_ok frames \<Longrightarrow> word_range w \<Longrightarrow> capture_ok (append_word frames w)"
  by (cases frames rule: rev_cases) (auto simp: append_word_def capture_ok_def)

lemma parse_line_ok: "capture_ok frames \<Longrightarrow> capture_ok (parse_line frames line)"
  by (auto simp: parse_line_def append_word_ok row_value_range capture_ok_def [of "[x]" for x]
      split: option.splits)

lemma parse_capture_ok: "capture_ok (parse_capture lines)"
proof -
  have "capture_ok fs \<Longrightarrow> capture_ok (foldl parse_line fs lines)" for fs
    by (induction lines arbitrary: fs) (simp_all add: parse_line_ok)
  then show ?thesis by (simp add: parse_capture_def capture_ok_def)
qed

lemma frames_of_ok: "capture_ok frames \<Longrightarrow> w \<in> set (frames_of tag frames) \<Longrightarrow> list_all word_range w"
  by (auto simp: frames_of_def capture_ok_def list_all_iff)

lemma map_result_total: "(\<And>x. x \<in> set xs \<Longrightarrow> \<exists>y. f x = Inr y) \<Longrightarrow> \<exists>ys. map_result f xs = Inr ys \<and> length ys = length xs"
  by (induction xs) fastforce+

lemma debug_line_total: "list_all word_range w \<Longrightarrow> \<exists>t. debug_line w = Inr t"
proof -
  assume r: "list_all word_range w"
  show ?thesis
  proof (cases "length w = 4")
    case True
    then obtain a b c d where "w = [a, b, c, d]" by (auto simp: length_Suc_conv numeral_eq_Suc)
    then show ?thesis using r
      by (simp add: debug_line_def decode_debug_def py_index_def be_bytes8_def word_range_def Let_def)
  qed (simp add: debug_line_def)
qed

lemma cmd_line_total:
  assumes "list_all word_range w"
  shows "\<exists>t. cmd_line w = Inr t \<and> (snd t \<noteq> None \<longleftrightarrow> length w = 16)"
proof (cases "length w = 16")
  case True
  have "\<exists>t. capture_s8 x = Inr t" if "x \<in> set w" for x
    using assms that by (auto simp: capture_s8_def le_bytes8_def word_range_def list_all_iff)
  then obtain oid sym where "capture_s8 (w ! 2) = Inr oid" "capture_s8 (w ! 4) = Inr sym"
    using True nth_mem [of 2 w] nth_mem [of 4 w] by fastforce
  then show ?thesis using True by (simp add: cmd_line_def Let_def)
qed (simp add: cmd_line_def)

lemma match_header_tag: "match_header s = Some tag \<Longrightarrow> tag \<in> {''DEBUG'', ''MDEBUG'', ''CMD''}"
  by (auto simp: match_header_def match_frame_def match_tag_def bind_eq_Some_conv split: option.splits)

definition tags_ok :: "captured \<Rightarrow> bool" where
  "tags_ok frames \<longleftrightarrow> list_all (\<lambda>(f, w). f \<in> {''DEBUG'', ''MDEBUG'', ''CMD''}) frames"

lemma parse_line_tags: "tags_ok frames \<Longrightarrow> tags_ok (parse_line frames line)"
proof -
  assume t: "tags_ok frames"
  then have "tags_ok (append_word frames w)" for w
    by (cases frames rule: rev_cases) (auto simp: append_word_def tags_ok_def split: prod.splits)
  moreover have "tags_ok (frames @ [(tag, [])])" if "match_header line = Some tag" for tag
    using t match_header_tag [OF that] by (simp add: tags_ok_def)
  ultimately show ?thesis using t by (simp add: parse_line_def split: option.splits)
qed

lemma parse_capture_tags: "tags_ok (parse_capture lines)"
proof -
  have "tags_ok fs \<Longrightarrow> tags_ok (foldl parse_line fs lines)" for fs
    by (induction lines arbitrary: fs) (simp_all add: parse_line_tags)
  then show ?thesis by (simp add: parse_capture_def tags_ok_def)
qed

lemma length_by_tag:
  "tags_ok frames \<Longrightarrow>
   length (frames_of ''DEBUG'' frames) + length (frames_of ''MDEBUG'' frames) + length (frames_of ''CMD'' frames) = length frames"
  by (induction frames) (auto simp: tags_ok_def frames_of_def)

lemma map_result_some:
  "map_result f xs = Inr ys \<Longrightarrow> (\<And>x. x \<in> set xs \<Longrightarrow> \<exists>t. f x = Inr t \<and> (g t \<noteq> None \<longleftrightarrow> P x)) \<Longrightarrow>
   List.map_filter g ys = [] \<longleftrightarrow> (\<forall>x \<in> set xs. \<not> P x)"
proof (induction xs arbitrary: ys)
  case (Cons x xs)
  obtain t where t: "f x = Inr t" "g t \<noteq> None \<longleftrightarrow> P x"
    using Cons.prems(2) by (metis list.set_intros(1))
  then obtain ts where "ys = t # ts" "map_result f xs = Inr ts" using Cons.prems(1) by (auto simp: bind_result_Inr)
  then show ?case using Cons.IH [of ts] Cons.prems(2) t(2) by (auto simp: List.map_filter_simps split: option.splits)
qed (simp add: List.map_filter_def)

text \<open>C38. The decoder never raises: whatever text it is given, main of decode_capture.py prints a report,
  with one line for every frame of the parsed capture (and seven of headings), and the latency
  summary exactly when some CMD frame is complete.\<close>
theorem capture_report_total:
  "\<exists>ls. capture_report input = Inr ls \<and>
     length ls = 7 + length (parse_capture (py_splitlines input)) +
       (if \<exists>w \<in> set (frames_of ''CMD'' (parse_capture (py_splitlines input))). length w = 16 then 2 else 0)"
proof -
  define frames where "frames = parse_capture (py_splitlines input)"
  have ok: "capture_ok frames" by (simp add: frames_def parse_capture_ok)
  obtain debug where debug: "map_result debug_line (frames_of ''DEBUG'' frames) = Inr debug"
      "length debug = length (frames_of ''DEBUG'' frames)"
    using map_result_total [of "frames_of ''DEBUG'' frames" debug_line] frames_of_ok [OF ok] debug_line_total by blast
  obtain cmds where cmds: "map_result cmd_line (frames_of ''CMD'' frames) = Inr cmds"
      "length cmds = length (frames_of ''CMD'' frames)"
    using map_result_total [of "frames_of ''CMD'' frames" cmd_line] frames_of_ok [OF ok] cmd_line_total by blast
  have lat: "List.map_filter snd cmds = [] \<longleftrightarrow> (\<forall>w \<in> set (frames_of ''CMD'' frames). length w \<noteq> 16)"
    by (rule map_result_some [OF cmds(1)]) (rule cmd_line_total [OF frames_of_ok [OF ok]])
  have len: "length (frames_of ''DEBUG'' frames) + length (frames_of ''MDEBUG'' frames) +
      length (frames_of ''CMD'' frames) = length frames"
    by (rule length_by_tag) (simp add: frames_def parse_capture_tags)
  show ?thesis unfolding capture_report_def Let_def frames_def [symmetric]
    using debug cmds lat len by (auto simp: latency_lines_def)
qed

end
