(* ===== verification/Sim_Records.thy ===== *)
theory Sim_Records
  imports Capture_Text Parser_Model
begin

text \<open>
  The stream records in the output of a netlist simulation: the lines the test bench displays, their
  reader \<open>sim_records\<close> in \<open>ni_stream_model.py\<close> with the comparison of its \<open>main\<close>, and the reader
  \<open>records\<close> of \<open>eval_sim.py\<close>, which also takes a capture from the board. A DEBUG record is four words,
  a CMD record sixteen.
\<close>

section \<open>Lines of the simulator\<close>

text \<open>The test bench's \<open>$display\<close> of a stream beat.\<close>

definition sim_line :: "string \<Rightarrow> nat \<Rightarrow> nat \<Rightarrow> int \<Rightarrow> bool \<Rightarrow> string" where
  "sim_line kind cyc n word tlast =
     to_dec cyc @ '' '' @ pad_right 6 kind @ '' w'' @ to_dec n @ '' 0x'' @ to_hex 16 (nat word)
     @ (if tlast then '' LAST'' else '''')"

text \<open>\<open>(\d+) KIND\s+w(\d+) 0x([0-9a-f]+)( LAST)?\<close>: the word and whether it is the last.\<close>

definition hex_int :: "string \<Rightarrow> int" where
  "hex_int h = int (foldl (\<lambda>a c. 16 * a + the (digit_val c)) 0 h)"

definition match_beat :: "string \<Rightarrow> string \<Rightarrow> (int \<times> bool) option" where
  "match_beat kind s = Option.bind (match_some is_digit s) (\<lambda>(cyc, t).
     Option.bind (match_lit ('' '' @ kind) t) (\<lambda>u.
     Option.bind (match_some is_space u) (\<lambda>(sp, v).
     Option.bind (match_lit ''w'' v) (\<lambda>x.
     Option.bind (match_some is_digit x) (\<lambda>(n, y).
     Option.bind (match_lit '' 0x'' y) (\<lambda>z.
     Option.bind (match_some is_lower_hex z) (\<lambda>(h, rest).
       Some (hex_int h, take 5 rest = '' LAST''))))))))"

section \<open>sim_records\<close>

definition header_words :: "int list \<Rightarrow> bool" where
  "header_words w \<longleftrightarrow> length w = 4 \<and> drop_bit 32 (w ! 0) = 0xDE"

definition record_of_words :: "int list \<Rightarrow> debug_record option" where
  "record_of_words w =
     (if length w \<noteq> 4 \<or> w ! 0 \<in> {0xBBBB, 0xAAAB} then None
      else if w ! 0 = 0xAAAA then Some RWaiting
      else if drop_bit 32 (w ! 0) = 0xDE then Some (RHdr (w ! 0 AND 0xFFFFFFFF) (w ! 2))
      else if w ! 3 = 0x99 then Some (RMsg (w ! 0))
      else None)"

definition sim_record_line :: "debug_record list \<times> int list \<Rightarrow> string \<Rightarrow> debug_record list \<times> int list" where
  "sim_record_line s l = (case s of (out, cur) \<Rightarrow>
     (case match_beat ''DEBUG'' l of
        None \<Rightarrow> (out, cur)
      | Some (x, tlast) \<Rightarrow>
          if tlast then (out @ (case record_of_words (cur @ [x]) of None \<Rightarrow> [] | Some r \<Rightarrow> [r]), [])
          else (out, cur @ [x])))"

definition sim_records :: "string \<Rightarrow> debug_record list" where
  "sim_records text = fst (foldl sim_record_line ([], []) (py_lines [] text))"

text \<open>The comparison of \<open>main\<close>: the first index at which the lists differ, and whether it reports a match.\<close>

definition first_bad :: "debug_record list \<Rightarrow> debug_record list \<Rightarrow> nat option" where
  "first_bad records sim =
     List.find (\<lambda>i. records ! i \<noteq> sim ! i) [0..<min (length records) (length sim)]"

definition reports_match :: "debug_record list \<Rightarrow> debug_record list \<Rightarrow> bool" where
  "reports_match records sim \<longleftrightarrow> first_bad records sim = None \<and> length records = length sim"

section \<open>records\<close>

definition hdr_rec :: "int list \<Rightarrow> (int \<times> int) py_result" where
  "hdr_rec w = bind_result (be_bytes8 (w ! 2)) (\<lambda>b. Inr (w ! 0 AND 0xFFFF, from_le (py_slice 4 8 b)))"

record rec_state =
  rs_hdrs :: "(int \<times> int) list"
  rs_cmds :: "int list list"
  rs_cur :: "string \<Rightarrow> int list"
  rs_kind :: "string option"

definition rec_init :: rec_state where
  "rec_init = \<lparr>rs_hdrs = [], rs_cmds = [], rs_cur = (\<lambda>k. []), rs_kind = None\<rparr>"

definition keep_record :: "string \<Rightarrow> int list \<Rightarrow> rec_state \<Rightarrow> rec_state py_result" where
  "keep_record kind w s =
     bind_result (if kind = ''DEBUG'' \<and> header_words w
        then bind_result (hdr_rec w) (\<lambda>h. Inr (s\<lparr>rs_hdrs := rs_hdrs s @ [h]\<rparr>)) else Inr s) (\<lambda>s1.
     Inr (if kind = ''CMD'' \<and> length w = 16 then s1\<lparr>rs_cmds := rs_cmds s1 @ [w]\<rparr> else s1))"

text \<open>A line of a board capture.\<close>

definition flush_kind :: "rec_state \<Rightarrow> rec_state py_result" where
  "flush_kind s = (case rs_kind s of
       None \<Rightarrow> Inr s
     | Some k \<Rightarrow> if k \<in> {''DEBUG'', ''CMD''} \<and> rs_cur s k \<noteq> []
         then keep_record k (rs_cur s k) (s\<lparr>rs_cur := (rs_cur s)(k := [])\<rparr>) else Inr s)"

definition board_line :: "rec_state \<Rightarrow> string \<Rightarrow> rec_state py_result" where
  "board_line s l = (case match_frame l of
       Some (tag, t) \<Rightarrow> bind_result (flush_kind s) (\<lambda>s1. Inr (s1\<lparr>rs_kind := Some tag\<rparr>))
     | None \<Rightarrow> (case (match_row l, rs_kind s) of
         (Some w, Some k) \<Rightarrow> Inr (if k \<in> {''DEBUG'', ''CMD''}
            then s\<lparr>rs_cur := (rs_cur s)(k := rs_cur s k @ [row_value w])\<rparr> else s)
       | _ \<Rightarrow> Inr s))"

text \<open>A line of the simulator.\<close>

definition sim_beat :: "rec_state \<Rightarrow> string \<Rightarrow> int \<times> bool \<Rightarrow> rec_state py_result" where
  "sim_beat s k b = (case b of (x, tlast) \<Rightarrow>
     (let w = rs_cur s k @ [x]
      in if tlast then keep_record k w (s\<lparr>rs_cur := (rs_cur s)(k := [])\<rparr>)
         else Inr (s\<lparr>rs_cur := (rs_cur s)(k := w)\<rparr>)))"

definition sim_result_line :: "rec_state \<Rightarrow> string \<Rightarrow> rec_state py_result" where
  "sim_result_line s l = (case match_beat ''CMD'' l of
       Some b \<Rightarrow> sim_beat s ''CMD'' b
     | None \<Rightarrow> (case match_beat ''DEBUG'' l of Some b \<Rightarrow> sim_beat s ''DEBUG'' b | None \<Rightarrow> Inr s))"

definition is_board :: "string list \<Rightarrow> bool" where
  "is_board lines \<longleftrightarrow> list_ex (\<lambda>l. take 11 l = ''[CMD] frame'' \<or> take 13 l = ''[DEBUG] frame'') lines"

definition sim_results :: "string \<Rightarrow> ((int \<times> int) list \<times> int list list) py_result" where
  "sim_results text =
     (let lines = py_splitlines text
      in bind_result
           (if is_board lines then
              bind_result (fold_result board_line rec_init lines) (\<lambda>s.
              bind_result (keep_record ''DEBUG'' (rs_cur s ''DEBUG'') s) (\<lambda>s1.
                keep_record ''CMD'' (rs_cur s1 ''CMD'') s1))
            else fold_result sim_result_line rec_init lines)
           (\<lambda>s. Inr (rs_hdrs s, rs_cmds s)))"

section \<open>Board captures: the same records as the decoder\<close>

definition hdr_of :: "int list \<Rightarrow> int \<times> int" where
  "hdr_of w = (w ! 0 AND 0xFFFF, from_le (py_slice 4 8 (to_be 8 (w ! 2))))"

definition hdrs_in :: "captured \<Rightarrow> (int \<times> int) list" where
  "hdrs_in frames = map hdr_of (filter header_words (frames_of ''DEBUG'' frames))"

definition cmds_in :: "captured \<Rightarrow> int list list" where
  "cmds_in frames = filter (\<lambda>w. length w = 16) (frames_of ''CMD'' frames)"

lemma in_append [simp]:
  "hdrs_in (xs @ ys) = hdrs_in xs @ hdrs_in ys" "cmds_in (xs @ ys) = cmds_in xs @ cmds_in ys"
  "hdrs_in [] = []" "cmds_in [] = []"
  by (simp_all add: hdrs_in_def cmds_in_def frames_of_def)

lemma keep_record_ok:
  assumes "list_all word_range w"
  shows "keep_record k w s = Inr (s\<lparr>rs_hdrs := rs_hdrs s @ hdrs_in [(k, w)], rs_cmds := rs_cmds s @ cmds_in [(k, w)]\<rparr>)"
proof -
  have "hdr_rec w = Inr (hdr_of w)" if "header_words w"
  proof -
    have "word_range (w ! 2)" using assms that by (auto simp: header_words_def list_all_length)
    then show ?thesis by (simp add: hdr_rec_def hdr_of_def be_bytes8_def word_range_def)
  qed
  then show ?thesis by (auto simp: keep_record_def hdrs_in_def cmds_in_def frames_of_def)
qed

text \<open>After the frames \<open>fs\<close>: the last one is still being collected, unless it is an MDEBUG frame.\<close>

definition collects :: "captured \<Rightarrow> rec_state \<Rightarrow> bool" where
  "collects fs s \<longleftrightarrow>
     rs_hdrs s = hdrs_in (butlast fs) \<and> rs_cmds s = cmds_in (butlast fs) \<and>
     rs_kind s = (if fs = [] then None else Some (fst (List.last fs))) \<and>
     rs_cur s = (\<lambda>k. if fs \<noteq> [] \<and> k = fst (List.last fs) \<and> k \<in> {''DEBUG'', ''CMD''} then snd (List.last fs) else [])"

lemma collects_snoc:
  "collects (fs @ [(k, ws)]) s \<longleftrightarrow>
     rs_hdrs s = hdrs_in fs \<and> rs_cmds s = cmds_in fs \<and> rs_kind s = Some k \<and>
     rs_cur s = (\<lambda>j. if j = k \<and> j \<in> {''DEBUG'', ''CMD''} then ws else [])"
  by (simp add: collects_def cong: if_cong)

lemma other_kind: "k \<notin> {''DEBUG'', ''CMD''} \<Longrightarrow> hdrs_in [(k, w)] = []" "k \<notin> {''DEBUG'', ''CMD''} \<Longrightarrow> cmds_in [(k, w)] = []"
  "hdrs_in [(k, [])] = []" "cmds_in [(k, [])] = []"
  by (auto simp: hdrs_in_def cmds_in_def frames_of_def header_words_def)

lemma flush_collects:
  assumes "collects fs s" "capture_ok fs"
  shows "\<exists>s1. flush_kind s = Inr s1 \<and> rs_hdrs s1 = hdrs_in fs \<and> rs_cmds s1 = cmds_in fs \<and> rs_cur s1 = (\<lambda>k. [])"
proof (cases fs rule: rev_cases)
  case Nil
  then show ?thesis using assms by (simp add: collects_def flush_kind_def)
next
  case (snoc fs' x)
  obtain k ws where x: "x = (k, ws)" by (cases x)
  have s: "rs_hdrs s = hdrs_in fs'" "rs_cmds s = cmds_in fs'" "rs_kind s = Some k"
    "rs_cur s = (\<lambda>j. if j = k \<and> j \<in> {''DEBUG'', ''CMD''} then ws else [])"
    using assms(1) by (simp_all only: snoc x collects_snoc)
  have ok: "list_all word_range ws" using assms(2) by (simp add: snoc x capture_ok_def)
  show ?thesis
  proof (cases "k \<in> {''DEBUG'', ''CMD''} \<and> ws \<noteq> []")
    case True
    have "flush_kind s = keep_record k ws (s\<lparr>rs_cur := (rs_cur s)(k := [])\<rparr>)"
      using True by (simp add: flush_kind_def s)
    moreover have "(rs_cur s)(k := []) = (\<lambda>j. [])" by (auto simp: s(4))
    ultimately show ?thesis by (simp add: keep_record_ok [OF ok] s(1,2) snoc x)
  next
    case False
    have ws: "ws = []" if "k \<in> {''DEBUG'', ''CMD''}" using False that by blast
    have "rs_cur s j = []" for j using False unfolding s(4) by (simp only: if_False simp_thms split: if_split) metis
    then have "rs_cur s = (\<lambda>j. [])" by (rule ext)
    moreover have "flush_kind s = Inr s"
      using ws by (cases "k \<in> {''DEBUG'', ''CMD''}") (simp_all only: flush_kind_def s(3,4) option.case simp_thms if_False if_True if_cancel)
    moreover have "hdrs_in [(k, ws)] = []" "cmds_in [(k, ws)] = []"
      using ws other_kind by (cases "k \<in> {''DEBUG'', ''CMD''}"; simp)+
    ultimately show ?thesis by (simp add: s(1,2) snoc x)
  qed
qed

lemma header_frame: "match_header l = Some tag \<Longrightarrow> \<exists>t. match_frame l = Some (tag, t)"
  by (auto simp: match_header_def bind_eq_Some_conv)

text \<open>Lines on which both readers agree what a frame header is.\<close>

definition full_headers :: "string list \<Rightarrow> bool" where
  "full_headers ls \<longleftrightarrow> list_all (\<lambda>l. match_frame l \<noteq> None \<longrightarrow> match_header l \<noteq> None) ls"

lemma board_line_collects:
  assumes "collects fs s" "capture_ok fs" "match_frame l \<noteq> None \<longrightarrow> match_header l \<noteq> None"
  shows "\<exists>s1. board_line s l = Inr s1 \<and> collects (parse_line fs l) s1"
proof (cases "match_header l")
  case (Some tag)
  obtain t where t: "match_frame l = Some (tag, t)" using header_frame [OF Some] by blast
  obtain s1 where s1: "flush_kind s = Inr s1" "rs_hdrs s1 = hdrs_in fs" "rs_cmds s1 = cmds_in fs" "rs_cur s1 = (\<lambda>k. [])"
    using flush_collects [OF assms(1,2)] by blast
  have "collects (fs @ [(tag, [])]) (s1\<lparr>rs_kind := Some tag\<rparr>)"
    by (simp add: collects_snoc s1 del: in_append)
  then show ?thesis using Some t s1 by (simp add: board_line_def parse_line_def)
next
  case None
  then have f: "match_frame l = None" using assms(3) by (cases "match_frame l") simp_all
  show ?thesis
  proof (cases "match_row l")
    case row: None
    then show ?thesis using None f assms(1) by (simp add: board_line_def parse_line_def)
  next
    case (Some w)
    show ?thesis
    proof (cases fs rule: rev_cases)
      case Nil
      then show ?thesis using Some None f assms(1)
        by (simp add: board_line_def parse_line_def collects_def append_word_def)
    next
      case (snoc fs' x)
      obtain k ws where x: "x = (k, ws)" by (cases x)
      have s: "rs_hdrs s = hdrs_in fs'" "rs_cmds s = cmds_in fs'" "rs_kind s = Some k"
        "rs_cur s = (\<lambda>j. if j = k \<and> j \<in> {''DEBUG'', ''CMD''} then ws else [])"
        using assms(1) by (simp_all only: snoc x collects_snoc)
      have "parse_line fs l = fs' @ [(k, ws @ [row_value w])]"
        by (simp add: parse_line_def None Some snoc x append_word_last)
      moreover have "board_line s l = Inr (if k \<in> {''DEBUG'', ''CMD''}
          then s\<lparr>rs_cur := (rs_cur s)(k := rs_cur s k @ [row_value w])\<rparr> else s)"
        by (simp add: board_line_def f Some s(3))
      ultimately show ?thesis by (auto simp: collects_snoc s fun_eq_iff)
    qed
  qed
qed

lemma board_lines_collect:
  "collects fs s \<Longrightarrow> capture_ok fs \<Longrightarrow> full_headers ls \<Longrightarrow>
   \<exists>s1. fold_result board_line s ls = Inr s1 \<and> collects (foldl parse_line fs ls) s1"
proof (induction ls arbitrary: fs s)
  case (Cons l ls)
  have "match_frame l \<noteq> None \<longrightarrow> match_header l \<noteq> None" "full_headers ls"
    using Cons.prems(3) by (simp_all add: full_headers_def)
  with board_line_collects [OF Cons.prems(1,2)] obtain s1 where
    s1: "board_line s l = Inr s1" "collects (parse_line fs l) s1" by blast
  from Cons.IH [OF s1(2) parse_line_ok [OF Cons.prems(2)] \<open>full_headers ls\<close>] show ?case by (simp add: s1(1))
qed simp

lemma keep_end:
  assumes "collects fs s" "capture_ok fs"
  shows "bind_result (keep_record ''DEBUG'' (rs_cur s ''DEBUG'') s) (\<lambda>s1. keep_record ''CMD'' (rs_cur s1 ''CMD'') s1) =
     Inr (s\<lparr>rs_hdrs := hdrs_in fs, rs_cmds := cmds_in fs\<rparr>)"
proof (cases fs rule: rev_cases)
  case Nil
  then show ?thesis using assms by (simp add: collects_def keep_record_ok other_kind)
next
  case (snoc fs' x)
  obtain k ws where x: "x = (k, ws)" by (cases x)
  have s: "rs_hdrs s = hdrs_in fs'" "rs_cmds s = cmds_in fs'"
    "rs_cur s = (\<lambda>j. if j = k \<and> j \<in> {''DEBUG'', ''CMD''} then ws else [])"
    using assms(1) by (simp_all only: snoc x collects_snoc)
  have ok: "list_all word_range ws" using assms(2) by (simp add: snoc x capture_ok_def)
  have cur: "list_all word_range (rs_cur s j)" for j using ok by (simp add: s(3))
  have "hdrs_in [(''CMD'', v)] = []" "cmds_in [(''DEBUG'', v)] = []" for v
    by (simp_all add: hdrs_in_def cmds_in_def frames_of_def)
  then have "keep_record ''DEBUG'' (rs_cur s ''DEBUG'') s = Inr (s\<lparr>rs_hdrs := rs_hdrs s @ hdrs_in [(''DEBUG'', rs_cur s ''DEBUG'')]\<rparr>)"
    "keep_record ''CMD'' (rs_cur s ''CMD'') s1 = Inr (s1\<lparr>rs_cmds := rs_cmds s1 @ cmds_in [(''CMD'', rs_cur s ''CMD'')]\<rparr>)" for s1
    by (simp_all add: keep_record_ok [OF cur])
  moreover have "hdrs_in [(''DEBUG'', rs_cur s ''DEBUG'')] = hdrs_in [(k, ws)]"
    "cmds_in [(''CMD'', rs_cur s ''CMD'')] = cmds_in [(k, ws)]"
    using other_kind by (auto simp: s(3) hdrs_in_def cmds_in_def frames_of_def header_words_def)
  ultimately show ?thesis by (simp add: s(1,2) snoc x)
qed

text \<open>C24. The two readers of a board capture agree: on a text in which every frame header is complete,
  \<open>records\<close> of eval_sim.py returns, without an exception, the length and sequence of exactly the
  header records and exactly the complete commands among the frames that decode_capture.py parses,
  in their order.\<close>
theorem board_records_decoder:
  assumes "is_board (py_splitlines input)" and "full_headers (py_splitlines input)"
  shows "sim_results input = Inr (hdrs_in (parse_capture (py_splitlines input)), cmds_in (parse_capture (py_splitlines input)))"
proof -
  define ls where "ls = py_splitlines input"
  have "collects [] rec_init" "capture_ok []" by (simp_all add: collects_def rec_init_def capture_ok_def)
  with board_lines_collect [of "[]" rec_init ls] assms(2) obtain s where
    s: "fold_result board_line rec_init ls = Inr s" "collects (parse_capture ls) s"
    by (auto simp: ls_def parse_capture_def)
  show ?thesis using assms(1) s(1) keep_end [OF s(2) parse_capture_ok]
    by (simp add: sim_results_def Let_def flip: ls_def)
qed

theorem board_records_decoder_witness:
  "let input = ''[MDEBUG] frame 8 (8 bytes):'' @ [CHR 10] @ ''  0000: 0a00000000000000'' @ [CHR 10]
       @ ''[DEBUG] frame 9 (32 bytes):'' @ [CHR 10]
       @ ''  0000: 12000000de000000'' @ [CHR 10] @ ''  0008: 1200000000000000'' @ [CHR 10]
       @ ''  0010: 0000000501010012'' @ [CHR 10] @ ''  0018: 0000000000000000'' @ [CHR 10]
   in sim_results input = Inr ([(18, 5)], [])"
proof -
  let ?input = "''[MDEBUG] frame 8 (8 bytes):'' @ [CHR 10] @ ''  0000: 0a00000000000000'' @ [CHR 10]
       @ ''[DEBUG] frame 9 (32 bytes):'' @ [CHR 10]
       @ ''  0000: 12000000de000000'' @ [CHR 10] @ ''  0008: 1200000000000000'' @ [CHR 10]
       @ ''  0010: 0000000501010012'' @ [CHR 10] @ ''  0018: 0000000000000000'' @ [CHR 10]"
  have "is_board (py_splitlines ?input)" by code_simp
  moreover have "full_headers (py_splitlines ?input)" by code_simp
  moreover have "hdrs_in (parse_capture (py_splitlines ?input)) = [(18, 5)]" by code_simp
  moreover have "cmds_in (parse_capture (py_splitlines ?input)) = []" by code_simp
  ultimately show ?thesis using board_records_decoder [of ?input] by (simp only: Let_def)
qed

section \<open>Simulator output\<close>

text \<open>What the simulation writes: stream beats, and remarks behind a number sign.\<close>

datatype sim_event = Beat string nat nat int bool | Remark string

definition event_line :: "sim_event \<Rightarrow> string" where
  "event_line e = (case e of Beat kind cyc n word tlast \<Rightarrow> sim_line kind cyc n word tlast | Remark t \<Rightarrow> ''# '' @ t)"

definition sim_output :: "sim_event list \<Rightarrow> string" where
  "sim_output evs = concat (map (\<lambda>l. l @ [CHR 10]) (map event_line evs))"

definition sim_event_ok :: "sim_event \<Rightarrow> bool" where
  "sim_event_ok e = (case e of
     Beat kind cyc n word tlast \<Rightarrow> kind \<in> {''DEBUG'', ''MDEBUG'', ''CMD''} \<and> word_range word
   | Remark t \<Rightarrow> one_line t)"

text \<open>The beats of a stream, and the records they make.\<close>

fun beats_on :: "string \<Rightarrow> sim_event list \<Rightarrow> (int \<times> bool) list" where
  "beats_on kind [] = []"
| "beats_on kind (Beat k cyc n word tlast # evs) = (if k = kind then [(word, tlast)] else []) @ beats_on kind evs"
| "beats_on kind (Remark t # evs) = beats_on kind evs"

fun records_from :: "int list \<Rightarrow> (int \<times> bool) list \<Rightarrow> int list list" where
  "records_from cur [] = []"
| "records_from cur ((x, tlast) # bs) =
     (if tlast then (cur @ [x]) # records_from [] bs else records_from (cur @ [x]) bs)"

lemma hex_int_to_hex: "0 \<le> x \<Longrightarrow> hex_int (to_hex w (nat x)) = x"
  using fold_digits [of 16 "nat x"] by (simp add: hex_int_def to_hex_def pad_zeros_def fold_zeros)

lemma sim_line_parts:
  "sim_line kind cyc n word tlast =
     to_dec cyc @ ('' '' @ kind) @ (replicate (6 - length kind) (CHR '' '') @ '' '') @ ''w'' @ to_dec n @ '' 0x''
     @ to_hex 16 (nat word) @ (if tlast then '' LAST'' else '''')"
  by (simp add: sim_line_def pad_right_def)

lemma match_some_all: "w \<noteq> [] \<Longrightarrow> list_all p w \<Longrightarrow> match_some p w = Some (w, [])"
proof -
  assume w: "w \<noteq> []" "list_all p w"
  then have all: "takeWhile p w = w" "dropWhile p w = []" by (simp_all add: list_all_iff)
  show ?thesis unfolding match_some_def all using w(1) by (simp only: Let_def if_False)
qed

lemma match_beat_own:
  assumes "word_range word" and t: "t \<in> {[], [CHR 10]}"
  shows "match_beat kind (sim_line kind cyc n word tlast @ t) = Some (word, tlast)"
proof -
  let ?pad = "replicate (6 - length kind) (CHR '' '') @ '' ''" and ?tail = "(if tlast then '' LAST'' else '''') @ t"
  have digit: "match_some is_digit (to_dec k @ CHR '' '' # s) = Some (to_dec k, CHR '' '' # s)" for k s
    by (rule match_some_append) (simp_all add: to_dec_digits is_digit_def)
  have space: "match_some is_space (?pad @ ''w'' @ s) = Some (?pad, ''w'' @ s)" for s
    by (rule match_some_append) (auto simp: is_space_def list_all_iff)
  have hex: "to_hex 16 (nat word) \<noteq> []" using to_hex_string [of 16 "nat word"] by (simp add: digit_string_def)
  have last_hex: "match_some is_lower_hex (to_hex 16 (nat word) @ ?tail) = Some (to_hex 16 (nat word), ?tail)"
  proof (cases "?tail = []")
    case True
    then show ?thesis using match_some_all [OF hex to_hex_digits] by simp
  next
    case False
    then have "\<not> is_lower_hex (hd ?tail)" using t by (auto simp: is_lower_hex_def is_digit_def split: if_splits)
    then show ?thesis using hex False by (intro match_some_append) (simp_all add: to_hex_digits)
  qed
  have "take 5 ?tail = '' LAST'' \<longleftrightarrow> tlast" using t by auto
  moreover have "match_lit ('' '' @ kind) ('' '' @ kind @ s) = Some s" for s
    using match_lit_append [of "'' '' @ kind" s] by simp
  moreover have "hex_int (to_hex 16 (nat word)) = word"
    using assms by (simp add: hex_int_to_hex word_range_def)
  ultimately show ?thesis
    using digit space last_hex
    by (simp add: match_beat_def sim_line_parts match_lit_def)
qed

lemma match_beat_other:
  "kind' \<in> {''DEBUG'', ''MDEBUG'', ''CMD''} \<Longrightarrow> kind \<in> {''DEBUG'', ''CMD''} \<Longrightarrow> kind' \<noteq> kind \<Longrightarrow>
   match_beat kind (sim_line kind' cyc n word tlast @ t) = None"
proof -
  assume k: "kind' \<in> {''DEBUG'', ''MDEBUG'', ''CMD''}" "kind \<in> {''DEBUG'', ''CMD''}" "kind' \<noteq> kind"
  have "match_some is_digit (to_dec cyc @ CHR '' '' # s) = Some (to_dec cyc, CHR '' '' # s)" for s
    by (rule match_some_append) (simp_all add: to_dec_digits is_digit_def)
  then show ?thesis using k
    by (elim insertE emptyE) (simp_all add: match_beat_def sim_line_parts match_lit_def)
qed

lemma match_beat_remark: "match_beat kind (CHR ''#'' # t) = None"
  by (simp add: match_beat_def match_some_def is_digit_def)

definition beat_on :: "string \<Rightarrow> sim_event \<Rightarrow> (int \<times> bool) option" where
  "beat_on kind e = (case e of
    Beat k cyc n word tlast \<Rightarrow> if k = kind then Some (word, tlast) else None | Remark t \<Rightarrow> None)"

lemma match_beat_event:
  assumes "sim_event_ok e" "kind \<in> {''DEBUG'', ''CMD''}" "t \<in> {[], [CHR 10]}"
  shows "match_beat kind (event_line e @ t) = beat_on kind e"
proof (cases e)
  case (Beat k cyc n word tlast)
  then have e: "k \<in> {''DEBUG'', ''MDEBUG'', ''CMD''}" "word_range word" using assms(1) by (simp_all add: sim_event_ok_def)
  show ?thesis using Beat match_beat_own [OF e(2) assms(3)] match_beat_other [OF e(1) assms(2)]
    by (cases "k = kind") (simp_all add: event_line_def beat_on_def)
qed (simp add: event_line_def match_beat_remark beat_on_def)

lemma beats_on_event: "beats_on kind (e # evs) = (case beat_on kind e of Some b \<Rightarrow> [b] | None \<Rightarrow> []) @ beats_on kind evs"
  by (cases e) (simp_all add: beat_on_def)

lemma event_one_line: "sim_event_ok e \<Longrightarrow> one_line (event_line e)"
proof (cases e)
  case (Beat k cyc n word tlast)
  assume "sim_event_ok e"
  then have "one_line k" using Beat by (auto simp: sim_event_ok_def line_end_def)
  moreover have "one_line (replicate m (CHR '' ''))" for m by (simp add: one_line_def list_all_iff line_end_def)
  moreover have "one_line (to_dec m)" for m by (rule digit_string_one_line [OF to_dec_string]) simp
  moreover have "one_line (to_hex 16 m)" for m by (rule digit_string_one_line [OF to_hex_string]) simp
  ultimately show ?thesis by (auto simp: Beat event_line_def sim_line_parts line_end_def)
next
  case (Remark t)
  assume "sim_event_ok e"
  then show ?thesis by (simp add: Remark sim_event_ok_def event_line_def line_end_def)
qed

lemma one_line_plain: "one_line l \<Longrightarrow> plain_line l"
  by (auto simp: one_line_def plain_line_def list_all_iff line_end_def)

lemma output_lines:
  assumes "list_all sim_event_ok evs"
  shows "py_lines [] (sim_output evs) = map (\<lambda>e. event_line e @ [CHR 10]) evs"
    and "py_splitlines (sim_output evs) = map event_line evs"
proof -
  have "list_all one_line (map event_line evs)" using assms by (auto simp: list_all_iff event_one_line)
  moreover from this have "list_all plain_line (map event_line evs)" by (auto simp: list_all_iff one_line_plain)
  ultimately show "py_lines [] (sim_output evs) = map (\<lambda>e. event_line e @ [CHR 10]) evs"
    "py_splitlines (sim_output evs) = map event_line evs"
    unfolding sim_output_def using py_lines_concat [of "map event_line evs"] splitlines_concat [of "map event_line evs"]
    by (simp_all add: comp_def)
qed

text \<open>Both readers on such lines.\<close>

lemma sim_record_lines:
  "list_all sim_event_ok evs \<Longrightarrow>
   fst (foldl sim_record_line (out, cur) (map (\<lambda>e. event_line e @ [CHR 10]) evs)) =
     out @ List.map_filter record_of_words (records_from cur (beats_on ''DEBUG'' evs))"
proof (induction evs arbitrary: out cur)
  case Nil
  then show ?case by (simp add: List.map_filter_def)
next
  case (Cons e evs)
  have "match_beat ''DEBUG'' (event_line e @ [CHR 10]) = beat_on ''DEBUG'' e"
    by (rule match_beat_event) (use Cons.prems in simp_all)
  then show ?case using Cons
    by (cases "beat_on ''DEBUG'' e") (auto simp: sim_record_line_def beats_on_event List.map_filter_simps split: option.splits)
qed

lemma sim_results_lines:
  "list_all sim_event_ok evs \<Longrightarrow> list_all word_range (rs_cur s ''DEBUG'') \<Longrightarrow> list_all word_range (rs_cur s ''CMD'') \<Longrightarrow>
   \<exists>s1. fold_result sim_result_line s (map event_line evs) = Inr s1 \<and>
     rs_hdrs s1 = rs_hdrs s @ map hdr_of (filter header_words (records_from (rs_cur s ''DEBUG'') (beats_on ''DEBUG'' evs))) \<and>
     rs_cmds s1 = rs_cmds s @ filter (\<lambda>w. length w = 16) (records_from (rs_cur s ''CMD'') (beats_on ''CMD'' evs))"
proof (induction evs arbitrary: s)
  case (Cons e evs)
  have ev: "list_all sim_event_ok evs" using Cons.prems(1) by simp
  have m: "match_beat k (event_line e) = beat_on k e" if "k \<in> {''DEBUG'', ''CMD''}" for k
    using match_beat_event [of e k "[]"] Cons.prems(1) that by simp
  have hd_kinds: "hdrs_in [(''CMD'', w)] = []" "cmds_in [(''DEBUG'', w)] = []"
    "hdrs_in [(''DEBUG'', w)] = map hdr_of (filter header_words [w])" "cmds_in [(''CMD'', w)] = filter (\<lambda>w. length w = 16) [w]" for w
    by (simp_all add: hdrs_in_def cmds_in_def frames_of_def)
  show ?case
  proof (cases "beat_on ''CMD'' e = None \<and> beat_on ''DEBUG'' e = None")
    case True
    then have "sim_result_line s (event_line e) = Inr s" by (simp add: sim_result_line_def m)
    then show ?thesis using Cons.IH [OF ev Cons.prems(2,3)] True by (simp add: beats_on_event)
  next
    case False
    then obtain k cyc n word tlast where e: "e = Beat k cyc n word tlast" "k \<in> {''DEBUG'', ''CMD''}"
      by (cases e) (auto simp: beat_on_def split: if_splits)
    have w: "word_range word" using Cons.prems(1) by (simp add: e sim_event_ok_def)
    define w1 where "w1 = rs_cur s k @ [word]"
    have w1: "list_all word_range w1" using Cons.prems(2,3) e(2) w by (auto simp: w1_def)
    define s2 where "s2 = (if tlast then s\<lparr>rs_cur := (rs_cur s)(k := []), rs_hdrs := rs_hdrs s @ hdrs_in [(k, w1)],
        rs_cmds := rs_cmds s @ cmds_in [(k, w1)]\<rparr> else s\<lparr>rs_cur := (rs_cur s)(k := w1)\<rparr>)"
    have "sim_result_line s (event_line e) = sim_beat s k (word, tlast)"
      using m [of "''CMD''"] m [of "''DEBUG''"] e by (auto simp: sim_result_line_def beat_on_def)
    also have "\<dots> = Inr s2" by (simp add: sim_beat_def s2_def keep_record_ok [OF w1] flip: w1_def)
    finally have line: "sim_result_line s (event_line e) = Inr s2" .
    have "list_all word_range (rs_cur s2 ''DEBUG'')" "list_all word_range (rs_cur s2 ''CMD'')"
      using Cons.prems(2,3) w1 by (simp_all add: s2_def)
    from Cons.IH [OF ev this] obtain s1 where s1: "fold_result sim_result_line s2 (map event_line evs) = Inr s1"
      "rs_hdrs s1 = rs_hdrs s2 @ map hdr_of (filter header_words (records_from (rs_cur s2 ''DEBUG'') (beats_on ''DEBUG'' evs)))"
      "rs_cmds s1 = rs_cmds s2 @ filter (\<lambda>w. length w = 16) (records_from (rs_cur s2 ''CMD'') (beats_on ''CMD'' evs))" by blast
    have "k = ''DEBUG'' \<or> k = ''CMD''" using e(2) by simp
    then show ?thesis
    proof
      assume k: "k = ''DEBUG''"
      show ?thesis using s1 line by (intro exI [of _ s1]) (simp add: e(1) k s2_def w1_def hd_kinds)
    next
      assume k: "k = ''CMD''"
      show ?thesis using s1 line by (intro exI [of _ s1]) (simp add: e(1) k s2_def w1_def hd_kinds)
    qed
  qed
qed simp

lemma not_board: "list_all sim_event_ok evs \<Longrightarrow> \<not> is_board (map event_line evs)"
proof -
  have "take 11 (event_line e) \<noteq> ''[CMD] frame'' \<and> take 13 (event_line e) \<noteq> ''[DEBUG] frame''" for e
  proof (cases e)
    case (Beat k cyc n word tlast)
    obtain c cs where "to_dec cyc = c # cs" "is_digit c" using to_dec_digits [of cyc] by (cases "to_dec cyc") auto
    then show ?thesis by (auto simp: Beat event_line_def sim_line_def is_digit_def)
  qed (simp add: event_line_def)
  then show ?thesis by (auto simp: is_board_def list_ex_iff)
qed

text \<open>Reading simulator output: whatever the interleaving of beats of the three streams and of
  remarks, \<open>sim_records\<close> of ni_stream_model.py and \<open>records\<close> of eval_sim.py, without an exception, see
  exactly the complete records of the DEBUG and of the CMD stream, each in the order of its stream;
  the words after the last end mark are ignored.\<close>
theorem sim_output_read:
  assumes "list_all sim_event_ok evs"
  shows "sim_records (sim_output evs) = List.map_filter record_of_words (records_from [] (beats_on ''DEBUG'' evs)) \<and>
    sim_results (sim_output evs) =
      Inr (map hdr_of (filter header_words (records_from [] (beats_on ''DEBUG'' evs))),
           filter (\<lambda>w. length w = 16) (records_from [] (beats_on ''CMD'' evs)))"
proof
  show "sim_records (sim_output evs) = List.map_filter record_of_words (records_from [] (beats_on ''DEBUG'' evs))"
    using sim_record_lines [OF assms, of "[]" "[]"] by (simp add: sim_records_def output_lines [OF assms])
  have "list_all word_range (rs_cur rec_init k)" for k by (simp add: rec_init_def)
  with sim_results_lines [OF assms, of rec_init] show "sim_results (sim_output evs) =
      Inr (map hdr_of (filter header_words (records_from [] (beats_on ''DEBUG'' evs))),
           filter (\<lambda>w. length w = 16) (records_from [] (beats_on ''CMD'' evs)))"
    by (auto simp: sim_results_def output_lines [OF assms] not_board [OF assms] rec_init_def)
qed

theorem sim_output_read_witness:
  "let evs = [Remark ''frame 1 starts'', Beat ''DEBUG'' 70 0 (push_bit 32 0xDE + 18) False, Beat ''CMD'' 70 0 1 False,
        Beat ''DEBUG'' 71 1 18 False, Beat ''DEBUG'' 72 2 0x1200010105000000 False, Beat ''MDEBUG'' 72 0 5 True,
        Beat ''DEBUG'' 73 3 0 True, Beat ''DEBUG'' 74 0 7 False]
   in sim_records (sim_output evs) = [RHdr 18 0x1200010105000000] \<and> sim_results (sim_output evs) = Inr ([(18, 5)], [])"
proof -
  let ?evs = "[Remark ''frame 1 starts'', Beat ''DEBUG'' 70 0 (push_bit 32 0xDE + 18) False, Beat ''CMD'' 70 0 1 False,
        Beat ''DEBUG'' 71 1 18 False, Beat ''DEBUG'' 72 2 0x1200010105000000 False, Beat ''MDEBUG'' 72 0 5 True,
        Beat ''DEBUG'' 73 3 0 True, Beat ''DEBUG'' 74 0 7 False]"
  have "list_all sim_event_ok ?evs" by code_simp
  moreover have "List.map_filter record_of_words (records_from [] (beats_on ''DEBUG'' ?evs)) = [RHdr 18 0x1200010105000000]"
    by code_simp
  moreover have "map hdr_of (filter header_words (records_from [] (beats_on ''DEBUG'' ?evs))) = [(18, 5)]" by code_simp
  moreover have "filter (\<lambda>w. length w = 16) (records_from [] (beats_on ''CMD'' ?evs)) = []" by code_simp
  ultimately show ?thesis using sim_output_read [of ?evs] by (simp only: Let_def)
qed

section \<open>The verdict\<close>

text \<open>The four words of a record as the streams' description gives them, and the message words that are
  not taken for one of the marks.\<close>

definition debug_words :: "debug_record \<Rightarrow> int list" where
  "debug_words r = (case r of
     RHdr l w \<Rightarrow> [push_bit 32 0xDE + l, l, w, 0]
   | RWaiting \<Rightarrow> [0xAAAA, 0, 0, 0]
   | RMsg x \<Rightarrow> [x, 0, 0, 0x99])"

definition unmistakable :: "debug_record \<Rightarrow> bool" where
  "unmistakable r = (case r of
     RHdr l w \<Rightarrow> 0 \<le> l \<and> l < 2 ^ 32
   | RWaiting \<Rightarrow> True
   | RMsg x \<Rightarrow> x \<notin> {0xBBBB, 0xAAAB, 0xAAAA} \<and> drop_bit 32 x \<noteq> 0xDE)"

lemma header_word:
  assumes "0 \<le> l" "l < (2 ^ 32 :: int)"
  shows "drop_bit 32 (push_bit 32 0xDE + l) = 0xDE" "(push_bit 32 0xDE + l) AND 0xFFFFFFFF = l"
proof -
  show "drop_bit 32 (push_bit 32 0xDE + l) = 0xDE" using assms by (simp add: drop_bit_eq_div push_bit_eq_mult)
  have "(0xDE * 2 ^ 32 + l) mod 2 ^ 32 = l mod 2 ^ 32" by (rule mod_mult_self3)
  then have "(push_bit 32 0xDE + l) AND mask 32 = l"
    using assms unfolding push_bit_eq_mult take_bit_eq_mask [symmetric] take_bit_eq_mod by simp
  then show "(push_bit 32 0xDE + l) AND 0xFFFFFFFF = l" by (simp add: mask_eq_exp_minus_1)
qed

lemma record_of_debug_words: "unmistakable r \<Longrightarrow> record_of_words (debug_words r) = Some r"
proof (cases r)
  case (RHdr l w)
  assume "unmistakable r"
  then have l: "0 \<le> l" "l < 2 ^ 32" by (simp_all add: RHdr unmistakable_def)
  have "push_bit 32 0xDE + l \<notin> {0xBBBB, 0xAAAB, 0xAAAA}" using l(1) by (auto simp: push_bit_eq_mult)
  then show ?thesis using header_word [OF l] by (simp add: RHdr debug_words_def record_of_words_def)
qed (simp_all add: debug_words_def record_of_words_def unmistakable_def)

text \<open>The marks are in band: a message whose word is one of them is not read as that message.\<close>

theorem message_taken_for_mark:
  "record_of_words (debug_words (RMsg x)) = Some (RMsg x) \<longleftrightarrow> unmistakable (RMsg x)"
  by (auto simp: debug_words_def record_of_words_def unmistakable_def)

lemma first_bad_None: "first_bad xs ys = None \<longleftrightarrow> take (min (length xs) (length ys)) xs = take (min (length xs) (length ys)) ys"
  by (auto simp: first_bad_def find_None_iff list_eq_iff_nth_eq)

lemma reports_match_iff: "reports_match xs ys \<longleftrightarrow> xs = ys"
  by (auto simp: reports_match_def first_bad_None)

lemma map_filter_all_Some: "(\<And>x. x \<in> set xs \<Longrightarrow> f x = Some (g x)) \<Longrightarrow> List.map_filter f xs = map g xs"
  by (induction xs) (simp_all add: List.map_filter_simps)

text \<open>C18. The comparison with the simulation: when the DEBUG stream of the simulation carries the records
  \<open>rs\<close> in their documented form, and no message word looks like a mark, main of ni_stream_model.py
  reports a match exactly when the model's records are \<open>rs\<close>, whatever else the output holds.\<close>
theorem comparison_verdict:
  assumes "list_all sim_event_ok evs" and "records_from [] (beats_on ''DEBUG'' evs) = map debug_words rs"
    and "list_all unmistakable rs"
  shows "reports_match records (sim_records (sim_output evs)) \<longleftrightarrow> records = rs"
proof -
  have "List.map_filter record_of_words (map debug_words rs) = rs"
    using assms(3) map_filter_all_Some [of rs "\<lambda>r. record_of_words (debug_words r)" id]
    by (simp add: record_of_debug_words list_all_iff List.map_filter_def comp_def)
  moreover have "sim_records (sim_output evs) = List.map_filter record_of_words (records_from [] (beats_on ''DEBUG'' evs))"
    using sim_record_lines [OF assms(1), of "[]" "[]"] by (simp add: sim_records_def output_lines [OF assms(1)])
  ultimately show ?thesis by (simp add: reports_match_iff assms(2))
qed

theorem comparison_verdict_witness:
  "let evs = [Beat ''DEBUG'' 70 0 (push_bit 32 0xDE + 18) False, Beat ''DEBUG'' 71 1 18 False,
        Beat ''DEBUG'' 72 2 7 False, Beat ''DEBUG'' 73 3 0 True, Beat ''CMD'' 73 0 9 True]
   in reports_match [RHdr 18 7] (sim_records (sim_output evs)) \<and> \<not> reports_match [RHdr 18 8] (sim_records (sim_output evs))"
proof -
  let ?evs = "[Beat ''DEBUG'' 70 0 (push_bit 32 0xDE + 18) False, Beat ''DEBUG'' 71 1 18 False,
        Beat ''DEBUG'' 72 2 7 False, Beat ''DEBUG'' 73 3 0 True, Beat ''CMD'' 73 0 9 True]"
  have "list_all sim_event_ok ?evs" by code_simp
  moreover have "records_from [] (beats_on ''DEBUG'' ?evs) = map debug_words [RHdr 18 7]" by code_simp
  moreover have "list_all unmistakable [RHdr 18 7]" by code_simp
  ultimately have "reports_match records (sim_records (sim_output ?evs)) \<longleftrightarrow> records = [RHdr 18 7]" for records
    by (rule comparison_verdict)
  then show ?thesis by (simp add: Let_def)
qed

end
