(* ===== verification/Sim_Score.thy ===== *)
theory Sim_Score
  imports Sim_Records Pcap_Files "HOL-Library.AList"
begin

text \<open>
  The scoring of \<open>eval_sim.py\<close>: what a message of the capture file should become (\<open>expect\<close>), and the
  comparison of \<open>main\<close>: resynchronisation on the parser's own sequence counter, header records against
  frames by sequence number, command records against messages in order, latencies and symbols. The
  figures that \<open>main\<close> prints are the fields of a record.
\<close>

section \<open>Expectation of a message\<close>

definition ENUM_type :: "int \<Rightarrow> int" where
  "ENUM_type t =
     (if t = 0x20 then 0 else if t \<in> {0x21, 0x22, 0x2F} then 1 else if t \<in> {0x23, 0x24} then 2 else 0)"

record expectation =
  ex_type :: int
  ex_pitch :: int
  ex_orderId :: "string option"
  ex_qty :: "int option"
  ex_symbol :: "string option"

text \<open>\<open>struct.unpack\<close> of a little-endian field wants exactly its size.\<close>

definition unpack_le :: "nat \<Rightarrow> int list \<Rightarrow> int py_result" where
  "unpack_le n bs = (if length bs = n then Inr (from_le bs) else Inl OtherError)"

definition expected_qty :: "int \<Rightarrow> int list \<Rightarrow> int option py_result" where
  "expected_qty t m =
     (if t \<in> {0x21, 0x2F} then bind_result (unpack_le 4 (py_slice 15 19 m)) (\<lambda>q. Inr (Some q))
      else if t = 0x22 then bind_result (unpack_le 2 (py_slice 15 17 m)) (\<lambda>q. Inr (Some q))
      else Inr None)"

definition expect :: "int list \<Rightarrow> expectation py_result" where
  "expect m = bind_result (py_index m 1) (\<lambda>t. bind_result (expected_qty t m) (\<lambda>qty.
     Inr \<lparr>ex_type = ENUM_type t, ex_pitch = t,
          ex_orderId = (if t \<in> {0x21, 0x22, 0x2F, 0x23, 0x24} then Some (latin1 (py_slice 6 14 m)) else None),
          ex_qty = qty,
          ex_symbol = (if t = 0x21 then Some (latin1 (py_slice 19 25 m))
                       else if t = 0x22 then Some (latin1 (py_slice 17 23 m))
                       else if t = 0x2F then Some (latin1 (py_slice 19 27 m)) else None)\<rparr>))"

definition score_s8 :: "int \<Rightarrow> string py_result" where
  "score_s8 v = bind_result (le_bytes8 v) (\<lambda>b. Inr (latin1 b))"

section \<open>Headers\<close>

text \<open>\<open>seq2frame\<close>: a Python dict keeps the place of a key that is set again, as \<open>AList.update\<close> does.\<close>

fun frames_by_seq :: "nat \<Rightarrow> int list list \<Rightarrow> (int \<times> nat \<times> nat) list \<Rightarrow> (int \<times> nat \<times> nat) list py_result" where
  "frames_by_seq f [] d = Inr d"
| "frames_by_seq f (p # ps) d = bind_result (unpack_le 4 (py_slice 4 8 p)) (\<lambda>sq.
     frames_by_seq (f + 1) ps (AList.update sq (f, length p) d))"

text \<open>\<open>seen.setdefault(sq, ln)\<close>: the first length seen for a sequence number stays.\<close>

definition seen_lengths :: "(int \<times> int) list \<Rightarrow> int \<rightharpoonup> int" where
  "seen_lengths hdrs = foldl (\<lambda>m (ln, sq). if m sq = None then m(sq \<mapsto> ln) else m) Map.empty hdrs"

section \<open>Commands\<close>

definition in_sync :: "int list \<Rightarrow> bool" where
  "in_sync w \<longleftrightarrow> w ! 12 = 1 \<and> w ! 15 = 0xDEADBEEF"

definition resync_at :: "int list list \<Rightarrow> nat option" where
  "resync_at cmds = List.find (\<lambda>i. in_sync (cmds ! i)) [0..<length cmds]"

definition resync :: "int list list \<Rightarrow> int list list" where
  "resync cmds = (case resync_at cmds of None \<Rightarrow> cmds | Some i \<Rightarrow> drop i cmds)"

text \<open>The messages with the number of their frame.\<close>

definition truth_list :: "(nat \<times> int list list) list \<Rightarrow> (nat \<times> int list) list" where
  "truth_list frames = concat (map (\<lambda>(f, plen, ms). map (\<lambda>m. (f, m)) ms) (zip [0..<length frames] frames))"

text \<open>The fields that differ, with what was got and what was expected.\<close>

datatype field_value = VInt int | VStr string

definition differ :: "string \<Rightarrow> field_value \<Rightarrow> field_value \<Rightarrow> (string \<times> field_value \<times> field_value) list" where
  "differ k got want = (if got \<noteq> want then [(k, got, want)] else [])"

definition diff_of :: "int list \<Rightarrow> expectation \<Rightarrow> (string \<times> field_value \<times> field_value) list py_result" where
  "diff_of w e =
     bind_result (case ex_orderId e of None \<Rightarrow> Inr []
       | Some x \<Rightarrow> bind_result (score_s8 (w ! 2)) (\<lambda>s. Inr (differ ''orderId'' (VStr s) (VStr x)))) (\<lambda>oid.
     Inr (differ ''type'' (VInt (w ! 0)) (VInt (ex_type e)) @ oid @
          (case ex_qty e of None \<Rightarrow> [] | Some q \<Rightarrow> differ ''qty'' (VInt (w ! 3)) (VInt q))))"

type_synonym mismatch = "nat \<times> nat \<times> int \<times> (string \<times> field_value \<times> field_value) list"

fun compare_from :: "nat \<Rightarrow> int list list \<Rightarrow> (nat \<times> int list) list \<Rightarrow> mismatch list py_result" where
  "compare_from i (w # ws) ((f, m) # truth) =
     bind_result (expect m) (\<lambda>e. bind_result (diff_of w e) (\<lambda>d.
     bind_result (compare_from (i + 1) ws truth) (\<lambda>rest.
       Inr ((if d \<noteq> [] then [(i + 1, f + 1, ex_pitch e, d)] else []) @ rest))))"
| "compare_from i _ _ = Inr []"

text \<open>Latencies by receive time, and the symbols seen per message type.\<close>

definition latencies :: "int list list \<Rightarrow> (int \<times> int list) list" where
  "latencies cmds =
     sort_key fst (foldl (\<lambda>d w. AList.map_default (w ! 13) [w ! 14 - w ! 13] (\<lambda>ls. ls @ [w ! 14 - w ! 13]) d) [] cmds)"

fun add_symbols :: "(int \<times> string list) list \<Rightarrow> int list list \<Rightarrow> (nat \<times> int list) list \<Rightarrow> (int \<times> string list) list py_result" where
  "add_symbols d (w # ws) ((f, m) # truth) =
     bind_result (expect m) (\<lambda>e.
       if ex_symbol e = None then add_symbols d ws truth
       else bind_result (score_s8 (w ! 4)) (\<lambda>s.
              add_symbols (AList.map_default (ex_pitch e) [s] (\<lambda>l. List.insert s l) d) ws truth))"
| "add_symbols d _ _ = Inr d"

section \<open>The score\<close>

record score =
  sc_hdr_records :: nat
  sc_hdr_ok :: nat
  sc_hdr_bad :: "(nat \<times> int \<times> nat) list"
  sc_hdr_missing :: "nat list"
  sc_frames :: nat
  sc_cmds :: nat
  sc_truth :: nat
  sc_bad :: "mismatch list"
  sc_matching :: int
  sc_latencies :: "(nat \<times> int \<times> int \<times> nat) list"
  sc_symbols :: "(int \<times> string list) list"

definition latency_rows :: "(int \<times> int list) list \<Rightarrow> (nat \<times> int \<times> int \<times> nat) list" where
  "latency_rows d =
     map (\<lambda>(k, rt, ls). (k + 1, hd ls * TICK_NS, Max (set ls) * TICK_NS, length ls)) (zip [0..<length d] d)"

definition score_of ::
    "(int \<times> int) list \<Rightarrow> int list list \<Rightarrow> (nat \<times> int list list) list \<Rightarrow> int list list \<Rightarrow> score py_result" where
  "score_of hdrs cmds0 frames payloads =
     (let cmds = resync cmds0; truth = truth_list frames
      in bind_result (frames_by_seq 0 payloads []) (\<lambda>by_seq.
         let seen = seen_lengths hdrs
         in bind_result (compare_from 0 cmds truth) (\<lambda>bad.
            bind_result (add_symbols [] (take (length truth) cmds) truth) (\<lambda>syms.
            Inr \<lparr>sc_hdr_records = length hdrs,
                 sc_hdr_ok = length (filter (\<lambda>(sq, f, plen). seen sq = Some (int plen)) by_seq),
                 sc_hdr_bad = List.map_filter (\<lambda>(sq, f, plen). case seen sq of
                     Some ln \<Rightarrow> if ln \<noteq> int plen then Some (f + 1, ln, plen) else None | None \<Rightarrow> None) by_seq,
                 sc_hdr_missing = List.map_filter (\<lambda>(sq, f, plen). if seen sq = None then Some (f + 1) else None) by_seq,
                 sc_frames = length frames, sc_cmds = length cmds, sc_truth = length truth, sc_bad = bad,
                 sc_matching = int (length cmds) - int (length bad),
                 sc_latencies = latency_rows (latencies (take (length truth) cmds)),
                 sc_symbols = map (\<lambda>(t, l). (t, take 3 (sort l))) syms\<rparr>))))"

definition eval_main :: "string \<Rightarrow> int list \<Rightarrow> score py_result option" where
  "eval_main sim_text pcap = (case sim_results sim_text of
       Inl e \<Rightarrow> Some (Inl e)
     | Inr (hdrs, cmds) \<Rightarrow> (case eval_pcap_frames pcap of
         None \<Rightarrow> None
       | Some frames \<Rightarrow> Some (score_of hdrs cmds frames
           (map (\<lambda>(off, incl). record_payload pcap off incl) (pcap_spans (pcap_swapped pcap) pcap 24)))))"

section \<open>When a command matches its message\<close>

definition has_order :: "int list \<Rightarrow> bool" where
  "has_order m \<longleftrightarrow> m ! 1 \<in> {0x21, 0x22, 0x2F, 0x23, 0x24}"

definition qty_size :: "int list \<Rightarrow> nat option" where
  "qty_size m = (if m ! 1 \<in> {0x21, 0x2F} then Some 4 else if m ! 1 = 0x22 then Some 2 else None)"

definition matches :: "int list \<Rightarrow> int list \<Rightarrow> bool" where
  "matches w m \<longleftrightarrow> w ! 0 = ENUM_type (m ! 1) \<and>
     (has_order m \<longrightarrow> w ! 2 = from_le (py_slice 6 14 m)) \<and>
     (\<forall>n. qty_size m = Some n \<longrightarrow> w ! 3 = from_le (py_slice 15 (15 + n) m))"

text \<open>A message with its fields in place.\<close>

definition scorable :: "int list \<Rightarrow> bool" where
  "scorable m \<longleftrightarrow> is_bytes m \<and> 2 \<le> length m \<and> (has_order m \<longrightarrow> 14 \<le> length m) \<and>
     (\<forall>n. qty_size m = Some n \<longrightarrow> 15 + n \<le> length m)"

definition command_words :: "int list \<Rightarrow> bool" where
  "command_words w \<longleftrightarrow> length w = 16 \<and> list_all word_range w"

lemma latin1_inj: "is_bytes xs \<Longrightarrow> is_bytes ys \<Longrightarrow> latin1 xs = latin1 ys \<longleftrightarrow> xs = ys"
proof
  assume b: "is_bytes xs" "is_bytes ys" and eq: "latin1 xs = latin1 ys"
  have codes: "map (\<lambda>c. int (of_char c)) (latin1 zs) = zs" if "is_bytes zs" for zs
    using that by (induction zs) (auto simp: latin1_def is_byte_def)
  show "xs = ys" by (metis codes b eq)
qed simp

lemma score_s8_word: "word_range x \<Longrightarrow> score_s8 x = Inr (latin1 (to_le 8 x))"
  by (simp add: score_s8_def le_bytes8_def word_range_def)

lemma to_le_slice:
  assumes "word_range x" "is_bytes bs" "length bs = 8"
  shows "to_le 8 x = bs \<longleftrightarrow> x = from_le bs"
proof
  assume "to_le 8 x = bs"
  moreover have "from_le (to_le 8 x) = x"
    using assms(1) by (intro from_le_to_le) (simp_all add: word_range_def)
  ultimately show "x = from_le bs" by simp
next
  assume "x = from_le bs"
  then show "to_le 8 x = bs" using to_le_from_le [OF assms(2)] assms(3) by simp
qed

lemma expect_scorable:
  assumes "scorable m"
  obtains e where "expect m = Inr e" "ex_type e = ENUM_type (m ! 1)" "ex_pitch e = m ! 1"
    "ex_orderId e = (if has_order m then Some (latin1 (py_slice 6 14 m)) else None)"
    "ex_qty e = map_option (\<lambda>n. from_le (py_slice 15 (15 + n) m)) (qty_size m)"
proof -
  have t: "py_index m 1 = Inr (m ! 1)" using assms py_index_nat [of 1 m] by (simp add: scorable_def)
  have q: "expected_qty (m ! 1) m = Inr (map_option (\<lambda>n. from_le (py_slice 15 (15 + n) m)) (qty_size m))"
    using assms by (auto simp: expected_qty_def qty_size_def unpack_le_def length_py_slice scorable_def)
  obtain sym where "expect m = Inr \<lparr>ex_type = ENUM_type (m ! 1), ex_pitch = m ! 1,
      ex_orderId = (if has_order m then Some (latin1 (py_slice 6 14 m)) else None),
      ex_qty = map_option (\<lambda>n. from_le (py_slice 15 (15 + n) m)) (qty_size m), ex_symbol = sym\<rparr>"
    unfolding expect_def t q has_order_def bind_result_simps by blast
  then show ?thesis by (rule that) simp_all
qed

lemma diff_matches:
  assumes w: "command_words w" and m: "scorable m" and e: "expect m = Inr e"
  shows "\<exists>d. diff_of w e = Inr d \<and> (d = [] \<longleftrightarrow> matches w m)"
proof -
  obtain e' where e': "expect m = Inr e'" "ex_type e' = ENUM_type (m ! 1)" "ex_pitch e' = m ! 1"
    "ex_orderId e' = (if has_order m then Some (latin1 (py_slice 6 14 m)) else None)"
    "ex_qty e' = map_option (\<lambda>n. from_le (py_slice 15 (15 + n) m)) (qty_size m)"
    by (rule expect_scorable [OF m])
  have "e' = e" using e e'(1) by simp
  note e' = e'(2-5) [unfolded this]
  have w2: "word_range (w ! 2)" using w by (simp add: command_words_def list_all_length)
  have b: "is_bytes (py_slice 6 14 m)" using m by (simp add: scorable_def py_slice_def)
  have le: "to_le 8 (w ! 2) = py_slice 6 14 m \<longleftrightarrow> w ! 2 = from_le (py_slice 6 14 m)" if "has_order m"
    by (rule to_le_slice [OF w2 b]) (use that m in \<open>auto simp: scorable_def length_py_slice\<close>)
  have "latin1 (to_le 8 (w ! 2)) = latin1 (py_slice 6 14 m) \<longleftrightarrow> w ! 2 = from_le (py_slice 6 14 m)" if "has_order m"
    using le [OF that] latin1_inj [OF _ b] by simp
  then show ?thesis
    by (cases "qty_size m"; cases "has_order m")
      (simp_all add: diff_of_def e' score_s8_word [OF w2] differ_def matches_def)
qed

lemma compare_matches:
  "list_all command_words ws \<Longrightarrow> list_all (\<lambda>(f, m). scorable m) truth \<Longrightarrow>
   \<exists>bad. compare_from i ws truth = Inr bad \<and>
     map fst bad = map (\<lambda>j. i + j + 1) (filter (\<lambda>j. \<not> matches (ws ! j) (snd (truth ! j))) [0..<min (length ws) (length truth)])"
proof (induction i ws truth rule: compare_from.induct)
  case (1 i w ws f m truth)
  then have "scorable m" by simp
  then obtain e where e: "expect m = Inr e" by (rule expect_scorable)
  obtain d where d: "diff_of w e = Inr d" "d = [] \<longleftrightarrow> matches w m"
    using diff_matches [OF _ _ e] "1.prems" by auto
  obtain bad where bad: "compare_from (i + 1) ws truth = Inr bad"
    "map fst bad = map (\<lambda>j. i + 1 + j + 1) (filter (\<lambda>j. \<not> matches (ws ! j) (snd (truth ! j))) [0..<min (length ws) (length truth)])"
    using "1.IH" "1.prems" by auto
  have up: "[0..<min (length (w # ws)) (length ((f, m) # truth))] = 0 # map Suc [0..<min (length ws) (length truth)]"
    by (simp add: map_Suc_upt upt_conv_Cons del: upt_Suc)
  show ?case unfolding up using bad d e
    by (simp add: filter_map comp_def)
qed simp_all

lemma add_symbols_total:
  "list_all command_words ws \<Longrightarrow> list_all (\<lambda>(f, m). scorable m) truth \<Longrightarrow> \<exists>d'. add_symbols d ws truth = Inr d'"
proof (induction d ws truth rule: add_symbols.induct)
  case (1 d w ws f m truth)
  then have "scorable m" by simp
  then obtain e where e: "expect m = Inr e" by (rule expect_scorable)
  have "command_words w" using "1.prems"(1) by simp
  then have "word_range (w ! 4)" by (simp add: command_words_def list_all_length)
  then have "score_s8 (w ! 4) = Inr (latin1 (to_le 8 (w ! 4)))" by (rule score_s8_word)
  then show ?case using "1.IH" "1.prems" by (simp add: e)
qed simp_all

section \<open>Properties\<close>

lemma truth_scorable:
  "list_all (\<lambda>(plen, ms). list_all scorable ms) frames \<Longrightarrow> list_all (\<lambda>(f, m). scorable m) (truth_list frames)"
  by (auto simp: truth_list_def list_all_iff dest!: set_zip_rightD)

lemma frames_by_seq_total:
  "list_all (\<lambda>p. 8 \<le> length p) ps \<Longrightarrow> \<exists>d'. frames_by_seq f ps d = Inr d'"
  by (induction f ps d rule: frames_by_seq.induct) (auto simp: unpack_le_def length_py_slice)

lemma resync_words: "list_all command_words cmds \<Longrightarrow> list_all command_words (resync cmds)"
  by (auto simp: resync_def list_all_iff split: option.splits dest: in_set_dropD)

lemma count_split: "length (filter P xs) + length (filter (\<lambda>x. \<not> P x) xs) = length xs"
  by (rule sum_length_filter_compl)

text \<open>C11. The score is right: for complete commands, messages with their fields in place and payloads of at
  least eight bytes, main of eval_sim.py returns; it lists as mismatches exactly the positions, counted
  from one, at which the command differs from the message in type, order id or quantity; and the figure
  it prints as matching is the number of commands that match their message plus the number of commands
  beyond the last message, which are compared with nothing.\<close>
theorem score_mismatches:
  assumes "list_all command_words cmds0" and "list_all (\<lambda>(plen, ms). list_all scorable ms) frames"
    and "list_all (\<lambda>p. 8 \<le> length p) payloads"
  defines "cmds \<equiv> resync cmds0" and "truth \<equiv> truth_list frames"
  defines "common \<equiv> [0..<min (length cmds) (length truth)]"
  shows "\<exists>sc. score_of hdrs cmds0 frames payloads = Inr sc \<and>
    map fst (sc_bad sc) = map Suc (filter (\<lambda>j. \<not> matches (cmds ! j) (snd (truth ! j))) common) \<and>
    sc_matching sc = int (length (filter (\<lambda>j. matches (cmds ! j) (snd (truth ! j))) common)) +
      int (length cmds - length truth)"
proof -
  have cmds: "list_all command_words cmds" using assms(1) by (simp add: cmds_def resync_words)
  have truth: "list_all (\<lambda>(f, m). scorable m) truth" using assms(2) by (simp add: truth_def truth_scorable)
  obtain bad where bad: "compare_from 0 cmds truth = Inr bad"
    "map fst bad = map (\<lambda>j. 0 + j + 1) (filter (\<lambda>j. \<not> matches (cmds ! j) (snd (truth ! j))) common)"
    using compare_matches [OF cmds truth, of 0] by (auto simp: common_def)
  have "list_all command_words (take (length truth) cmds)" using cmds by (auto simp: list_all_iff dest: in_set_takeD)
  then obtain syms where syms: "add_symbols [] (take (length truth) cmds) truth = Inr syms"
    using add_symbols_total [OF _ truth] by blast
  obtain by_seq where by_seq: "frames_by_seq 0 payloads [] = Inr by_seq"
    using frames_by_seq_total [OF assms(3)] by blast
  have "length bad = length (filter (\<lambda>j. \<not> matches (cmds ! j) (snd (truth ! j))) common)"
    using arg_cong [OF bad(2), of length] by simp
  moreover have "length common = min (length cmds) (length truth)" by (simp add: common_def)
  ultimately have "int (length cmds) - int (length bad) =
      int (length (filter (\<lambda>j. matches (cmds ! j) (snd (truth ! j))) common)) + int (length cmds - length truth)"
    using count_split [of "\<lambda>j. matches (cmds ! j) (snd (truth ! j))" common] by linarith
  then show ?thesis using bad syms by_seq
    by (simp add: score_of_def Let_def flip: cmds_def truth_def)
qed

text \<open>Stale records are skipped: commands left over from before the reset change nothing, as long as
  none of them carries the sequence number one; the score is that of the run that starts with the
  first command after the reset.\<close>
theorem resync_skips_stale:
  assumes "list_all (\<lambda>w. \<not> in_sync w) stale" and "in_sync w"
  shows "score_of hdrs (stale @ w # ws) frames payloads = score_of hdrs (w # ws) frames payloads"
proof -
  have "resync_at (stale @ w # ws) = Some (length stale)"
    using assms by (auto simp: resync_at_def find_Some_iff nth_append list_all_length intro!: exI [of _ "length stale"])
  moreover have "resync_at (w # ws) = Some 0"
    using assms(2) by (simp add: resync_at_def upt_conv_Cons del: upt_Suc)
  ultimately have "resync (stale @ w # ws) = resync (w # ws)" by (simp add: resync_def)
  then show ?thesis by (simp add: score_of_def)
qed

text \<open>A complete command record of a given type, order id, quantity and sequence number, for the examples.\<close>

definition example_cmd :: "int \<Rightarrow> int \<Rightarrow> int \<Rightarrow> int \<Rightarrow> int list" where
  "example_cmd ty oid qty sq = [ty, 0, oid, qty, 0, 0, 0, 0, 0, 0, 0, 0, sq, 100, 103, 0xDEADBEEF]"

theorem score_mismatches_witness:
  "\<exists>sc. score_of [] [example_cmd 1 0x0807060504030201 9 1, example_cmd 1 0 9 2, example_cmd 0 0 0 3]
      [(27, [[19, 0x2F, 0, 0, 0, 0, 1, 2, 3, 4, 5, 6, 7, 8, 66, 9, 0, 0, 0], [6, 0x20, 0, 0, 0, 0]])] [replicate 33 0] = Inr sc \<and>
    map fst (sc_bad sc) = [2] \<and> sc_matching sc = 2"
proof -
  let ?cmds = "[example_cmd 1 0x0807060504030201 9 1, example_cmd 1 0 9 2, example_cmd 0 0 0 3]"
  let ?frames = "[(27, [[19, 0x2F, 0, 0, 0, 0, 1, 2, 3, 4, 5, 6, 7, 8, 66, 9, 0, 0, 0], [6, 0x20, 0, 0, 0, 0]])] :: (nat \<times> int list list) list"
  have sync: "resync ?cmds = ?cmds" by code_simp
  have "list_all command_words ?cmds" by code_simp
  moreover have "list_all (\<lambda>(plen, ms). list_all scorable ms) ?frames"
    by (simp add: scorable_def has_order_def qty_size_def is_byte_def)
  moreover have "list_all (\<lambda>p. 8 \<le> length p) [replicate 33 (0::int)]" by simp
  ultimately have "\<exists>sc. score_of [] ?cmds ?frames [replicate 33 0] = Inr sc \<and>
     map fst (sc_bad sc) = map Suc (filter (\<lambda>j. \<not> matches (resync ?cmds ! j) (snd (truth_list ?frames ! j)))
        [0..<min (length (resync ?cmds)) (length (truth_list ?frames))]) \<and>
     sc_matching sc = int (length (filter (\<lambda>j. matches (resync ?cmds ! j) (snd (truth_list ?frames ! j)))
        [0..<min (length (resync ?cmds)) (length (truth_list ?frames))])) + int (length (resync ?cmds) - length (truth_list ?frames))"
    by (rule score_mismatches)
  moreover have "truth_list ?frames = [(0, [19, 0x2F, 0, 0, 0, 0, 1, 2, 3, 4, 5, 6, 7, 8, 66, 9, 0, 0, 0]), (0, [6, 0x20, 0, 0, 0, 0])]"
    by (simp add: truth_list_def)
  moreover have "[0..<2] = [0, 1::nat]" by (simp add: upt_rec)
  ultimately show ?thesis unfolding sync
    by (simp add: matches_def example_cmd_def ENUM_type_def has_order_def qty_size_def py_slice_def numeral_2_eq_2)
qed

theorem resync_skips_stale_witness:
  "score_of [] ([example_cmd 1 5 5 77] @ example_cmd 1 7 9 1 # []) [] [] = score_of [] (example_cmd 1 7 9 1 # []) [] []"
  by (rule resync_skips_stale) (simp_all add: example_cmd_def in_sync_def)

end
