(* ===== verification/Sim_Pass.thy ===== *)
theory Sim_Pass
  imports Sim_Score Replay_Check
begin

text \<open>
  A correct run scores full marks: the simulator's text, the reader of \<open>eval_sim.py\<close>, its reader of the
  capture file and its scoring together.
\<close>

section \<open>The capture file\<close>

definition unit_messages :: "capture \<Rightarrow> int list list" where
  "unit_messages u = (case u of (eth, hdr, ms) \<Rightarrow> ms)"

lemma collect_captured_slices:
  assumes "list_all (\<lambda>(stamp, u). wf_capture u \<and> length stamp = 8) us"
    and "d = pre @ concat (map (\<lambda>(stamp, u). pcap_record stamp (frame_of u)) us) @ rest"
  defines "spans \<equiv> spans_of (length pre) (map (\<lambda>(stamp, u). (stamp, frame_of u)) us)"
  shows "collect_slices d spans = Some (map (\<lambda>(stamp, u). (length (payload_of u), unit_messages u)) us) \<and>
    map (\<lambda>(off, incl). record_payload d off incl) spans = map (payload_of \<circ> snd) us"
  using assms(1,2) unfolding spans_def
proof (induction us arbitrary: pre)
  case Nil
  then show ?case by simp
next
  case (Cons r us)
  obtain stamp eth hdr ms where r: "r = (stamp, eth, hdr, ms)" by (cases r)
  have len: "length stamp = 8" "length eth = 42" "length hdr = 8" "list_all walkable ms"
    using Cons.prems(1) by (simp_all add: r wf_capture_def wf_unit_def wf_msg_walkable)
  let ?f = "eth @ hdr @ concat ms"
  have pay: "record_payload d (length pre) (length ?f) = hdr @ concat ms"
    using Cons.prems(2) len by (simp add: r record_payload_def py_slice_def pcap_record_def frame_of_def)
  have "msg_slices (hdr @ concat ms) 8 [] = Some ms"
    using msg_slices_walk [OF len(4) refl, of hdr "[]"] len(3) by simp
  moreover have next_off: "length pre + 16 + length ?f = length (pre @ pcap_record stamp ?f)"
    using len by (simp add: pcap_record_def)
  have "collect_slices d (spans_of (length pre + 16 + length ?f) (map (\<lambda>(stamp, u). (stamp, frame_of u)) us)) =
      Some (map (\<lambda>(stamp, u). (length (payload_of u), unit_messages u)) us) \<and>
    map (\<lambda>(off, incl). record_payload d off incl)
      (spans_of (length pre + 16 + length ?f) (map (\<lambda>(stamp, u). (stamp, frame_of u)) us)) = map (payload_of \<circ> snd) us"
    unfolding next_off by (rule Cons.IH) (use Cons.prems r in \<open>simp_all add: frame_of_def\<close>)
  moreover have "frame_of (eth, hdr, ms) = ?f" "payload_of (eth, hdr, ms) = hdr @ concat ms" "unit_messages (eth, hdr, ms) = ms"
    by (simp_all add: frame_of_def payload_of_def unit_messages_def)
  ultimately show ?case by (simp add: r pay del: length_append)
qed

section \<open>Headers\<close>

definition unit_seq :: "capture \<Rightarrow> int" where
  "unit_seq u = from_le (py_slice 4 8 (payload_of u))"

definition unit_header :: "capture \<Rightarrow> debug_record" where
  "unit_header u = RHdr (int (length (payload_of u))) (from_be (take 8 (payload_of u)))"

definition is_hdr :: "debug_record \<Rightarrow> bool" where
  "is_hdr r = (case r of RHdr l w \<Rightarrow> True | _ \<Rightarrow> False)"

lemma low_half:
  assumes "0 \<le> l" "l < (2 ^ 16 :: int)"
  shows "(push_bit 32 0xDE + l) AND 0xFFFF = l"
proof -
  have "(0xDE * 2 ^ 16 * 2 ^ 16 + l) mod 2 ^ 16 = l mod 2 ^ 16" by (rule mod_mult_self3)
  then have "(push_bit 32 0xDE + l) AND mask 16 = l"
    using assms unfolding push_bit_eq_mult take_bit_eq_mask [symmetric] take_bit_eq_mod by simp
  then show ?thesis by (simp add: mask_eq_exp_minus_1)
qed

lemma payload_short: "wf_capture u \<Longrightarrow> length (payload_of u) < 2 ^ 16"
proof -
  assume "wf_capture u"
  then obtain eth hdr ms where u: "u = (eth, hdr, ms)" "wf_unit hdr ms" by (cases u) (auto simp: wf_capture_def)
  then have "from_le (take 2 hdr) = int (length (payload_of u))" by (simp add: wf_unit_def payload_of_def)
  moreover have "is_bytes (take 2 hdr)" "length (take 2 hdr) = 2" using u(2) by (simp_all add: wf_unit_def)
  ultimately show ?thesis using from_le_range [of "take 2 hdr"] by simp
qed

lemma hdr_of_unit:
  assumes "wf_capture u"
  shows "hdr_of (debug_words (unit_header u)) = (int (length (payload_of u)), unit_seq u)"
proof -
  obtain eth hdr ms where u: "u = (eth, hdr, ms)" by (cases u)
  have hdr: "is_bytes hdr" "length hdr = 8" using assms(1) by (simp_all add: u wf_capture_def wf_unit_def)
  have "to_be 8 (from_be hdr) = hdr" using to_be_from_be [OF hdr(1)] hdr(2) by simp
  then show ?thesis using low_half [of "int (length (payload_of u))"] payload_short [OF assms] hdr(2)
    by (simp add: hdr_of_def debug_words_def unit_header_def unit_seq_def u payload_of_def py_slice_def)
qed

lemma header_words_iff: "unmistakable r \<Longrightarrow> header_words (debug_words r) \<longleftrightarrow> is_hdr r"
proof (cases r)
  case (RHdr l w)
  assume "unmistakable r"
  then show ?thesis using header_word(1) [of l] by (simp add: RHdr unmistakable_def header_words_def debug_words_def is_hdr_def)
qed (simp_all add: header_words_def debug_words_def is_hdr_def unmistakable_def)

lemma header_records:
  "list_all unmistakable rs \<Longrightarrow> filter header_words (map debug_words rs) = map debug_words (filter is_hdr rs)"
  by (induction rs) (simp_all add: header_words_iff)

lemma seen_lengths_first: "seen_lengths hdrs = map_of (map (\<lambda>(ln, sq). (sq, ln)) hdrs)"
proof -
  have "foldl (\<lambda>m (ln, sq). if m sq = None then m(sq \<mapsto> ln) else m) m hdrs = map_of (map (\<lambda>(ln, sq). (sq, ln)) hdrs) ++ m"
    for m :: "int \<rightharpoonup> int"
  proof (induction hdrs arbitrary: m)
    case (Cons h hdrs)
    obtain ln sq where h: "h = (ln, sq)" by (cases h)
    show ?case
      by (auto simp: h Cons map_add_def fun_eq_iff split: option.splits)
  qed simp
  from this [of Map.empty] show ?thesis by (simp add: seen_lengths_def)
qed



lemma frames_by_seq_distinct:
  "list_all (\<lambda>p. 8 \<le> length p) ps \<Longrightarrow> distinct (map (\<lambda>p. from_le (py_slice 4 8 p)) ps) \<Longrightarrow>
   fst ` set d \<inter> (\<lambda>p. from_le (py_slice 4 8 p)) ` set ps = {} \<Longrightarrow>
   frames_by_seq f ps d = Inr (d @ map (\<lambda>(i, p). (from_le (py_slice 4 8 p), i, length p)) (zip [f..<f + length ps] ps))"
proof (induction f ps d rule: frames_by_seq.induct)
  case (2 f p ps d)
  have "unpack_le 4 (py_slice 4 8 p) = Inr (from_le (py_slice 4 8 p))"
    using "2.prems"(1) by (auto simp: unpack_le_def length_py_slice)
  moreover have "AList.update (from_le (py_slice 4 8 p)) (f, length p) d = d @ [(from_le (py_slice 4 8 p), f, length p)]"
    by (rule update_new) (use "2.prems"(3) in auto)
  moreover have "[f..<f + length (p # ps)] = f # [Suc f..<Suc f + length ps]" by (simp add: upt_conv_Cons del: upt_Suc)
  moreover have "fst ` set (d @ [(from_le (py_slice 4 8 p), f, length p)]) \<inter> (\<lambda>p. from_le (py_slice 4 8 p)) ` set ps = {}"
    using "2.prems"(2,3) by auto
  moreover note "2.IH" [of "from_le (py_slice 4 8 p)"]
  ultimately show ?case using "2.prems"(1,2) by (simp del: upt_Suc)
qed simp

section \<open>The whole score\<close>

lemma compare_perfect:
  "list_all command_words ws \<Longrightarrow> list_all (\<lambda>(f, m). scorable m) truth \<Longrightarrow> list_all2 matches ws (map snd truth) \<Longrightarrow>
   compare_from i ws truth = Inr []"
proof -
  assume ok: "list_all command_words ws" "list_all (\<lambda>(f, m). scorable m) truth" "list_all2 matches ws (map snd truth)"
  from compare_matches [OF ok(1,2), of i] obtain bad where bad: "compare_from i ws truth = Inr bad"
    "map fst bad = map (\<lambda>j. i + j + 1) (filter (\<lambda>j. \<not> matches (ws ! j) (snd (truth ! j))) [0..<min (length ws) (length truth)])"
    by blast
  have "matches (ws ! j) (snd (truth ! j))" if "j < min (length ws) (length truth)" for j
    using list_all2_nthD [OF ok(3), of j] that by simp
  then have "filter (\<lambda>j. \<not> matches (ws ! j) (snd (truth ! j))) [0..<min (length ws) (length truth)] = []"
    by (auto simp: filter_empty_conv)
  then show ?thesis using bad by simp
qed

lemma resync_first: "cmds \<noteq> [] \<longrightarrow> in_sync (hd cmds) \<Longrightarrow> resync cmds = cmds"
  by (cases cmds) (simp_all add: resync_def resync_at_def upt_conv_Cons del: upt_Suc)

lemma truth_list_messages: "map snd (truth_list frames) = concat (map snd frames)"
proof -
  have "concat (map (\<lambda>(f, plen, ms). ms) (zip [k..<k + length frames] frames)) = concat (map snd frames)" for k
  proof (induction frames arbitrary: k)
    case (Cons fr frames)
    then show ?case using Cons [of "Suc k"] by (cases fr) (simp add: upt_conv_Cons del: upt_Suc)
  qed simp
  from this [of 0] show ?thesis
    by (simp add: truth_list_def map_concat comp_def split_def)
qed

text \<open>The records of a correct run: every unit's header once, in order, and a matching command per message.\<close>

definition run_correct :: "capture list \<Rightarrow> debug_record list \<Rightarrow> int list list \<Rightarrow> bool" where
  "run_correct us rs cmds \<longleftrightarrow> list_all unmistakable rs \<and> filter is_hdr rs = map unit_header us \<and>
     list_all command_words cmds \<and> list_all2 matches cmds (concat (map unit_messages us)) \<and>
     (cmds \<noteq> [] \<longrightarrow> in_sync (hd cmds))"

lemma score_correct:
  assumes us: "list_all wf_capture us" "list_all (\<lambda>u. list_all scorable (unit_messages u)) us"
    and seqs: "distinct (map unit_seq us)"
    and run: "run_correct us rs cmds"
  shows "\<exists>sc. score_of (map hdr_of (filter header_words (map debug_words rs))) cmds
      (map (\<lambda>u. (length (payload_of u), unit_messages u)) us) (map payload_of us) = Inr sc \<and>
    sc_hdr_ok sc = length us \<and> sc_hdr_bad sc = [] \<and> sc_hdr_missing sc = [] \<and>
    sc_bad sc = [] \<and> sc_matching sc = int (length (concat (map unit_messages us))) \<and> sc_cmds sc = sc_truth sc"
proof -
  let ?frames = "map (\<lambda>u. (length (payload_of u), unit_messages u)) us" and ?ps = "map payload_of us"
  let ?hdrs = "map hdr_of (filter header_words (map debug_words rs))"
  have r: "list_all unmistakable rs" "filter is_hdr rs = map unit_header us" "list_all command_words cmds"
    "list_all2 matches cmds (concat (map unit_messages us))" "resync cmds = cmds"
    using run resync_first [of cmds] by (simp_all add: run_correct_def)
  have hdrs: "?hdrs = map (\<lambda>u. (int (length (payload_of u)), unit_seq u)) us"
    using us(1) header_records [OF r(1)] r(2) hdr_of_unit by (simp add: list_all_iff)
  have long: "list_all (\<lambda>p. 8 \<le> length p) ?ps"
    using us(1) by (auto simp: list_all_iff payload_of_def wf_capture_def wf_unit_def)
  define by_seq where "by_seq = map (\<lambda>(i, p). (from_le (py_slice 4 8 p), i, length p)) (zip [0..<length us] ?ps)"
  have by_seq: "frames_by_seq 0 ?ps [] = Inr by_seq"
    using frames_by_seq_distinct [OF long, of "[]" 0] seqs [unfolded unit_seq_def [abs_def]]
    by (simp add: by_seq_def comp_def)
  have seen: "seen_lengths ?hdrs sq = Some (int plen)" if "(sq, f, plen) \<in> set by_seq" for sq f plen
  proof -
have "\<exists>u \<in> set us. sq = from_le (py_slice 4 8 (payload_of u)) \<and> plen = length (payload_of u)"
      using that by (auto simp: by_seq_def dest!: set_zip_rightD)
    then obtain u where u: "u \<in> set us" "sq = unit_seq u" "plen = length (payload_of u)"
      unfolding unit_seq_def by blast

    have "distinct (map fst (map (\<lambda>(ln, sq). (sq, ln)) (map (\<lambda>u. (int (length (payload_of u)), unit_seq u)) us)))"
      using seqs by (simp add: comp_def)
    moreover have "(sq, int plen) \<in> set (map (\<lambda>(ln, sq). (sq, ln)) (map (\<lambda>u. (int (length (payload_of u)), unit_seq u)) us))"
      using u by force
    ultimately show ?thesis unfolding seen_lengths_first hdrs by (rule map_of_is_SomeI)
  qed
  have truth: "map snd (truth_list ?frames) = concat (map unit_messages us)"
    by (simp add: truth_list_messages comp_def)
  have len: "length (truth_list ?frames) = length (concat (map unit_messages us))" "length cmds = length (truth_list ?frames)"
    using arg_cong [OF truth, of length] list_all2_lengthD [OF r(4)] by simp_all
  have ok: "list_all (\<lambda>(f, m). scorable m) (truth_list ?frames)"
    by (rule truth_scorable) (use us(2) in \<open>simp add: list_all_iff\<close>)
  have bad: "compare_from 0 cmds (truth_list ?frames) = Inr []"
    by (rule compare_perfect [OF r(3) ok]) (simp only: truth r(4))
  obtain syms where syms: "add_symbols [] cmds (truth_list ?frames) = Inr syms"
    using add_symbols_total [OF r(3) ok] by blast
  have "filter (\<lambda>(sq, f, plen). seen_lengths ?hdrs sq = Some (int plen)) by_seq = by_seq"
    by (rule filter_True) (auto simp: seen)
  moreover have "length by_seq = length us" by (simp add: by_seq_def)
  moreover have "List.map_filter (\<lambda>(sq, f, plen). case seen_lengths ?hdrs sq of
       Some ln \<Rightarrow> if ln \<noteq> int plen then Some (f + 1, ln, plen) else None | None \<Rightarrow> None) by_seq = []"
    "List.map_filter (\<lambda>(sq, f, plen). if seen_lengths ?hdrs sq = None then Some (f + 1) else None) by_seq = []"
    by (auto simp: List.map_filter_def filter_empty_conv seen)
  ultimately show ?thesis
    using bad syms by_seq len by (simp add: score_of_def Let_def r(5))
qed

text \<open>C7. A correct run scores full marks, from text to score: for a capture file of well-formed units with
  different sequence numbers, and a simulator output whose DEBUG stream carries every unit's header
  record and whose CMD stream carries, from the first sequence number on, one command per message that
  agrees with it, main of eval_sim.py returns and reports every frame's length as right, none wrong or
  missing, no mismatch, and as many matching records as there are messages.\<close>
theorem correct_run_passes:
  assumes "list_all (\<lambda>(stamp, u). wf_capture u \<and> length stamp = 8 \<and> length (frame_of u) < 2 ^ 32) us"
    and "length hdr = 20" and "length rest < 16"
    and "list_all (\<lambda>(stamp, u). list_all scorable (unit_messages u)) us" and "distinct (map (unit_seq \<circ> snd) us)"
    and "list_all sim_event_ok evs" and "records_from [] (beats_on ''DEBUG'' evs) = map debug_words rs"
    and "records_from [] (beats_on ''CMD'' evs) = cmds" and "run_correct (map snd us) rs cmds"
  shows "\<exists>sc. eval_main (sim_output evs) (pcap_file hdr (map (\<lambda>(stamp, u). (stamp, frame_of u)) us) @ rest) = Some (Inr sc) \<and>
    sc_hdr_ok sc = length us \<and> sc_hdr_bad sc = [] \<and> sc_hdr_missing sc = [] \<and>
    sc_bad sc = [] \<and> sc_matching sc = int (length (concat (map (unit_messages \<circ> snd) us))) \<and> sc_cmds sc = sc_truth sc"
proof -
  let ?recs = "map (\<lambda>(stamp, u). (stamp, frame_of u)) us"
  define d where "d = pcap_file hdr ?recs @ rest"
  have wf: "wf_pcap hdr ?recs" using assms(1,2) by (auto simp: wf_pcap_def list_all_iff)
  have caps: "list_all (\<lambda>(stamp, u). wf_capture u \<and> length stamp = 8) us" using assms(1) by (auto simp: list_all_iff)
  have "d = ([0xd4, 0xc3, 0xb2, 0xa1] @ hdr) @ concat (map (\<lambda>(stamp, u). pcap_record stamp (frame_of u)) us) @ rest"
    by (simp add: d_def pcap_file_def comp_def split_def)
  note slices = collect_captured_slices [OF caps this]
  have spans: "pcap_spans (pcap_swapped d) d 24 = spans_of 24 ?recs"
    using pcap_file_spans [OF wf assms(3)] by (simp add: d_def pcap_swapped_def pcap_file_def)
  have frames: "eval_pcap_frames d = Some (map (\<lambda>u. (length (payload_of u), unit_messages u)) (map snd us))"
    using slices assms(2) by (simp add: eval_pcap_frames_def spans comp_def split_def)
  have payloads: "map (\<lambda>(off, incl). record_payload d off incl) (pcap_spans (pcap_swapped d) d 24) = map payload_of (map snd us)"
    using slices assms(2) by (simp add: spans comp_def split_def)
  have "list_all (\<lambda>w. length w = 16) cmds" using assms(9) by (simp add: run_correct_def command_words_def list_all_iff)
  then have all: "filter (\<lambda>w. length w = 16) cmds = cmds" by (simp add: list_all_iff)
  have "\<exists>s1. fold_result sim_result_line rec_init (map event_line evs) = Inr s1 \<and>
     rs_hdrs s1 = map hdr_of (filter header_words (map debug_words rs)) \<and> rs_cmds s1 = cmds"
    using sim_results_lines [OF assms(6), of rec_init] by (simp add: rec_init_def assms(7,8) all)
  then have results: "sim_results (sim_output evs) = Inr (map hdr_of (filter header_words (map debug_words rs)), cmds)"
    by (auto simp: sim_results_def output_lines [OF assms(6)] not_board [OF assms(6)])
  have "list_all wf_capture (map snd us)" "list_all (\<lambda>u. list_all scorable (unit_messages u)) (map snd us)"
    "distinct (map unit_seq (map snd us))"
    using assms(1,4,5) by (auto simp: list_all_iff)
  from score_correct [OF this assms(9)] show ?thesis
    unfolding eval_main_def results d_def [symmetric] by (simp add: frames payloads comp_def)
qed

text \<open>The beats of a record.\<close>

definition record_beats :: "string \<Rightarrow> int list \<Rightarrow> sim_event list" where
  "record_beats kind w = map (\<lambda>(i, x). Beat kind (i + 100) i x (i + 1 = length w)) (zip [0..<length w] w)"

theorem correct_run_passes_witness:
  "let u = (replicate 42 1, [17, 0, 1, 1, 5, 0, 0, 0], [[9, 0x97, 1, 2, 3, 4, 5, 6, 7]]);
       evs = record_beats ''DEBUG'' (debug_words (unit_header u)) @ record_beats ''CMD'' (example_cmd 0 0 0 1)
   in \<exists>sc. eval_main (sim_output evs) (pcap_file (replicate 20 0) [(replicate 8 0, frame_of u)]) = Some (Inr sc) \<and>
        sc_hdr_ok sc = 1 \<and> sc_bad sc = [] \<and> sc_matching sc = 1"
proof -
  define u where "u = (replicate 42 (1::int), [17, 0, 1, 1, 5, 0, 0, 0::int], [[9, 0x97, 1, 2, 3, 4, 5, 6, 7::int]])"
  define evs where "evs = record_beats ''DEBUG'' (debug_words (unit_header u)) @ record_beats ''CMD'' (example_cmd 0 0 0 1)"
  have us: "list_all (\<lambda>(stamp, u). wf_capture u \<and> length stamp = 8 \<and> length (frame_of u) < 2 ^ 32) [(replicate 8 0, u)]"
    by (simp add: u_def wf_capture_def wf_unit_def wf_msg_def is_byte_def frame_of_def paced_def keeps_pace.simps)
  have sc: "list_all (\<lambda>(stamp, u). list_all scorable (unit_messages u)) [(replicate 8 (0::int), u)]"
    by (simp add: u_def unit_messages_def scorable_def has_order_def qty_size_def is_byte_def)
  have ok: "list_all sim_event_ok evs" unfolding evs_def u_def by code_simp
  have dbg: "records_from [] (beats_on ''DEBUG'' evs) = map debug_words [unit_header u]" unfolding evs_def u_def by code_simp
  have cmd: "records_from [] (beats_on ''CMD'' evs) = [example_cmd 0 0 0 1]" unfolding evs_def u_def by code_simp
  have "command_words (example_cmd 0 0 0 1)" "unmistakable (unit_header u)"
    by (simp_all add: command_words_def example_cmd_def word_range_def unmistakable_def unit_header_def u_def payload_of_def)
  then have "run_correct (map snd [(replicate 8 (0::int), u)]) [unit_header u] [example_cmd 0 0 0 1]"
    by (simp add: run_correct_def is_hdr_def unit_header_def u_def unit_messages_def matches_def example_cmd_def
        ENUM_type_def has_order_def qty_size_def in_sync_def)
  from correct_run_passes [OF us _ _ sc _ ok dbg cmd this, of "replicate 20 0" "[]"]
  show ?thesis unfolding Let_def u_def [symmetric] evs_def [symmetric]
    by (auto simp: u_def unit_messages_def)
qed

end
