(* ===== verification/Byte_List.thy ===== *)
theory Byte_List
  imports Py_Bytes Py_Text
begin

text \<open>
  \<open>MyList\<close> of \<open>bats_loader.py\<close> (\<open>submodules/Market.Data.Bats.Parser/ip_export\<close>), the list that carries
  message bytes to the SystemVerilog test benches and is read there as 64-bit words with byte
  enables. \<open>poc_ip.py\<close> and \<open>filter_msg_gen.py\<close> hold copies of the class. The list is always present
  (\<open>_data\<close> is only ever assigned lists); its elements are integers.
\<close>

section \<open>The code\<close>

record mylist =
  ml_data :: "int list"

definition mylist_init :: mylist where
  "mylist_init = \<lparr>ml_data = []\<rparr>"

definition get_idx :: "mylist \<Rightarrow> int \<Rightarrow> int py_result" where
  "get_idx m idx = py_index (ml_data m) idx"

text \<open>\<open>xs[i] = v\<close> with Python's negative indices; the guard only bounds the index from above.\<close>

definition py_update :: "int list \<Rightarrow> int \<Rightarrow> int \<Rightarrow> int list py_result" where
  "py_update xs i v =
     (let j = (if i < 0 then i + int (length xs) else i)
      in if 0 \<le> j \<and> j < int (length xs) then Inr (xs[nat j := v]) else Inl IndexError)"

definition set_idx :: "mylist \<Rightarrow> int \<Rightarrow> int \<Rightarrow> mylist py_result" where
  "set_idx m idx v =
     (if int (length (ml_data m)) > idx
      then bind_result (py_update (ml_data m) idx v) (\<lambda>d. Inr (m\<lparr>ml_data := d\<rparr>))
      else Inr m)"

definition ml_append :: "mylist \<Rightarrow> int \<Rightarrow> mylist" where
  "ml_append m v = m\<lparr>ml_data := ml_data m @ [v]\<rparr>"

definition append_list :: "mylist \<Rightarrow> int list \<Rightarrow> mylist" where
  "append_list m xs = m\<lparr>ml_data := ml_data m @ xs\<rparr>"

definition prepend_list :: "mylist \<Rightarrow> int list \<Rightarrow> mylist" where
  "prepend_list m xs = m\<lparr>ml_data := xs @ ml_data m\<rparr>"

definition replace_list :: "mylist \<Rightarrow> int list \<Rightarrow> mylist" where
  "replace_list m xs = m\<lparr>ml_data := xs\<rparr>"

definition get_length :: "mylist \<Rightarrow> nat" where
  "get_length m = length (ml_data m)"

definition get_num_words :: "mylist \<Rightarrow> nat" where
  "get_num_words m = length (ml_data m) div 8 + (if length (ml_data m) mod 8 > 0 then 1 else 0)"

definition is_aligned :: "mylist \<Rightarrow> bool" where
  "is_aligned m \<longleftrightarrow> length (ml_data m) mod 8 = 0"

text \<open>
  The loop over \<open>range(start, stop)\<close>. An index error reaches the handler, whose message names an
  unbound variable, so what leaves the method is a \<open>NameError\<close>.
\<close>

fun shift_in :: "int list \<Rightarrow> int list \<Rightarrow> int \<Rightarrow> int py_result" where
  "shift_in d [] w = Inr w"
| "shift_in d (i # is) w =
     bind_result (py_index d i) (\<lambda>b. shift_in d is (push_bit 8 w OR b))"

fun shift_zeros :: "nat \<Rightarrow> int \<Rightarrow> int" where
  "shift_zeros 0 w = w"
| "shift_zeros (Suc k) w = shift_zeros k (push_bit 8 w OR 0)"

definition get_word :: "mylist \<Rightarrow> int \<Rightarrow> int py_result" where
  "get_word m index =
     (let d = ml_data m;
          start_idx = index * 8;
          stop_idx = (if start_idx + 8 > int (length d) then int (length d) else start_idx + 8);
          num_zeros = 8 - (stop_idx - start_idx)
      in case shift_in d [start_idx..stop_idx - 1] 0 of
           Inl e \<Rightarrow> Inl NameError
         | Inr w \<Rightarrow> Inr (shift_zeros (nat num_zeros) w))"

definition get_byte_enables :: "mylist \<Rightarrow> int \<Rightarrow> int" where
  "get_byte_enables m index =
     (let start_idx = index * 8;
          stop_idx = (if start_idx + 8 > int (length (ml_data m)) then int (length (ml_data m)) else start_idx + 8);
          num_zeros = 8 - (stop_idx - start_idx)
      in push_bit (nat num_zeros) 0xff AND 0xff)"

definition from_array :: "mylist \<Rightarrow> int list \<Rightarrow> mylist" where
  "from_array m xs = m\<lparr>ml_data := xs\<rparr>"

definition to_array :: "mylist \<Rightarrow> int list" where
  "to_array m = ml_data m"

definition to_bytearray :: "mylist \<Rightarrow> int list py_result" where
  "to_bytearray m = (if is_bytes (ml_data m) then Inr (ml_data m) else Inl ValueError)"

text \<open>\<open>'{}{:02X}'\<close> of an element, and the joined text.\<close>

definition upper_char :: "char \<Rightarrow> char" where
  "upper_char c = (if c \<in> set ''abcdef'' then char_of (of_char c - 32 :: nat) else c)"

definition format_02X :: "int \<Rightarrow> string" where
  "format_02X x =
     (if x < 0 then ''-'' @ map upper_char (to_hex 1 (nat (- x)))
      else map upper_char (to_hex 2 (nat x)))"

definition to_str :: "mylist \<Rightarrow> bool \<Rightarrow> string" where
  "to_str m no_x =
     ''['' @ join_words (map (\<lambda>x. (if no_x then '''' else ''0x'') @ format_02X x) (ml_data m)) @ '']''"

section \<open>Reading the list as words\<close>

lemma or_byte: "is_byte b \<Longrightarrow> push_bit 8 w OR b = 256 * w + b"
proof -
  assume "is_byte b"
  then have b: "take_bit 8 b = b" by (simp add: is_byte_def take_bit_int_eq_self)
  then have "\<not> bit (push_bit 8 w) i \<or> \<not> bit b i" for i
    by (metis bit_push_bit_iff bit_take_bit_iff leD)
  then have "push_bit 8 w OR b = push_bit 8 w + b" by (simp add: disjunctive_add)
  then show ?thesis by (simp add: push_bit_eq_mult)
qed

lemma shift_zeros_mult: "shift_zeros k w = 256 ^ k * w"
  by (induction k arbitrary: w) (simp_all add: push_bit_eq_mult)

lemma shift_in_range:
  assumes "is_bytes d" and "a + n \<le> length d"
  shows "shift_in d [int a..int (a + n) - 1] w = Inr (foldl (\<lambda>x b. 256 * x + b) w (take n (drop a d)))"
  using assms
proof (induction n arbitrary: a w)
  case 0
  then show ?case by simp
next
  case (Suc n)
  then have a: "a < length d" by simp
  have range: "[int a..int (a + Suc n) - 1] = int a # [int (Suc a)..int (Suc a + n) - 1]"
    by (subst upto_rec1) (simp_all add: algebra_simps)
  have "is_byte (d ! a)" using is_bytes_nth [OF Suc.prems(1) a] .
  then show ?case
    using Suc.IH [of "Suc a" "256 * w + d ! a"] Suc.prems a
    unfolding range by (simp add: or_byte Cons_nth_drop_Suc [symmetric])
qed

lemma from_be_zeros: "from_be (xs @ replicate k 0) = 256 ^ k * from_be xs"
proof (induction k)
  case 0
  then show ?case by simp
next
  case (Suc k)
  have "xs @ replicate (Suc k) 0 = (xs @ replicate k (0::int)) @ [0]"
    by (simp add: replicate_append_same)
  then have "from_be (xs @ replicate (Suc k) 0) = 256 * from_be (xs @ replicate k 0)"
    by (simp add: from_be_def)
  then show ?case using Suc by simp
qed

definition word_chunk :: "int list \<Rightarrow> nat \<Rightarrow> int list" where
  "word_chunk d i = (let c = take 8 (drop (8 * i) d) in c @ replicate (8 - length c) 0)"

lemma length_word_chunk [simp]: "length (word_chunk d i) = 8"
  by (simp add: word_chunk_def Let_def)

lemma is_bytes_word_chunk: "is_bytes d \<Longrightarrow> is_bytes (word_chunk d i)"
  by (simp add: word_chunk_def Let_def)

lemma pad_count: "n \<le> 8 \<Longrightarrow> nat (8 - (int (a + n) - int a)) = 8 - n"
  by arith

lemma mask_top: "n \<le> 8 \<Longrightarrow> push_bit (8 - n) (mask 8) AND mask 8 = push_bit (8 - n) (mask n :: int)"
  by (rule bit_eqI) (auto simp: bit_simps)

lemma get_word_chunk:
  assumes "is_bytes (ml_data m)" and "8 * i \<le> length (ml_data m)"
  shows "get_word m (int i) = Inr (from_be (word_chunk (ml_data m) i))"
proof -
  let ?d = "ml_data m" and ?n = "min 8 (length (ml_data m) - 8 * i)"
  have stop: "(if int i * 8 + 8 > int (length ?d) then int (length ?d) else int i * 8 + 8) = int (8 * i + ?n)"
    using assms(2) by auto
  have start: "int i * 8 = int (8 * i)" by simp
  have "shift_in ?d [int (8 * i)..int (8 * i + ?n) - 1] 0 = Inr (from_be (take ?n (drop (8 * i) ?d)))"
    using shift_in_range [OF assms(1), of "8 * i" ?n 0] assms(2) by (simp add: from_be_def)
  moreover have "take ?n (drop (8 * i) ?d) = take 8 (drop (8 * i) ?d)" by (simp add: min_def)
  moreover have "nat (8 - (int (8 * i + ?n) - int (8 * i))) = 8 - length (take 8 (drop (8 * i) ?d))"
    unfolding pad_count [OF min.cobounded1] by (simp add: min.commute)
  ultimately show ?thesis
    unfolding get_word_def Let_def stop unfolding start
    by (simp add: shift_zeros_mult word_chunk_def Let_def from_be_zeros)
qed

lemma enables_chunk:
  assumes "8 * i \<le> length (ml_data m)"
  shows "get_byte_enables m (int i) =
    push_bit (8 - min 8 (length (ml_data m) - 8 * i)) (mask (min 8 (length (ml_data m) - 8 * i)))"
proof -
  let ?n = "min 8 (length (ml_data m) - 8 * i)"
  have stop: "(if int i * 8 + 8 > int (length (ml_data m)) then int (length (ml_data m)) else int i * 8 + 8) = int (8 * i + ?n)"
    using assms by auto
  have z: "nat (8 - (int (8 * i + ?n) - int i * 8)) = 8 - ?n"
    using pad_count [OF min.cobounded1, of "8 * i"] by (simp add: mult.commute)
  have m8: "(0xff::int) = mask 8" by (simp add: mask_eq_exp_minus_1)
  from mask_top [OF min.cobounded1]
  have "push_bit (8 - ?n) (mask 8) AND mask 8 = push_bit (8 - ?n) (mask ?n :: int)" .
  then show ?thesis unfolding get_byte_enables_def Let_def stop z m8 .
qed

lemma chunks_join:
  "concat (map (\<lambda>i. take 8 (drop (8 * i) d)) [0..<(length d + 7) div 8]) = d"
proof -
  have "concat (map (\<lambda>i. take 8 (drop (8 * i) d)) [0..<n]) = take (8 * n) d" for n
    by (induction n) (simp_all add: take_add [symmetric] add.commute [of 8])
  moreover have "length d \<le> 8 * ((length d + 7) div 8)" by linarith
  ultimately show ?thesis by simp
qed

lemma num_words_ceiling: "get_num_words m = (length (ml_data m) + 7) div 8"
proof -
  have "n div 8 + (if n mod 8 > 0 then 1 else 0) = (n + 7) div 8" for n :: nat
  proof (cases "n mod 8 = 0")
    case True
    then obtain k where "n = 8 * k" by (metis mod_0_imp_dvd dvdE)
    then have "(n + 7) div 8 = n div 8" by simp
    then show ?thesis using True by simp
  next
    case False
    have up: "(8 * q + r + 7) div 8 = q + 1" if "0 < r" "r < 8" for q r :: nat
      using that by (intro div_nat_eqI) simp_all
    have "(n + 7) div 8 = n div 8 + 1" using up [of "n mod 8" "n div 8"] False by simp
    then show ?thesis using False by simp
  qed
  then show ?thesis unfolding get_num_words_def .
qed

section \<open>Properties\<close>

text \<open>C32. Reading a byte list word by word loses nothing: for every index below \<open>get_num_words\<close>,
  \<open>get_word\<close> returns a 64-bit value without raising, and the bytes each word carries in its leading
  lanes, as many as \<open>get_byte_enables\<close> has bits set, joined over all words, are the list.\<close>
theorem words_rebuild_list:
  assumes "is_bytes (ml_data m)"
  shows "\<exists>ws. map (\<lambda>i. get_word m (int i)) [0..<get_num_words m] = map Inr ws \<and>
    list_all (\<lambda>w. 0 \<le> w \<and> w < 2 ^ 64) ws \<and>
    concat (map (\<lambda>(w, i). take (popcount (get_byte_enables m (int i))) (to_be 8 w))
      (zip ws [0..<get_num_words m])) = ml_data m"
proof (rule exI [of _ "map (\<lambda>i. from_be (word_chunk (ml_data m) i)) [0..<get_num_words m]"], intro conjI)
  let ?d = "ml_data m" and ?n = "get_num_words m"
  have low: "8 * i \<le> length ?d" if "i < ?n" for i
    using that unfolding num_words_ceiling by linarith
  then show "map (\<lambda>i. get_word m (int i)) [0..<?n] = map Inr (map (\<lambda>i. from_be (word_chunk ?d i)) [0..<?n])"
    using get_word_chunk [OF assms] by simp
  have range: "0 \<le> from_be (word_chunk ?d i) \<and> from_be (word_chunk ?d i) < 2 ^ 64" for i
    using from_be_range [OF is_bytes_word_chunk [OF assms], of i] by simp
  then show "list_all (\<lambda>w. 0 \<le> w \<and> w < 2 ^ 64) (map (\<lambda>i. from_be (word_chunk ?d i)) [0..<?n])"
    by (simp add: list_all_iff)
  have bytes: "to_be 8 (from_be (word_chunk ?d i)) = word_chunk ?d i" for i
    using to_be_from_be [OF is_bytes_word_chunk [OF assms], of i] by simp
  have "take (popcount (get_byte_enables m (int i))) (to_be 8 (from_be (word_chunk ?d i))) = take 8 (drop (8 * i) ?d)"
    if "i < ?n" for i
    unfolding bytes enables_chunk [OF low [OF that]] popcount_push_mask
    by (simp add: word_chunk_def Let_def min_def)
  then have "map (\<lambda>i. take (popcount (get_byte_enables m (int i))) (to_be 8 (from_be (word_chunk ?d i)))) [0..<?n] =
      map (\<lambda>i. take 8 (drop (8 * i) ?d)) [0..<?n]"
    by (intro map_cong [OF refl]) simp
  then show "concat (map (\<lambda>(w, i). take (popcount (get_byte_enables m (int i))) (to_be 8 w))
      (zip (map (\<lambda>i. from_be (word_chunk ?d i)) [0..<?n]) [0..<?n])) = ?d"
    using chunks_join [of ?d] unfolding num_words_ceiling [symmetric] zip_map1 zip_same_conv_map map_map
    by (simp only: comp_def prod.case)
qed

theorem words_rebuild_list_witness:
  "\<exists>ws. map (\<lambda>i. get_word \<lparr>ml_data = [1, 2, 3, 4, 5, 6, 7, 8, 9]\<rparr> (int i)) [0..<2] = map Inr ws"
proof -
  let ?m = "\<lparr>ml_data = [1, 2, 3, 4, 5, 6, 7, 8, 9]\<rparr>"
  have n: "get_num_words ?m = 2" by (simp add: get_num_words_def)
  have "is_bytes (ml_data ?m)" by (simp add: is_byte_def)
  from words_rebuild_list [OF this] show ?thesis unfolding n by blast
qed

text \<open>The error path of \<open>get_word\<close>: a negative index that reaches below the start of the list does
  not return a word, and does not print the intended message either; the handler itself raises a
  \<open>NameError\<close>.\<close>
theorem get_word_below_start:
  assumes "index < 0" and "int (length (ml_data m)) < - (8 * index)"
  shows "get_word m index = Inl NameError"
proof -
  have "[index * 8..index * 8 + 8 - 1] = (index * 8) # [index * 8 + 1..index * 8 + 8 - 1]"
    by (rule upto_rec1) simp
  moreover have "py_index (ml_data m) (index * 8) = Inl IndexError"
    using assms by (simp add: py_index_def)
  moreover have "\<not> index * 8 + 8 > int (length (ml_data m))" using assms(1) by simp
  ultimately show ?thesis by (simp add: get_word_def Let_def)
qed

theorem get_word_below_start_witness: "get_word \<lparr>ml_data = [1, 2, 3]\<rparr> (-1) = Inl NameError"
  by (rule get_word_below_start) simp_all

end
