(* ===== verification/Bats_Loader.thy ===== *)
theory Bats_Loader
  imports Byte_List Parser_Frames
begin

text \<open>
  The message builders of \<open>bats_loader.py\<close> (\<open>submodules/Market.Data.Bats.Parser/ip_export\<close>): each
  puts its arguments in a dictionary, passes it as JSON text to the external \<open>cboe_pitch\<close> library and
  adds the returned bytes to the caller's list, at the front when \<open>prepend is True\<close>; any exception is
  turned into the return code 1. The library is a parameter: \<open>cboe\<close> maps the function's name and the
  JSON text to its bytes or its exception, \<open>cboe_hdr\<close> the header's JSON and the message bytes to the
  bytes of the whole unit.
\<close>

section \<open>JSON text\<close>

text \<open>A float is represented by its \<open>repr\<close>, which is what \<open>json.dumps\<close> prints.\<close>

datatype py_float = PyFloat (float_repr: string)

datatype json_value = JInt int | JStr string | JFloat py_float

text \<open>\<open>ensure_ascii\<close> escaping of the characters below 256.\<close>

definition json_char :: "char \<Rightarrow> string" where
  "json_char c =
     (let n = (of_char c :: nat)
      in if n = 34 then [CHR 92, CHR 34]
         else if n = 92 then [CHR 92, CHR 92]
         else if n = 10 then CHR 92 # ''n''
         else if n = 13 then CHR 92 # ''r''
         else if n = 9 then CHR 92 # ''t''
         else if n = 12 then CHR 92 # ''f''
         else if n = 8 then CHR 92 # ''b''
         else if n < 32 \<or> 127 < n then CHR 92 # ''u'' @ to_hex 4 n
         else [c])"

definition json_string :: "string \<Rightarrow> string" where
  "json_string s = [CHR 34] @ concat (map json_char s) @ [CHR 34]"

definition int_repr :: "int \<Rightarrow> string" where
  "int_repr n = (if n < 0 then ''-'' @ to_dec (nat (- n)) else to_dec (nat n))"

fun json_item :: "json_value \<Rightarrow> string" where
  "json_item (JInt n) = int_repr n"
| "json_item (JStr s) = json_string s"
| "json_item (JFloat x) = float_repr x"

fun json_pairs :: "(string \<times> json_value) list \<Rightarrow> string" where
  "json_pairs [] = []"
| "json_pairs [(k, v)] = json_string k @ '': '' @ json_item v"
| "json_pairs ((k, v) # kv # kvs) = json_string k @ '': '' @ json_item v @ '', '' @ json_pairs (kv # kvs)"

definition json_dumps :: "(string \<times> json_value) list \<Rightarrow> string" where
  "json_dumps parms = ''{'' @ json_pairs parms @ ''}''"

section \<open>The builders\<close>

text \<open>\<open>prepend is True\<close> is an identity test: an integer 1 does not pass it.\<close>

datatype py_bit = PyBool bool | PyInt int

definition is_True :: "py_bit \<Rightarrow> bool" where
  "is_True b \<longleftrightarrow> b = PyBool True"

type_synonym pitch_library = "string \<Rightarrow> string \<Rightarrow> int list py_result"

text \<open>The part the builders have in common: call, add, or report.\<close>

definition build ::
    "pitch_library \<Rightarrow> string \<Rightarrow> (string \<times> json_value) list \<Rightarrow> mylist \<Rightarrow> py_bit \<Rightarrow> mylist \<times> int" where
  "build cboe name parms out_list prepend =
     (case cboe name (json_dumps parms) of
        Inl e \<Rightarrow> (out_list, 1)
      | Inr out_a \<Rightarrow>
          ((if is_True prepend then prepend_list out_list out_a else append_list out_list out_a), 0))"

definition get_time ::
    "pitch_library \<Rightarrow> int \<Rightarrow> mylist \<Rightarrow> py_bit \<Rightarrow> mylist \<times> int" where
  "get_time cboe sec_since_midnight out_list prepend =
     build cboe ''get_time''
       [(''Time'', JInt sec_since_midnight)] out_list prepend"

definition get_add_order_long ::
    "pitch_library \<Rightarrow> int \<Rightarrow> string \<Rightarrow> string \<Rightarrow> int \<Rightarrow> string \<Rightarrow> py_float \<Rightarrow> mylist \<Rightarrow> py_bit \<Rightarrow> mylist \<times> int" where
  "get_add_order_long cboe time_offset order_id side_indicator quantity symbol price out_list prepend =
     build cboe ''get_add_order_long''
       [(''Time Offset'', JInt time_offset), (''Order Id'', JStr order_id),
        (''Side Indicator'', JStr side_indicator), (''Quantity'', JInt quantity),
        (''Symbol'', JStr symbol), (''Price'', JFloat price)] out_list prepend"

definition get_add_order_short ::
    "pitch_library \<Rightarrow> int \<Rightarrow> string \<Rightarrow> string \<Rightarrow> int \<Rightarrow> string \<Rightarrow> py_float \<Rightarrow> mylist \<Rightarrow> py_bit \<Rightarrow> mylist \<times> int" where
  "get_add_order_short cboe time_offset order_id side_indicator quantity symbol price out_list prepend =
     build cboe ''get_add_order_short''
       [(''Time Offset'', JInt time_offset), (''Order Id'', JStr order_id),
        (''Side Indicator'', JStr side_indicator), (''Quantity'', JInt quantity),
        (''Symbol'', JStr symbol), (''Price'', JFloat price)] out_list prepend"

definition get_add_order_expanded ::
    "pitch_library \<Rightarrow> int \<Rightarrow> string \<Rightarrow> string \<Rightarrow> int \<Rightarrow> string \<Rightarrow> py_float \<Rightarrow> string \<Rightarrow> string \<Rightarrow> mylist \<Rightarrow> py_bit \<Rightarrow> mylist \<times> int" where
  "get_add_order_expanded cboe time_offset order_id side_indicator quantity symbol price customer_indicator participant_id out_list prepend =
     build cboe ''get_add_order_expanded''
       [(''Time Offset'', JInt time_offset), (''Order Id'', JStr order_id),
        (''Side Indicator'', JStr side_indicator), (''Quantity'', JInt quantity),
        (''Symbol'', JStr symbol), (''Price'', JFloat price),
        (''Customer Indicator'', JStr customer_indicator),
        (''Participant Id'', JStr participant_id)] out_list prepend"

definition get_order_executed ::
    "pitch_library \<Rightarrow> int \<Rightarrow> string \<Rightarrow> int \<Rightarrow> string \<Rightarrow> mylist \<Rightarrow> py_bit \<Rightarrow> mylist \<times> int" where
  "get_order_executed cboe time_offset order_id executed_quantity execution_id out_list prepend =
     build cboe ''get_order_executed''
       [(''Time Offset'', JInt time_offset), (''Order Id'', JStr order_id),
        (''Executed Quantity'', JInt executed_quantity),
        (''Execution Id'', JStr execution_id)] out_list prepend"

definition get_order_executed_at_price_size ::
    "pitch_library \<Rightarrow> int \<Rightarrow> string \<Rightarrow> int \<Rightarrow> int \<Rightarrow> string \<Rightarrow> py_float \<Rightarrow> mylist \<Rightarrow> py_bit \<Rightarrow> mylist \<times> int" where
  "get_order_executed_at_price_size cboe time_offset order_id executed_quantity remaining_quantity execution_id price out_list prepend =
     build cboe ''get_order_executed_at_price_size''
       [(''Time Offset'', JInt time_offset), (''Order Id'', JStr order_id),
        (''Executed Quantity'', JInt executed_quantity),
        (''Remaining Quantity'', JInt remaining_quantity),
        (''Execution Id'', JStr execution_id), (''Price'', JFloat price)] out_list prepend"

definition get_reduce_size_long ::
    "pitch_library \<Rightarrow> int \<Rightarrow> string \<Rightarrow> int \<Rightarrow> mylist \<Rightarrow> py_bit \<Rightarrow> mylist \<times> int" where
  "get_reduce_size_long cboe time_offset order_id canceled_quantity out_list prepend =
     build cboe ''get_reduce_size_long''
       [(''Time Offset'', JInt time_offset), (''Order Id'', JStr order_id),
        (''Canceled Quantity'', JInt canceled_quantity)] out_list prepend"

definition get_reduce_size_short ::
    "pitch_library \<Rightarrow> int \<Rightarrow> string \<Rightarrow> int \<Rightarrow> mylist \<Rightarrow> py_bit \<Rightarrow> mylist \<times> int" where
  "get_reduce_size_short cboe time_offset order_id canceled_quantity out_list prepend =
     build cboe ''get_reduce_size_short''
       [(''Time Offset'', JInt time_offset), (''Order Id'', JStr order_id),
        (''Canceled Quantity'', JInt canceled_quantity)] out_list prepend"

definition get_modify_order_long ::
    "pitch_library \<Rightarrow> int \<Rightarrow> string \<Rightarrow> int \<Rightarrow> py_float \<Rightarrow> mylist \<Rightarrow> py_bit \<Rightarrow> mylist \<times> int" where
  "get_modify_order_long cboe time_offset order_id quantity price out_list prepend =
     build cboe ''get_modify_order_long''
       [(''Time Offset'', JInt time_offset), (''Order Id'', JStr order_id),
        (''Quantity'', JInt quantity), (''Price'', JFloat price)] out_list prepend"

definition get_modify_order_short ::
    "pitch_library \<Rightarrow> int \<Rightarrow> string \<Rightarrow> int \<Rightarrow> py_float \<Rightarrow> mylist \<Rightarrow> py_bit \<Rightarrow> mylist \<times> int" where
  "get_modify_order_short cboe time_offset order_id quantity price out_list prepend =
     build cboe ''get_modify_order_short''
       [(''Time Offset'', JInt time_offset), (''Order Id'', JStr order_id),
        (''Quantity'', JInt quantity), (''Price'', JFloat price)] out_list prepend"

definition get_delete_order ::
    "pitch_library \<Rightarrow> int \<Rightarrow> string \<Rightarrow> mylist \<Rightarrow> py_bit \<Rightarrow> mylist \<times> int" where
  "get_delete_order cboe time_offset order_id out_list prepend =
     build cboe ''get_delete_order''
       [(''Time Offset'', JInt time_offset), (''Order Id'', JStr order_id)] out_list prepend"

definition get_trade_long ::
    "pitch_library \<Rightarrow> int \<Rightarrow> string \<Rightarrow> string \<Rightarrow> int \<Rightarrow> string \<Rightarrow> py_float \<Rightarrow> string \<Rightarrow> mylist \<Rightarrow> py_bit \<Rightarrow> mylist \<times> int" where
  "get_trade_long cboe time_offset order_id side_indicator quantity symbol price execution_id out_list prepend =
     build cboe ''get_trade_long''
       [(''Time Offset'', JInt time_offset), (''Order Id'', JStr order_id),
        (''Side Indicator'', JStr side_indicator), (''Quantity'', JInt quantity),
        (''Symbol'', JStr symbol), (''Price'', JFloat price),
        (''Execution Id'', JStr execution_id)] out_list prepend"

definition get_trade_short ::
    "pitch_library \<Rightarrow> int \<Rightarrow> string \<Rightarrow> string \<Rightarrow> int \<Rightarrow> string \<Rightarrow> py_float \<Rightarrow> string \<Rightarrow> mylist \<Rightarrow> py_bit \<Rightarrow> mylist \<times> int" where
  "get_trade_short cboe time_offset order_id side_indicator quantity symbol price execution_id out_list prepend =
     build cboe ''get_trade_short''
       [(''Time Offset'', JInt time_offset), (''Order Id'', JStr order_id),
        (''Side Indicator'', JStr side_indicator), (''Quantity'', JInt quantity),
        (''Symbol'', JStr symbol), (''Price'', JFloat price),
        (''Execution Id'', JStr execution_id)] out_list prepend"

definition get_trade_expanded ::
    "pitch_library \<Rightarrow> int \<Rightarrow> string \<Rightarrow> string \<Rightarrow> int \<Rightarrow> string \<Rightarrow> py_float \<Rightarrow> string \<Rightarrow> mylist \<Rightarrow> py_bit \<Rightarrow> mylist \<times> int" where
  "get_trade_expanded cboe time_offset order_id side_indicator quantity symbol price execution_id out_list prepend =
     build cboe ''get_trade_expanded''
       [(''Time Offset'', JInt time_offset), (''Order Id'', JStr order_id),
        (''Side Indicator'', JStr side_indicator), (''Quantity'', JInt quantity),
        (''Symbol'', JStr symbol), (''Price'', JFloat price),
        (''Execution Id'', JStr execution_id)] out_list prepend"

definition get_seq_unit_hdr ::
    "(string \<Rightarrow> int list \<Rightarrow> int list py_result) \<Rightarrow> int \<Rightarrow> int \<Rightarrow> mylist \<Rightarrow> mylist \<times> int" where
  "get_seq_unit_hdr cboe_hdr hdr_seq hdr_count msgs_array =
     (case cboe_hdr (json_dumps [(''HdrSeq'', JInt hdr_seq), (''HdrCount'', JInt hdr_count)]) (ml_data msgs_array) of
        Inl e \<Rightarrow> (msgs_array, 1)
      | Inr unit_arr \<Rightarrow> (replace_list msgs_array unit_arr, 0))"

section \<open>Calls of the builders\<close>

datatype bats_call =
    Time int
  | AddOrderLong int string string int string py_float
  | AddOrderShort int string string int string py_float
  | AddOrderExpanded int string string int string py_float string string
  | OrderExecuted int string int string
  | OrderExecutedAtPriceSize int string int int string py_float
  | ReduceSizeLong int string int
  | ReduceSizeShort int string int
  | ModifyOrderLong int string int py_float
  | ModifyOrderShort int string int py_float
  | DeleteOrder int string
  | TradeLong int string string int string py_float string
  | TradeShort int string string int string py_float string
  | TradeExpanded int string string int string py_float string

fun run_call :: "pitch_library \<Rightarrow> bats_call \<Rightarrow> mylist \<Rightarrow> py_bit \<Rightarrow> mylist \<times> int" where
  "run_call cboe (Time i1) m p = get_time cboe i1 m p"
| "run_call cboe (AddOrderLong i1 s1 s2 i2 s3 x1) m p = get_add_order_long cboe i1 s1 s2 i2 s3 x1 m p"
| "run_call cboe (AddOrderShort i1 s1 s2 i2 s3 x1) m p = get_add_order_short cboe i1 s1 s2 i2 s3 x1 m p"
| "run_call cboe (AddOrderExpanded i1 s1 s2 i2 s3 x1 s4 s5) m p = get_add_order_expanded cboe i1 s1 s2 i2 s3 x1 s4 s5 m p"
| "run_call cboe (OrderExecuted i1 s1 i2 s2) m p = get_order_executed cboe i1 s1 i2 s2 m p"
| "run_call cboe (OrderExecutedAtPriceSize i1 s1 i2 i3 s2 x1) m p = get_order_executed_at_price_size cboe i1 s1 i2 i3 s2 x1 m p"
| "run_call cboe (ReduceSizeLong i1 s1 i2) m p = get_reduce_size_long cboe i1 s1 i2 m p"
| "run_call cboe (ReduceSizeShort i1 s1 i2) m p = get_reduce_size_short cboe i1 s1 i2 m p"
| "run_call cboe (ModifyOrderLong i1 s1 i2 x1) m p = get_modify_order_long cboe i1 s1 i2 x1 m p"
| "run_call cboe (ModifyOrderShort i1 s1 i2 x1) m p = get_modify_order_short cboe i1 s1 i2 x1 m p"
| "run_call cboe (DeleteOrder i1 s1) m p = get_delete_order cboe i1 s1 m p"
| "run_call cboe (TradeLong i1 s1 s2 i2 s3 x1 s4) m p = get_trade_long cboe i1 s1 s2 i2 s3 x1 s4 m p"
| "run_call cboe (TradeShort i1 s1 s2 i2 s3 x1 s4) m p = get_trade_short cboe i1 s1 s2 i2 s3 x1 s4 m p"
| "run_call cboe (TradeExpanded i1 s1 s2 i2 s3 x1 s4) m p = get_trade_expanded cboe i1 s1 s2 i2 s3 x1 s4 m p"

text \<open>The message a call produces by itself, if it succeeds.\<close>

definition outcome :: "pitch_library \<Rightarrow> bats_call \<Rightarrow> int list option" where
  "outcome cboe c =
     (case run_call cboe c mylist_init (PyBool False) of (m, rc) \<Rightarrow> if rc = 0 then Some (ml_data m) else None)"

fun run_calls :: "pitch_library \<Rightarrow> bats_call list \<Rightarrow> mylist \<Rightarrow> mylist \<times> int list" where
  "run_calls cboe [] m = (m, [])"
| "run_calls cboe (c # cs) m =
     (let (m1, rc) = run_call cboe c m (PyBool False); (m2, rcs) = run_calls cboe cs m1 in (m2, rc # rcs))"

lemmas builder_defs = get_time_def get_add_order_long_def get_add_order_short_def get_add_order_expanded_def
  get_order_executed_def get_order_executed_at_price_size_def get_reduce_size_long_def
  get_reduce_size_short_def get_modify_order_long_def get_modify_order_short_def
  get_delete_order_def get_trade_long_def get_trade_short_def get_trade_expanded_def

lemma build_outcome: "build cboe name parms m p =
  (case build cboe name parms mylist_init (PyBool False) of (m', rc) \<Rightarrow>
     if rc = 0 then ((if is_True p then prepend_list m (ml_data m') else append_list m (ml_data m')), 0)
     else (m, 1))"
  by (auto simp: build_def is_True_def mylist_init_def append_list_def split: sum.splits)

lemma run_call_outcome: "run_call cboe c m p =
  (case outcome cboe c of None \<Rightarrow> (m, 1)
   | Some bs \<Rightarrow> ((if is_True p then prepend_list m bs else append_list m bs), 0))"
proof -
  have *: "\<exists>name parms. run_call cboe c = build cboe name parms"
    by (cases c) (auto simp: builder_defs fun_eq_iff)
  then obtain name parms where eq: "run_call cboe c = build cboe name parms" by blast
  show ?thesis unfolding outcome_def eq
    by (subst build_outcome) (simp split: prod.splits)
qed

definition unit_messages :: "pitch_library \<Rightarrow> bats_call list \<Rightarrow> int list list" where
  "unit_messages cboe calls = List.map_filter (outcome cboe) calls"

lemma run_calls_messages:
  "ml_data (fst (run_calls cboe calls m)) = ml_data m @ concat (unit_messages cboe calls)"
proof (induction calls arbitrary: m)
  case Nil
  then show ?case by (simp add: unit_messages_def map_filter_simps)
next
  case (Cons c calls)
  then show ?case
    by (cases "outcome cboe c")
      (simp_all add: run_call_outcome is_True_def append_list_def unit_messages_def map_filter_simps Let_def split_beta)
qed

section \<open>Reading JSON strings back\<close>

definition json_short :: "char \<Rightarrow> char option" where
  "json_short e =
     map_of [(CHR 34, CHR 34), (CHR 92, CHR 92), (CHR ''n'', CHR 10), (CHR ''r'', CHR 13), (CHR ''t'', CHR 9),
       (CHR ''f'', CHR 12), (CHR ''b'', CHR 8)] e"

text \<open>A JSON string from behind its opening quote: the characters and the text behind it.\<close>

fun json_read :: "string \<Rightarrow> (string \<times> string) option" where
  "json_read [] = None"
| "json_read (c # cs) =
     (if c = CHR 34 then Some ([], cs)
      else if c = CHR 92 then
        (case cs of
           e # es \<Rightarrow>
             (if e = CHR ''u'' then
                (case es of
                   a # b # d # f # rest \<Rightarrow>
                     (case py_int 16 [a, b, d, f] of
                        Inl x \<Rightarrow> None
                      | Inr n \<Rightarrow> map_option (\<lambda>(s, r). (char_of (nat n) # s, r)) (json_read rest))
                 | _ \<Rightarrow> None)
              else
                (case json_short e of
                   None \<Rightarrow> None
                 | Some x \<Rightarrow> map_option (\<lambda>(s, r). (x # s, r)) (json_read es)))
         | [] \<Rightarrow> None)
      else map_option (\<lambda>(s, r). (c # s, r)) (json_read cs))"

lemma four_elements: "length xs = 4 \<Longrightarrow> \<exists>a b d f. xs = [a, b, d, f]"
  by (auto simp: length_Suc_conv eval_nat_numeral)

lemma to_hex_4: "n < 256 \<Longrightarrow> \<exists>a b d f. to_hex 4 n = [a, b, d, f]"
proof -
  assume n: "n < 256"
  then have "n div 16 < 16" by simp
  then have "length (nat_digits 16 n) \<le> 2"
    by (subst nat_digits.simps, subst nat_digits.simps) simp
  then have "length (to_hex 4 n) = 4" by (simp add: to_hex_def pad_zeros_def)
  then show ?thesis by (rule four_elements)
qed

lemma json_char_special:
  "json_char (CHR 34) = [CHR 92, CHR 34]" "json_char (CHR 92) = [CHR 92, CHR 92]"
  "json_char (CHR 10) = [CHR 92, CHR ''n'']" "json_char (CHR 13) = [CHR 92, CHR ''r'']"
  "json_char (CHR 9) = [CHR 92, CHR ''t'']" "json_char (CHR 12) = [CHR 92, CHR ''f'']"
  "json_char (CHR 8) = [CHR 92, CHR ''b'']"
  by code_simp+

lemma json_short_special:
  "json_short (CHR 34) = Some (CHR 34)" "json_short (CHR 92) = Some (CHR 92)"
  "json_short (CHR ''n'') = Some (CHR 10)" "json_short (CHR ''r'') = Some (CHR 13)"
  "json_short (CHR ''t'') = Some (CHR 9)" "json_short (CHR ''f'') = Some (CHR 12)"
  "json_short (CHR ''b'') = Some (CHR 8)"
  by code_simp+

lemma json_read_escape:
  "e \<noteq> CHR ''u'' \<Longrightarrow> json_short e = Some x \<Longrightarrow>
   json_read (CHR 92 # e # es) = map_option (\<lambda>(s, r). (x # s, r)) (json_read es)"
  by simp

lemma json_char_other:
  assumes "c \<notin> {CHR 34, CHR 92, CHR 10, CHR 13, CHR 9, CHR 12, CHR 8}"
  shows "json_char c = (if of_char c < (32::nat) \<or> 127 < (of_char c :: nat) then CHR 92 # ''u'' @ to_hex 4 (of_char c) else [c])"
proof -
  have ne: "of_char c \<noteq> (k::nat)" if "c \<noteq> char_of k" for k
    using that by auto
  have lits: "char_of (34::nat) = CHR 34" "char_of (92::nat) = CHR 92" "char_of (10::nat) = CHR 10"
    "char_of (13::nat) = CHR 13" "char_of (9::nat) = CHR 9" "char_of (12::nat) = CHR 12" "char_of (8::nat) = CHR 8"
    by code_simp+
  have "of_char c \<noteq> (34::nat)" "of_char c \<noteq> (92::nat)" "of_char c \<noteq> (10::nat)" "of_char c \<noteq> (13::nat)"
    "of_char c \<noteq> (9::nat)" "of_char c \<noteq> (12::nat)" "of_char c \<noteq> (8::nat)"
    using assms ne lits by (metis insertCI)+
  then show ?thesis by (simp only: json_char_def Let_def if_False)
qed

lemma json_read_char: "json_read (json_char c @ r) = map_option (\<lambda>(s, t). (c # s, t)) (json_read r)"
proof (cases "c \<in> {CHR 34, CHR 92, CHR 10, CHR 13, CHR 9, CHR 12, CHR 8}")
  case True
  then show ?thesis
    by (elim insertE emptyE) (simp_all add: json_char_special json_short_special)
next
  case False
  note eq = json_char_other [OF False]
  have ne: "c \<noteq> CHR 34" "c \<noteq> CHR 92" using False by simp_all
  show ?thesis
  proof (cases "of_char c < (32::nat) \<or> 127 < (of_char c :: nat)")
    case True
    have "of_char c < (256::nat)" by simp
    from to_hex_4 [OF this] obtain w x y z where h: "to_hex 4 (of_char c) = [w, x, y, z]" by blast
    have "py_int 16 [w, x, y, z] = Inr (int (of_char c))" using py_int_hex [of 4 "of_char c"] h by simp
    then show ?thesis using True h unfolding eq by simp
  next
    case False
    then show ?thesis using ne unfolding eq by simp
  qed
qed

lemma json_read_string: "json_read (concat (map json_char s) @ CHR 34 # rest) = Some (s, rest)"
  by (induction s) (simp_all add: json_read_char)

section \<open>Properties\<close>


text \<open>No argument text can break out of the JSON request: reading a printed string back, with
  anything behind it, returns exactly the original characters and leaves exactly that rest, for
  quotes, backslashes, control characters and non-ASCII bytes alike.\<close>
theorem json_string_roundtrip:
  "hd (json_string s @ rest) = CHR 34 \<and> json_read (tl (json_string s @ rest)) = Some (s, rest)"
  using json_read_string [of s rest] by (simp add: json_string_def)

text \<open>What \<open>cboe_pitch\<close> documents of the header call: the unit is an 8-byte header, whose first two
  bytes are the unit's whole length (little-endian), and the given messages.\<close>

definition documented_header :: "(string \<Rightarrow> int list \<Rightarrow> int list py_result) \<Rightarrow> bool" where
  "documented_header cboe_hdr \<longleftrightarrow> (\<forall>json msgs unit. cboe_hdr json msgs = Inr unit \<longrightarrow>
     (\<exists>hdr. unit = hdr @ msgs \<and> is_bytes hdr \<and> length hdr = 8 \<and>
        from_le (take 2 hdr) = 8 + int (length msgs)))"

lemma unit_replayed:
  assumes "documented_header cboe_hdr" and "list_all wf_msg (unit_messages cboe calls)" "paced (unit_messages cboe calls) []"
    and "unit_messages cboe calls \<noteq> []" and "idle p"
    and "get_seq_unit_hdr cboe_hdr hdr_seq hdr_count (fst (run_calls cboe calls mylist_init)) = (u, 0)"
  shows "idle (replay_payload p f (ml_data u)) \<and>
    seen (pout (replay_payload p f (ml_data u))) = seen (pout p) @ map (entry_of f) (unit_messages cboe calls)"
proof -
  let ?ms = "unit_messages cboe calls" and ?json = "json_dumps [(''HdrSeq'', JInt hdr_seq), (''HdrCount'', JInt hdr_count)]"
  have data: "ml_data (fst (run_calls cboe calls mylist_init)) = concat ?ms"
    by (simp add: run_calls_messages mylist_init_def)
  from assms(6) data obtain unit_arr where call: "cboe_hdr ?json (concat ?ms) = Inr unit_arr" "ml_data u = unit_arr"
    by (auto simp: get_seq_unit_hdr_def replace_list_def split: sum.splits)
  from assms(1) call(1) obtain hdr where hdr: "unit_arr = hdr @ concat ?ms" "is_bytes hdr" "length hdr = 8"
    "from_le (take 2 hdr) = 8 + int (length (concat ?ms))"
    unfolding documented_header_def by blast
  have "wf_unit hdr ?ms" using hdr(2-4) assms(2-4) by (simp add: wf_unit_def)
  from replay_unit [OF assms(5) this] show ?thesis by (simp add: call(2) hdr(1))
qed

text \<open>C9. From builders to parser: append any sequence of builder calls to an empty list, some of which
  may fail, and wrap the list with \<open>get_seq_unit_hdr\<close>. If at least one message was built, every
  built message is a length-prefixed message of 2 to 65 bytes, the parser keeps pace with their lengths
  (as it does with any messages of eight bytes or more) and the header call returned 0, the parser model replayed on the resulting bytes emits exactly the messages of the successful calls,
  in call order, and is idle again.\<close>
theorem built_unit_parses:
  assumes "documented_header cboe_hdr" and "list_all wf_msg (unit_messages cboe calls)" "paced (unit_messages cboe calls) []"
    and "unit_messages cboe calls \<noteq> []" and "idle p"
    and "get_seq_unit_hdr cboe_hdr hdr_seq hdr_count (fst (run_calls cboe calls mylist_init)) = (u, 0)"
  shows "idle (replay_payload p f (ml_data u)) \<and>
    seen (pout (replay_payload p f (ml_data u))) = seen (pout p) @ map (entry_of f) (unit_messages cboe calls)"
  by (rule unit_replayed [OF assms])

definition demo_cboe :: pitch_library where
  "demo_cboe name json =
     (if name = ''get_delete_order'' then Inr [14, 0x29, 0, 0, 0, 0, 65, 66, 67, 68, 69, 70, 71, 72]
      else if name = ''get_reduce_size_short'' then Inr [16, 0x26, 0, 0, 0, 0, 65, 66, 67, 68, 69, 70, 71, 72, 1, 0]
      else Inl ValueError)"

definition demo_hdr :: "string \<Rightarrow> int list \<Rightarrow> int list py_result" where
  "demo_hdr json msgs =
     (if length msgs < 1000 then Inr (to_le 2 (8 + int (length msgs)) @ [2, 1, 5, 0, 0, 0] @ msgs)
      else Inl ValueError)"

lemma demo_hdr_documented: "documented_header demo_hdr"
proof -
  have "from_le (to_le 2 (8 + int (length msgs))) = 8 + int (length msgs)" if "length msgs < 1000" for msgs :: "int list"
    using that by (intro from_le_to_le) simp_all
  then show ?thesis
    by (auto simp: documented_header_def demo_hdr_def is_byte_def split: if_splits
        intro!: exI [of _ "to_le 2 (8 + int (length _)) @ [2, 1, 5, 0, 0, 0]"])
qed

theorem built_unit_parses_witness:
  "seen (pout (replay_payload parser_init 3
     (ml_data (fst (get_seq_unit_hdr demo_hdr 5 2 (fst (run_calls demo_cboe
       [DeleteOrder 447000 ''ORID0001'', Time 34200, ReduceSizeShort 2 ''ORID0001'' 1] mylist_init))))))) =
   [(3, 14, 0x29, [14, 0x29, 0, 0, 0, 0, 65, 66]), (3, 16, 0x26, [16, 0x26, 0, 0, 0, 0, 65, 66])]"
proof -
  let ?calls = "[DeleteOrder 447000 ''ORID0001'', Time 34200, ReduceSizeShort 2 ''ORID0001'' 1]"
  have out: "outcome demo_cboe (DeleteOrder 447000 ''ORID0001'') = Some [14, 0x29, 0, 0, 0, 0, 65, 66, 67, 68, 69, 70, 71, 72]"
    "outcome demo_cboe (Time 34200) = None"
    "outcome demo_cboe (ReduceSizeShort 2 ''ORID0001'' 1) = Some [16, 0x26, 0, 0, 0, 0, 65, 66, 67, 68, 69, 70, 71, 72, 1, 0]"
    by (simp_all add: outcome_def builder_defs build_def demo_cboe_def is_True_def append_list_def mylist_init_def)
  have msgs: "unit_messages demo_cboe ?calls =
      [[14, 0x29, 0, 0, 0, 0, 65, 66, 67, 68, 69, 70, 71, 72], [16, 0x26, 0, 0, 0, 0, 65, 66, 67, 68, 69, 70, 71, 72, 1, 0]]"
    by (simp add: unit_messages_def map_filter_simps out)
  have wf: "list_all wf_msg (unit_messages demo_cboe ?calls)" "paced (unit_messages demo_cboe ?calls) []"
      "unit_messages demo_cboe ?calls \<noteq> []"
    unfolding msgs by (simp_all add: wf_msg_def is_byte_def paced_def keeps_pace.simps)
  obtain u where u: "get_seq_unit_hdr demo_hdr 5 2 (fst (run_calls demo_cboe ?calls mylist_init)) = (u, 0)"
    using run_calls_messages [of demo_cboe ?calls mylist_init]
    by (simp add: get_seq_unit_hdr_def demo_hdr_def msgs mylist_init_def del: run_calls.simps)
  from built_unit_parses [OF demo_hdr_documented wf idle_init this, of 3]
  show ?thesis unfolding u msgs by (simp add: parser_init_def seen_def entry_of_def eval_nat_numeral)
qed

end
