(* ===== verification/Filter_Bench.thy ===== *)
theory Filter_Bench
  imports Bats_Loader "HOL-Library.AList"
begin

text \<open>
  The benchmark driver of the symbol filter, \<open>submodules/Market.Data.Filter/ip_export/filter_msg_gen.py\<close>:
  order-book commands, the bench that generates them from a configuration, and its log of sent and
  received messages. The configuration is the parsed TOML document; the field converter of the
  external \<open>cboe_pitch\<close> library is a parameter. Attributes that an exception in \<open>__init__\<close> can leave
  unset are options, and reading an unset one raises \<open>AttributeError\<close>.
\<close>

section \<open>Commands\<close>

text \<open>A value of the configuration.\<close>

datatype cell = CStr string | CInt int | CFloat py_float | CList "cell list"

text \<open>\<open>repr\<close> and \<open>str\<close> of a value.\<close>

fun cell_repr :: "cell \<Rightarrow> string" where
  "cell_repr (CStr s) = py_repr s"
| "cell_repr (CInt n) = int_repr n"
| "cell_repr (CFloat x) = float_repr x"
| "cell_repr (CList xs) = ''['' @ join_with '', '' (map cell_repr xs) @ '']''"

fun cell_str :: "cell \<Rightarrow> string" where
  "cell_str (CStr s) = s"
| "cell_str v = cell_repr v"

record field_converter =
  orderid_to_u64 :: "cell \<Rightarrow> int py_result"
  symbol_to_u64 :: "cell \<Rightarrow> int py_result"
  u64_to_orderid :: "int \<Rightarrow> string"
  u64_to_symbol :: "int \<Rightarrow> string"

record ob_command =
  cmd_type :: int
  cmd_side :: int
  cmd_orderid :: int
  cmd_quantity :: cell
  cmd_symbol :: int
  cmd_price :: cell
  cmd_executed_qty :: cell
  cmd_canceled_qty :: cell
  cmd_remaining_qty :: cell
  cmd_seconds :: cell
  cmd_nanoseconds :: cell
  cmd_add :: py_bit
  cmd_edit :: py_bit
  cmd_remove :: py_bit
  cmd_seq_no :: cell

definition ob_command_init :: ob_command where
  "ob_command_init = \<lparr>cmd_type = 0, cmd_side = 0, cmd_orderid = 0, cmd_quantity = CInt 0,
     cmd_symbol = 0, cmd_price = CInt 0, cmd_executed_qty = CInt 0, cmd_canceled_qty = CInt 0,
     cmd_remaining_qty = CInt 0, cmd_seconds = CInt 0, cmd_nanoseconds = CInt 0, cmd_add = PyInt 0,
     cmd_edit = PyInt 0, cmd_remove = PyInt 0, cmd_seq_no = CInt 0\<rparr>"

text \<open>\<open>from_dict\<close> copies every field of the generated dictionary, itself a command's fields.\<close>

definition from_dict :: "ob_command \<Rightarrow> ob_command \<Rightarrow> ob_command" where
  "from_dict self in_dict = self\<lparr>cmd_type := cmd_type in_dict, cmd_side := cmd_side in_dict,
     cmd_orderid := cmd_orderid in_dict, cmd_quantity := cmd_quantity in_dict,
     cmd_symbol := cmd_symbol in_dict, cmd_price := cmd_price in_dict,
     cmd_executed_qty := cmd_executed_qty in_dict, cmd_canceled_qty := cmd_canceled_qty in_dict,
     cmd_remaining_qty := cmd_remaining_qty in_dict, cmd_seconds := cmd_seconds in_dict,
     cmd_nanoseconds := cmd_nanoseconds in_dict, cmd_add := cmd_add in_dict,
     cmd_edit := cmd_edit in_dict, cmd_remove := cmd_remove in_dict, cmd_seq_no := cmd_seq_no in_dict\<rparr>"

definition cmd_type_str :: "ob_command \<Rightarrow> string option" where
  "cmd_type_str c =
     (if cmd_type c = 0 then Some ''Time''
      else if cmd_type c = 1 then Some ''AddOrder''
      else if cmd_type c = 2 then Some ''OrderExecuted''
      else if cmd_type c = 3 then Some ''OrderExecutedAtPrice''
      else if cmd_type c = 4 then Some ''ReduceSize''
      else if cmd_type c = 5 then Some ''ModifyOrder''
      else if cmd_type c = 6 then Some ''DeleteOrder''
      else if cmd_type c = 7 then Some ''GetEverything''
      else if cmd_type c = 8 then Some ''GetAllOrders''
      else if cmd_type c = 9 then Some ''GetTop''
      else None)"

definition cmd_side_str :: "ob_command \<Rightarrow> string" where
  "cmd_side_str c = (if cmd_side c = 0x42 then ''B'' else ''S'')"

definition cmd_orderid_str :: "field_converter \<Rightarrow> ob_command \<Rightarrow> string" where
  "cmd_orderid_str fc c = u64_to_orderid fc (cmd_orderid c)"

definition cmd_symbol_str :: "field_converter \<Rightarrow> ob_command \<Rightarrow> string" where
  "cmd_symbol_str fc c = u64_to_symbol fc (cmd_symbol c)"

definition cmd_op_str :: "ob_command \<Rightarrow> string option" where
  "cmd_op_str c =
     (if is_True (cmd_add c) then Some ''add''
      else if is_True (cmd_edit c) then Some ''edit''
      else if is_True (cmd_remove c) then Some ''remove''
      else None)"

definition cmd_seq_no_str :: "ob_command \<Rightarrow> string" where
  "cmd_seq_no_str c = cell_str (cmd_seq_no c)"

section \<open>Generating commands\<close>

definition cmd_types :: "string list" where
  "cmd_types = [''Time'', ''AddOrder'', ''OrderExecuted'', ''OrderExecutedAtPrice'', ''ReduceSize'',
     ''ModifyOrder'', ''DeleteOrder'', ''GetEverything'', ''GetAllOrders'', ''GetTop'']"

text \<open>\<open>CmdType[name].value\<close>.\<close>

fun enum_value :: "string list \<Rightarrow> int \<Rightarrow> cell \<Rightarrow> int py_result" where
  "enum_value [] k name = Inl KeyError"
| "enum_value (n # ns) k name = (if name = CStr n then Inr k else enum_value ns (k + 1) name)"

definition gen_cmd ::
    "field_converter \<Rightarrow> cell \<Rightarrow> cell \<Rightarrow> cell \<Rightarrow> cell \<Rightarrow> cell \<Rightarrow> cell \<Rightarrow> cell \<Rightarrow> cell \<Rightarrow> cell \<Rightarrow> cell \<Rightarrow> cell \<Rightarrow>
     bool \<Rightarrow> bool \<Rightarrow> bool \<Rightarrow> cell \<Rightarrow> ob_command py_result" where
  "gen_cmd fc c_type c_side c_orderid c_quantity c_symbol c_price c_exe c_can c_rem c_sec c_nano
     c_add c_edit c_remove c_seq =
     bind_result (enum_value cmd_types 0 c_type) (\<lambda>t.
     bind_result (orderid_to_u64 fc c_orderid) (\<lambda>oid.
     bind_result (symbol_to_u64 fc c_symbol) (\<lambda>symb.
     Inr \<lparr>cmd_type = t, cmd_side = (if c_side = CStr ''B'' then 0x42 else 0x53), cmd_orderid = oid,
          cmd_quantity = c_quantity, cmd_symbol = symb, cmd_price = c_price,
          cmd_executed_qty = c_exe, cmd_canceled_qty = c_can, cmd_remaining_qty = c_rem,
          cmd_seconds = c_sec, cmd_nanoseconds = c_nano, cmd_add = PyBool c_add, cmd_edit = PyBool c_edit,
          cmd_remove = PyBool c_remove, cmd_seq_no = c_seq\<rparr>)))"

text \<open>The header row as a dictionary: a later duplicate wins.\<close>

definition field_map :: "cell list \<Rightarrow> cell \<Rightarrow> nat option" where
  "field_map header = map_of (rev (zip header [0..<length header]))"

definition get_field :: "(cell \<Rightarrow> nat option) \<Rightarrow> cell list \<Rightarrow> string \<Rightarrow> cell py_result" where
  "get_field fm msg key = (case fm (CStr key) of
     None \<Rightarrow> Inl KeyError
   | Some i \<Rightarrow> py_index msg (int i))"

definition row_command :: "field_converter \<Rightarrow> (cell \<Rightarrow> nat option) \<Rightarrow> cell list \<Rightarrow> ob_command py_result" where
  "row_command fc fm msg =
     bind_result (get_field fm msg ''Type'') (\<lambda>c_type.
     bind_result (get_field fm msg ''Side'') (\<lambda>c_side.
     bind_result (get_field fm msg ''OrderId'') (\<lambda>c_orderid.
     bind_result (get_field fm msg ''Quantity'') (\<lambda>c_quantity.
     bind_result (get_field fm msg ''Symbol'') (\<lambda>c_symbol.
     bind_result (get_field fm msg ''Price'') (\<lambda>c_price.
     bind_result (get_field fm msg ''Exe Quantity'') (\<lambda>c_exe.
     bind_result (get_field fm msg ''Can Quantity'') (\<lambda>c_can.
     bind_result (get_field fm msg ''Rem Quantity'') (\<lambda>c_rem.
     bind_result (get_field fm msg ''Seconds'') (\<lambda>c_sec.
     bind_result (get_field fm msg ''Seconds'') (\<lambda>c_nano.
     bind_result (get_field fm msg ''Op'') (\<lambda>c_op.
     bind_result (get_field fm msg ''SeqNo'') (\<lambda>c_seq.
     gen_cmd fc c_type c_side c_orderid c_quantity c_symbol c_price c_exe c_can c_rem c_sec c_nano
       (c_op = CStr ''add'') (c_op = CStr ''edit'') (c_op = CStr ''remove'') c_seq)))))))))))))"

fun row_commands :: "field_converter \<Rightarrow> (cell \<Rightarrow> nat option) \<Rightarrow> cell list list \<Rightarrow> ob_command list py_result" where
  "row_commands fc fm [] = Inr []"
| "row_commands fc fm (msg # msgs) =
     bind_result (row_command fc fm msg) (\<lambda>c. bind_result (row_commands fc fm msgs) (\<lambda>cs. Inr (c # cs)))"

section \<open>The bench\<close>

record security =
  sec_symbol :: "cell option"
  sec_weight :: "cell option"
  sec_book_size_range :: "cell option"
  sec_price_range :: "cell option"
  sec_size_range :: "cell option"

text \<open>
  The parts of the TOML document the bench reads; \<open>None\<close> where a key is missing, \<open>Some None\<close> where
  \<open>messages\<close> has no \<open>csv\<close>.
\<close>

record config =
  cfg_name :: "string option"
  cfg_description :: "string option"
  cfg_watchlist :: "string list option"
  cfg_number_of_messages :: "int option"
  cfg_security :: "security list option"
  cfg_messages :: "cell list list option option"

record sec_gen =
  sg_symbol :: cell
  sg_weight :: cell
  sg_book_size_range :: cell
  sg_price_range :: cell
  sg_size_range :: cell

record msg_entry =
  me_cmd :: ob_command
  me_sent :: int
  me_recv :: "int option"

record bench =
  fb_name :: "string option"
  fb_description :: "string option"
  fb_watch_list :: "string list option"
  fb_number_of_messages :: "int option"
  fb_securities_gen :: "sec_gen list option"
  fb_orderids :: "string set option"
  fb_commands :: "ob_command list"
  fb_msgs :: "(string \<times> msg_entry) list"
  fb_expected_msgs_count :: int

definition gen_messages :: "field_converter \<Rightarrow> config \<Rightarrow> ob_command list py_result" where
  "gen_messages fc cfg = (case cfg_messages cfg of
     None \<Rightarrow> Inr []
   | Some None \<Rightarrow> Inl KeyError
   | Some (Some csv) \<Rightarrow>
       bind_result (py_index csv 0) (\<lambda>header. row_commands fc (field_map header) (drop 1 csv)))"

definition get_or :: "'a \<Rightarrow> 'a option \<Rightarrow> 'a" where
  "get_or d v = (case v of None \<Rightarrow> d | Some x \<Rightarrow> x)"

definition sec_gen_of :: "cell \<Rightarrow> security \<Rightarrow> sec_gen" where
  "sec_gen_of symb s =
     \<lparr>sg_symbol = symb, sg_weight = get_or (CFloat (PyFloat ''nan'')) (sec_weight s),
      sg_book_size_range = get_or (CInt 10) (sec_book_size_range s),
      sg_price_range = get_or (CList [CFloat (PyFloat ''75.0''), CFloat (PyFloat ''125.0'')]) (sec_price_range s),
      sg_size_range = get_or (CList [CInt 25, CInt 200]) (sec_size_range s)\<rparr>"

text \<open>The loop over the securities: \<open>_orderids\<close> is only created inside it.\<close>

fun read_securities :: "security list \<Rightarrow> bench \<Rightarrow> bench" where
  "read_securities [] b = b"
| "read_securities (s # ss) b =
     (case sec_symbol s of
        None \<Rightarrow> b
      | Some symb \<Rightarrow> read_securities ss
          (b\<lparr>fb_securities_gen := map_option (\<lambda>g. g @ [sec_gen_of symb s]) (fb_securities_gen b),
             fb_orderids := Some {}\<rparr>))"

text \<open>The \<open>try\<close> block: the first missing key ends it and leaves the rest unset.\<close>

definition read_config :: "config \<Rightarrow> bench \<Rightarrow> bench" where
  "read_config cfg b =
     (case cfg_name cfg of None \<Rightarrow> b | Some n \<Rightarrow>
      let b1 = b\<lparr>fb_name := Some n\<rparr> in
      case cfg_description cfg of None \<Rightarrow> b1 | Some d \<Rightarrow>
      let b2 = b1\<lparr>fb_description := Some d\<rparr> in
      case cfg_watchlist cfg of None \<Rightarrow> b2 | Some w \<Rightarrow>
      let b3 = b2\<lparr>fb_watch_list := Some w\<rparr> in
      case cfg_number_of_messages cfg of None \<Rightarrow> b3 | Some k \<Rightarrow>
      let b4 = b3\<lparr>fb_number_of_messages := Some k, fb_securities_gen := Some []\<rparr> in
      case cfg_security cfg of None \<Rightarrow> b4 | Some ss \<Rightarrow> read_securities ss b4)"

definition bench_init :: "field_converter \<Rightarrow> config option \<Rightarrow> bench py_result" where
  "bench_init fc toml_file = (case toml_file of
     None \<Rightarrow> Inl OtherError
   | Some cfg \<Rightarrow>
       let b = read_config cfg \<lparr>fb_name = None, fb_description = None, fb_watch_list = None,
                 fb_number_of_messages = None, fb_securities_gen = None, fb_orderids = None,
                 fb_commands = [], fb_msgs = [], fb_expected_msgs_count = 0\<rparr>
       in bind_result (gen_messages fc cfg) (\<lambda>cmds.
          Inr (b\<lparr>fb_commands := cmds, fb_msgs := [], fb_expected_msgs_count := 0\<rparr>)))"

definition attribute :: "'a option \<Rightarrow> 'a py_result" where
  "attribute v = (case v of None \<Rightarrow> Inl AttributeError | Some x \<Rightarrow> Inr x)"

definition watchlist_get_size :: "bench \<Rightarrow> nat py_result" where
  "watchlist_get_size b = bind_result (attribute (fb_watch_list b)) (\<lambda>w. Inr (length w))"

text \<open>The symbol as text, and packed: padded with spaces to eight bytes (of ASCII text), big-endian.\<close>

definition watchlist_get_item_str :: "bench \<Rightarrow> int \<Rightarrow> string py_result" where
  "watchlist_get_item_str b idx = bind_result (attribute (fb_watch_list b)) (\<lambda>w. py_index w idx)"

definition watchlist_get_item :: "bench \<Rightarrow> int \<Rightarrow> int py_result" where
  "watchlist_get_item b idx =
     bind_result (attribute (fb_watch_list b)) (\<lambda>w. bind_result (py_index w idx) (\<lambda>s.
     Inr (from_be (map of_char (s @ replicate (8 - length s) CHR '' '')))))"

definition has_more_commands :: "bench \<Rightarrow> bool" where
  "has_more_commands b \<longleftrightarrow> length (fb_commands b) > 0"

definition get_next_command :: "bench \<Rightarrow> ob_command \<Rightarrow> (bench \<times> ob_command) py_result" where
  "get_next_command b in_ob_cmd = (case fb_commands b of
     [] \<Rightarrow> Inl IndexError
   | c # cs \<Rightarrow> Inr (b\<lparr>fb_commands := cs\<rparr>, from_dict in_ob_cmd c))"

definition msg_key :: "string \<Rightarrow> string \<Rightarrow> string" where
  "msg_key oid seq = oid @ ''-'' @ seq"

text \<open>Logging a send; an exception keeps what was changed before it.\<close>

definition log_command_send :: "field_converter \<Rightarrow> bench \<Rightarrow> ob_command \<Rightarrow> int \<Rightarrow> bench \<times> py_exn option" where
  "log_command_send fc b0 cmd t =
     (let oid = cmd_orderid_str fc cmd;
          key = msg_key oid (cmd_seq_no_str cmd);
          b = b0\<lparr>fb_msgs := AList.update key \<lparr>me_cmd = cmd, me_sent = t, me_recv = None\<rparr> (fb_msgs b0)\<rparr>
      in if cmd_type_str cmd = Some ''AddOrder'' then
           (case fb_watch_list b of
              None \<Rightarrow> (b, Some AttributeError)
            | Some w \<Rightarrow>
                if cmd_symbol_str fc cmd \<in> set w then
                  (let b1 = b\<lparr>fb_expected_msgs_count := fb_expected_msgs_count b + 1\<rparr>
                   in case fb_orderids b1 of
                        None \<Rightarrow> (b1, Some AttributeError)
                      | Some ids \<Rightarrow> (b1\<lparr>fb_orderids := Some (insert oid ids)\<rparr>, None))
                else (b, None))
         else
           (case fb_orderids b of
              None \<Rightarrow> (b, Some AttributeError)
            | Some ids \<Rightarrow>
                if oid \<in> ids then (b\<lparr>fb_expected_msgs_count := fb_expected_msgs_count b + 1\<rparr>, None)
                else (b, None)))"

definition log_command_receive ::
    "field_converter \<Rightarrow> bench \<Rightarrow> int \<Rightarrow> int \<Rightarrow> int \<Rightarrow> bench py_result" where
  "log_command_receive fc b in_orderid in_seq_no t =
     (let key = msg_key (u64_to_orderid fc in_orderid) (int_repr in_seq_no)
      in case map_of (fb_msgs b) key of
           None \<Rightarrow> Inl KeyError
         | Some e \<Rightarrow> Inr (b\<lparr>fb_msgs := AList.update key (e\<lparr>me_recv := Some t\<rparr>) (fb_msgs b)\<rparr>))"

text \<open>\<open>key.split('-')\<close> unpacked into two names.\<close>

fun split_dash :: "string \<Rightarrow> string \<Rightarrow> string list" where
  "split_dash acc [] = [acc]"
| "split_dash acc (c # cs) = (if c = CHR ''-'' then acc # split_dash [] cs else split_dash (acc @ [c]) cs)"

fun result_lines :: "(string \<times> msg_entry) list \<Rightarrow> string py_result" where
  "result_lines [] = Inr []"
| "result_lines ((key, e) # es) =
     (case me_recv e of
        None \<Rightarrow> result_lines es
      | Some t \<Rightarrow>
          (case split_dash [] key of
             [oid, seq_no] \<Rightarrow> bind_result (result_lines es) (\<lambda>rest.
               Inr (''  '' @ oid @ '':'' @ seq_no @ '' Delta: '' @ int_repr (t - me_sent e) @ ''ns'' @ [CHR 10] @ rest))
           | _ \<Rightarrow> Inl ValueError))"

definition get_results :: "string \<Rightarrow> bench \<Rightarrow> string py_result" where
  "get_results clock_period b =
     bind_result (result_lines (fb_msgs b)) (\<lambda>body.
     Inr (replicate 21 CHR ''-'' @ [CHR 10] @ ''Results of benchmark:'' @ [CHR 10] @ replicate 21 CHR ''-'' @ [CHR 10, CHR 10]
       @ replicate 25 CHR ''-'' @ [CHR 10] @ ''Log of messages'' @ [CHR 10] @ replicate 25 CHR ''-'' @ [CHR 10, CHR 10]
       @ ''Clock Period: '' @ clock_period @ ''ns'' @ [CHR 10, CHR 10] @ body))"

section \<open>Commands in file order\<close>

fun take_commands :: "nat \<Rightarrow> bench \<Rightarrow> ob_command list py_result" where
  "take_commands 0 b = Inr []"
| "take_commands (Suc n) b =
     bind_result (get_next_command b ob_command_init) (\<lambda>(b', c).
     bind_result (take_commands n b') (\<lambda>cs. Inr (c # cs)))"

lemma from_dict_all: "from_dict s c = c"
  by (cases c; cases s) (simp add: from_dict_def)

lemma take_commands_all: "take_commands (length (fb_commands b)) b = Inr (fb_commands b)"
proof (induction "fb_commands b" arbitrary: b)
  case Nil
  then show ?case by simp
next
  case (Cons c cs)
  from Cons.hyps(1) [of "b\<lparr>fb_commands := cs\<rparr>"] show ?case
    by (simp add: Cons.hyps(2) [symmetric] get_next_command_def from_dict_all)
qed

lemma take_commands_more: "take_commands (Suc (length (fb_commands b))) b = Inl IndexError"
proof (induction "fb_commands b" arbitrary: b)
  case Nil
  then show ?case by (simp add: get_next_command_def)
next
  case (Cons c cs)
  from Cons.hyps(1) [of "b\<lparr>fb_commands := cs\<rparr>"] show ?case
    by (simp add: Cons.hyps(2) [symmetric] get_next_command_def del: take_commands.simps(2))
      (simp add: Cons.hyps(2) [symmetric] get_next_command_def)
qed

lemma row_commands_rows: "row_commands fc fm rows = Inr cs \<Longrightarrow> map (row_command fc fm) rows = map Inr cs"
  by (induction rows arbitrary: cs) (auto simp: bind_result_Inr)

lemma bench_init_commands:
  "bench_init fc (Some cfg) = Inr b \<Longrightarrow> gen_messages fc cfg = Inr (fb_commands b)"
  by (auto simp: bench_init_def bind_result_Inr Let_def)

lemma row_command_nano: "row_command fc fm row = Inr c \<Longrightarrow> cmd_nanoseconds c = cmd_seconds c"
  by (auto simp: row_command_def gen_cmd_def bind_result_Inr)

section \<open>Counting the messages that should pass\<close>

definition add_passes :: "field_converter \<Rightarrow> string list \<Rightarrow> ob_command \<Rightarrow> bool" where
  "add_passes fc wl c \<longleftrightarrow> cmd_type_str c = Some ''AddOrder'' \<and> cmd_symbol_str fc c \<in> set wl"

text \<open>The filter's promise: watched orders pass, and later messages on an order that passed.\<close>

definition should_pass :: "field_converter \<Rightarrow> string list \<Rightarrow> ob_command list \<Rightarrow> nat \<Rightarrow> bool" where
  "should_pass fc wl cs i \<longleftrightarrow> add_passes fc wl (cs ! i) \<or>
     (cmd_type_str (cs ! i) \<noteq> Some ''AddOrder'' \<and>
      list_ex (\<lambda>c. add_passes fc wl c \<and> cmd_orderid_str fc c = cmd_orderid_str fc (cs ! i)) (take i cs))"

definition passed_ids :: "field_converter \<Rightarrow> string list \<Rightarrow> ob_command list \<Rightarrow> string set" where
  "passed_ids fc wl cs = cmd_orderid_str fc ` set (filter (add_passes fc wl) cs)"

lemma passed_ids_snoc: "passed_ids fc wl (cs @ [c]) =
  (if add_passes fc wl c then insert (cmd_orderid_str fc c) (passed_ids fc wl cs) else passed_ids fc wl cs)"
  by (simp add: passed_ids_def)

lemma list_ex_passed: "list_ex (\<lambda>d. add_passes fc wl d \<and> cmd_orderid_str fc d = x) cs \<longleftrightarrow> x \<in> passed_ids fc wl cs"
  by (auto simp: passed_ids_def list_ex_iff)

lemma should_pass_snoc:
  "i < length cs \<Longrightarrow> should_pass fc wl (cs @ [c]) i = should_pass fc wl cs i"
  "should_pass fc wl (cs @ [c]) (length cs) \<longleftrightarrow> add_passes fc wl c \<or>
     (cmd_type_str c \<noteq> Some ''AddOrder'' \<and> cmd_orderid_str fc c \<in> passed_ids fc wl cs)"
  by (simp_all add: should_pass_def nth_append list_ex_passed)

definition pass_count :: "field_converter \<Rightarrow> string list \<Rightarrow> ob_command list \<Rightarrow> int" where
  "pass_count fc wl cs = int (length (filter (should_pass fc wl cs) [0..<length cs]))"

lemma pass_count_snoc: "pass_count fc wl (cs @ [c]) =
  pass_count fc wl cs + (if should_pass fc wl (cs @ [c]) (length cs) then 1 else 0)"
proof -
  have "filter (should_pass fc wl (cs @ [c])) [0..<length cs] = filter (should_pass fc wl cs) [0..<length cs]"
    by (rule filter_cong [OF refl]) (simp add: should_pass_snoc(1))
  then show ?thesis by (simp add: pass_count_def)
qed

lemma log_send_step:
  assumes "fb_watch_list b = Some wl" and "fb_orderids b = Some (passed_ids fc wl cs)"
    and "fb_expected_msgs_count b = pass_count fc wl cs"
  shows "let (b', out) = log_command_send fc b c t in out = None \<and> fb_watch_list b' = Some wl \<and>
    fb_orderids b' = Some (passed_ids fc wl (cs @ [c])) \<and>
    fb_expected_msgs_count b' = pass_count fc wl (cs @ [c])"
proof (cases "cmd_type_str c = Some ''AddOrder''")
  case True
  then show ?thesis using assms
    by (simp add: log_command_send_def Let_def passed_ids_snoc pass_count_snoc should_pass_snoc(2) add_passes_def)
next
  case False
  then show ?thesis using assms
    by (simp add: log_command_send_def Let_def passed_ids_snoc pass_count_snoc should_pass_snoc(2) add_passes_def)
qed

abbreviation log_sends :: "field_converter \<Rightarrow> bench \<Rightarrow> (ob_command \<times> int) list \<Rightarrow> bench \<times> py_exn option list" where
  "log_sends fc b sends \<equiv> run_loop (\<lambda>b (c, t). log_command_send fc b c t) b sends"

lemma log_sends_count:
  assumes "fb_watch_list b = Some wl" and "fb_orderids b = Some {}" and "fb_expected_msgs_count b = 0"
  shows "let (b', outs) = log_sends fc b sends in list_all (\<lambda>x. x = None) outs \<and> fb_watch_list b' = Some wl \<and>
    fb_orderids b' = Some (passed_ids fc wl (map fst sends)) \<and>
    fb_expected_msgs_count b' = pass_count fc wl (map fst sends)"
proof (induction sends rule: rev_induct)
  case Nil
  then show ?case using assms by (simp add: passed_ids_def pass_count_def)
next
  case (snoc s sends)
  obtain c t where s: "s = (c, t)" by (cases s)
  obtain b1 o1 where run: "log_sends fc b sends = (b1, o1)" by fastforce
  obtain b2 out where step: "log_command_send fc b1 c t = (b2, out)" by fastforce
  from snoc run have "fb_watch_list b1 = Some wl" "fb_orderids b1 = Some (passed_ids fc wl (map fst sends))"
    "fb_expected_msgs_count b1 = pass_count fc wl (map fst sends)" "list_all (\<lambda>x. x = None) o1" by simp_all
  with log_send_step [of b1 wl fc "map fst sends" c t] step show ?case
    by (simp add: s run_loop_append run)
qed

section \<open>Results\<close>

lemma split_dash_length: "length (split_dash acc s) = Suc (count_list s CHR ''-'')"
  by (induction s arbitrary: acc) simp_all

lemma result_lines_ok:
  "(\<exists>txt. result_lines es = Inr txt) \<longleftrightarrow> list_all (\<lambda>(k, e). me_recv e = None \<or> count_list k CHR ''-'' = 1) es"
proof (induction es)
  case Nil
  then show ?case by simp
next
  case (Cons x es)
  obtain k e where x: "x = (k, e)" by (cases x)
  show ?case
  proof (cases "me_recv e")
    case None
    then show ?thesis using Cons by (simp add: x)
  next
    case (Some t)
    have len: "length (split_dash [] k) = Suc (count_list k CHR ''-'')" by (rule split_dash_length)
    show ?thesis
    proof (cases "count_list k CHR ''-'' = 1")
      case True
      then obtain a c where "split_dash [] k = [a, c]" using len by (auto simp: length_Suc_conv)
      then show ?thesis using Cons True Some by (auto simp: x bind_result_Inr)
    next
      case False
      then have "\<nexists>a c. split_dash [] k = [a, c]" using len by auto
      then have "(case split_dash [] k of [oid, seq_no] \<Rightarrow> f oid seq_no | _ \<Rightarrow> Inl ValueError) = Inl ValueError"
        for f :: "string \<Rightarrow> string \<Rightarrow> string py_result" by (auto split: list.splits)
      then show ?thesis using False Some by (simp add: x)
    qed
  qed
qed

section \<open>Properties\<close>

text \<open>A bench built from a configuration with a message table hands out one command per table row,
  in table order, each with its row's fields, and then raises \<open>IndexError\<close>. In every one of them the
  nanoseconds are the \<open>Seconds\<close> column again: the column for nanoseconds is never read.\<close>
theorem bench_commands:
  assumes "bench_init fc (Some cfg) = Inr b" and "cfg_messages cfg = Some (Some (header # rows))"
  shows "\<exists>cs. take_commands (length rows) b = Inr cs \<and> map (row_command fc (field_map header)) rows = map Inr cs \<and>
    take_commands (Suc (length rows)) b = Inl IndexError \<and> list_all (\<lambda>c. cmd_nanoseconds c = cmd_seconds c) cs"
proof -
  have "row_commands fc (field_map header) rows = Inr (fb_commands b)"
    using bench_init_commands [OF assms(1)] assms(2) by (simp add: gen_messages_def py_index_def)
  from row_commands_rows [OF this]
  have rows: "map (row_command fc (field_map header)) rows = map Inr (fb_commands b)" .
  then have len: "length rows = length (fb_commands b)" by (metis length_map)
  have "cmd_nanoseconds c = cmd_seconds c" if "c \<in> set (fb_commands b)" for c
  proof -
    have "Inr c \<in> set (map (row_command fc (field_map header)) rows)" using that by (simp add: rows)
    then obtain row where "row_command fc (field_map header) row = Inr c" by auto
    then show ?thesis by (rule row_command_nano)
  qed
  then show ?thesis using rows take_commands_all [of b] take_commands_more [of b] len
    by (auto simp: list_all_iff)
qed

text \<open>A converter and a configuration to run the bench on.\<close>

definition demo_converter :: field_converter where
  "demo_converter = \<lparr>orderid_to_u64 = (\<lambda>c. Inr (from_be (map of_char (cell_str c)))),
     symbol_to_u64 = (\<lambda>c. Inr (from_be (map of_char (cell_str c)))),
     u64_to_orderid = (\<lambda>n. map (\<lambda>b. char_of (nat b)) (to_be 2 n)),
     u64_to_symbol = (\<lambda>n. map (\<lambda>b. char_of (nat b)) (to_be 2 n))\<rparr>"

definition demo_config :: config where
  "demo_config = \<lparr>cfg_name = Some ''t'', cfg_description = Some ''d'', cfg_watchlist = Some [''AA''],
     cfg_number_of_messages = Some 1,
     cfg_security = Some [\<lparr>sec_symbol = Some (CStr ''AA''), sec_weight = None, sec_book_size_range = None,
       sec_price_range = None, sec_size_range = None\<rparr>],
     cfg_messages = Some (Some [map CStr [''Type'', ''Side'', ''OrderId'', ''Quantity'', ''Symbol'', ''Price'',
         ''Exe Quantity'', ''Can Quantity'', ''Rem Quantity'', ''Seconds'', ''Nanoseconds'', ''Op'', ''SeqNo''],
       [CStr ''AddOrder'', CStr ''B'', CStr ''O1'', CInt 100, CStr ''AA'', CFloat (PyFloat ''1.5''),
         CInt 0, CInt 0, CInt 0, CInt 34200, CInt 17, CStr ''add'', CInt 1]])\<rparr>"

theorem bench_commands_witness:
  "\<exists>b cs. bench_init demo_converter (Some demo_config) = Inr b \<and> take_commands 1 b = Inr cs \<and>
     list_all (\<lambda>c. cmd_nanoseconds c = cmd_seconds c) cs"
proof -
  obtain header row where cfg: "cfg_messages demo_config = Some (Some [header, row])"
    by (simp add: demo_config_def)
  have "\<not> isl (bench_init demo_converter (Some demo_config))" by code_simp
  then obtain b where b: "bench_init demo_converter (Some demo_config) = Inr b"
    by (cases "bench_init demo_converter (Some demo_config)") simp_all
  from bench_commands [OF b cfg] show ?thesis using b by auto
qed

text \<open>C27. The expected-message count is the filter's promise: after logging any sequence of sends on a
  fresh bench that has a watch list and a security, without an exception, it equals the number of
  sent commands that are an \<open>AddOrder\<close> for a watched symbol, or another command whose order id was
  added by an earlier such order.\<close>
theorem expected_count_correct:
  assumes "fb_watch_list b = Some wl" and "fb_orderids b = Some {}" and "fb_expected_msgs_count b = 0"
  shows "let (b', outs) = log_sends fc b sends
    in fb_expected_msgs_count b' =
         int (length (filter (should_pass fc wl (map fst sends)) [0..<length sends])) \<and>
       list_all (\<lambda>x. x = None) outs"
  using log_sends_count [OF assms, of fc sends] by (simp add: Let_def split_beta pass_count_def)

definition demo_command :: "int \<Rightarrow> int \<Rightarrow> int \<Rightarrow> int \<Rightarrow> ob_command" where
  "demo_command ty oid symb n = ob_command_init\<lparr>cmd_type := ty, cmd_orderid := oid, cmd_symbol := symb, cmd_seq_no := CInt n\<rparr>"

theorem expected_count_correct_witness:
  "\<exists>b. fb_expected_msgs_count (fst (log_sends demo_converter b
     [(demo_command 1 0x4F31 0x4141 1, 10), (demo_command 1 0x4F32 0x4242 2, 20),
      (demo_command 6 0x4F31 0 3, 30), (demo_command 6 0x4F32 0 4, 40)])) = 2"
proof -
  let ?sends = "[(demo_command 1 0x4F31 0x4141 1, 10::int), (demo_command 1 0x4F32 0x4242 2, 20::int),
      (demo_command 6 0x4F31 0 3, 30::int), (demo_command 6 0x4F32 0 4, 40::int)]"
  let ?b = "\<lparr>fb_name = None, fb_description = None, fb_watch_list = Some [''AA''], fb_number_of_messages = None,
     fb_securities_gen = Some [], fb_orderids = Some {}, fb_commands = [], fb_msgs = [], fb_expected_msgs_count = 0\<rparr>"
  have "int (length (filter (should_pass demo_converter [''AA''] (map fst ?sends)) [0..<length ?sends])) = 2"
    by code_simp
  moreover have "fb_watch_list ?b = Some [''AA'']" "fb_orderids ?b = Some {}" "fb_expected_msgs_count ?b = 0" by simp_all
  from expected_count_correct [OF this, of demo_converter ?sends]
  have "fb_expected_msgs_count (fst (log_sends demo_converter ?b ?sends)) =
      int (length (filter (should_pass demo_converter [''AA''] (map fst ?sends)) [0..<length ?sends]))"
    by (simp only: Let_def split_beta)
  ultimately have "fb_expected_msgs_count (fst (log_sends demo_converter ?b ?sends)) = 2" by (simp only:)
  then show ?thesis by (rule exI)
qed

text \<open>The report can be printed exactly when every logged message that was received has a key with
  one dash, the one the bench put between order id and sequence number: an order id that contains a
  dash makes \<open>get_results\<close> raise.\<close>
theorem results_printable:
  "(\<exists>txt. get_results clock b = Inr txt) \<longleftrightarrow>
   list_all (\<lambda>(k, e). me_recv e = None \<or> count_list k CHR ''-'' = 1) (fb_msgs b)"
  using result_lines_ok [of "fb_msgs b"] by (auto simp: get_results_def bind_result_Inr)

end
