(* ===== verification/Eth_Frame.thy ===== *)
theory Eth_Frame
  imports Byte_List
begin

text \<open>
  \<open>EthernetFrame\<close> and \<open>Pcap\<close> of \<open>ip_export/poc_ip.py\<close>: the frames of a capture as the 64-bit words and
  byte enables the simulation drives into the design. scapy is a parameter: a packet is given by its
  bytes, its UDP payload, if it has one, and the destination addresses that \<open>get_short\<close> shows or the text of
  the exception that asking for them raises. Word indices are not negative, as in the benches' loops.
\<close>

section \<open>The code\<close>

record packet =
  pkt_bytes :: "int list"
  pkt_udp :: "int list option"
  pkt_short :: "string + string \<times> string \<times> string"

record ethernet_frame =
  eth_packet :: "packet option"
  raw_bytes :: "int list option"
  is_bats :: bool
  udp_bytes :: "int list option"

definition eth_frame_init :: ethernet_frame where
  "eth_frame_init = \<lparr>eth_packet = None, raw_bytes = None, is_bats = False, udp_bytes = None\<rparr>"

text \<open>\<open>init\<close> on a reused object: without a UDP layer the two other attributes keep their values.\<close>

definition eth_init :: "ethernet_frame \<Rightarrow> packet \<Rightarrow> ethernet_frame" where
  "eth_init f p =
     (let g = f\<lparr>eth_packet := Some p, raw_bytes := Some (pkt_bytes p)\<rparr>
      in case pkt_udp p of None \<Rightarrow> g | Some u \<Rightarrow> g\<lparr>is_bats := True, udp_bytes := Some u\<rparr>)"

definition get_length_bytes :: "ethernet_frame \<Rightarrow> nat py_result" where
  "get_length_bytes f = (case raw_bytes f of None \<Rightarrow> Inl TypeError | Some b \<Rightarrow> Inr (length b))"

definition get_number_of_words :: "ethernet_frame \<Rightarrow> nat py_result" where
  "get_number_of_words f = (case raw_bytes f of
     None \<Rightarrow> Inl TypeError
   | Some b \<Rightarrow> Inr (length b div 8 + (if length b mod 8 > 0 then 1 else 0)))"

definition eth_get_word :: "ethernet_frame \<Rightarrow> nat \<Rightarrow> int \<Rightarrow> int" where
  "eth_get_word f index order = (case raw_bytes f of
     None \<Rightarrow> 0
   | Some b \<Rightarrow>
       let from = (if order = 1 then from_le else from_be)
       in if get_number_of_words f = Inr (index + 1) then
            (let num_bytes = length b mod 8;
                 ret = py_slice (index * 8) (index * 8 + num_bytes) b @ replicate (8 - num_bytes) 0
             in from ret)
          else from (py_slice (index * 8) (index * 8 + 8) b))"

definition get_word_tkeep :: "ethernet_frame \<Rightarrow> nat \<Rightarrow> int \<Rightarrow> int py_result" where
  "get_word_tkeep f index order = (case raw_bytes f of
     None \<Rightarrow> Inl TypeError
   | Some b \<Rightarrow>
       if get_number_of_words f = Inr (index + 1) then
         (let num_bytes = length b mod 8; unshifted = 2 ^ num_bytes - 1
          in Inr (if order = 0 then push_bit (8 - num_bytes) unshifted else unshifted))
       else Inr 0xff)"

text \<open>Before \<open>init\<close> the object has no packet, and \<open>get_short\<close> returns the text of that exception.\<close>

definition get_short :: "ethernet_frame \<Rightarrow> string" where
  "get_short f =
     (case (case eth_packet f of
              None \<Rightarrow> Inl ([CHR 39] @ ''EthernetFrame'' @ [CHR 39] @ '' object has no attribute '' @ [CHR 39] @ ''_packet'' @ [CHR 39])
            | Some p \<Rightarrow> pkt_short p) of
        Inl ex \<Rightarrow> ''ETHERNET_FRAME_GET_SHORT: '' @ ex
      | Inr (mac, ip, dport) \<Rightarrow> ''DST: MAC='' @ mac @ '', IP='' @ ip @ '', DPort='' @ dport)"

text \<open>\<open>Pcap.__init__\<close>: whether the file exists and what scapy reads from it are inputs. A file that cannot be
  read leaves a capture without packets.\<close>

definition pcap_init :: "bool \<Rightarrow> packet list py_result \<Rightarrow> packet list py_result" where
  "pcap_init exists rdpcap =
     (if \<not> exists then Inl OtherError else Inr (case rdpcap of Inl e \<Rightarrow> [] | Inr packets \<Rightarrow> packets))"

definition pcap_get_frame_count :: "packet list \<Rightarrow> nat" where
  "pcap_get_frame_count packets = length packets"

definition pcap_get_frame :: "packet list \<Rightarrow> ethernet_frame \<Rightarrow> int \<Rightarrow> ethernet_frame py_result" where
  "pcap_get_frame packets eth_frame index =
     bind_result (py_index packets index) (\<lambda>p. Inr (eth_init eth_frame p))"

section \<open>Words and enables\<close>

text \<open>The bytes one word delivers, lane 0 first: as many as its enables have bits.\<close>

definition delivered :: "ethernet_frame \<Rightarrow> nat \<Rightarrow> int list" where
  "delivered f i = (case get_word_tkeep f i 1 of
     Inl e \<Rightarrow> []
   | Inr keep \<Rightarrow> take (popcount keep) (to_le 8 (eth_get_word f i 1)))"

lemma words_of_frame:
  "raw_bytes f = Some b \<Longrightarrow> get_number_of_words f = Inr ((length b + 7) div 8)"
  using num_words_ceiling [of "\<lparr>ml_data = b\<rparr>"] by (simp add: get_number_of_words_def get_num_words_def)

lemma delivered_middle:
  assumes "raw_bytes f = Some b" and "is_bytes b" and "i + 1 < (length b + 7) div 8"
  shows "delivered f i = take 8 (drop (8 * i) b)"
proof -
  let ?c = "take 8 (drop (8 * i) b)"
  have "8 * i + 8 \<le> length b" using assms(3) by linarith
  then have len: "length ?c = 8" by simp
  have "is_bytes ?c" using assms(2) by simp
  from to_le_from_le [OF this] len have "to_le 8 (from_le ?c) = ?c" by simp
  moreover have "get_number_of_words f \<noteq> Inr (i + 1)" using words_of_frame [OF assms(1)] assms(3) by simp
  ultimately show ?thesis using len
    by (simp add: delivered_def get_word_tkeep_def eth_get_word_def assms(1) py_slice_def mult.commute Let_def)
qed

lemma delivered_last:
  assumes "raw_bytes f = Some b" and "is_bytes b" and "i + 1 = (length b + 7) div 8"
  shows "delivered f i = take (length b mod 8) (drop (8 * i) b)"
proof -
  let ?n = "length b mod 8" and ?c = "take (length b mod 8) (drop (8 * i) b)"
  let ?p = "?c @ replicate (8 - ?n) 0"
  have n: "?n < 8" by simp
  have "?n \<le> length b - 8 * i"
  proof (cases "?n = 0")
    case True
    then show ?thesis by simp
  next
    case False
    then have "i = length b div 8"
      using assms(3) num_words_ceiling [of "\<lparr>ml_data = b\<rparr>"] by (simp add: get_num_words_def)
    then have "8 * i + ?n = length b" by (simp only: mult_div_mod_eq)
    then show ?thesis by simp
  qed
  then have len: "length ?c = ?n" by simp
  have bytes: "is_bytes ?p" using assms(2) by simp
  have "length ?p = 8" using len n by simp
  then have "to_le 8 (from_le ?p) = ?p" using to_le_from_le [OF bytes] by simp
  moreover have "get_number_of_words f = Inr (i + 1)" using words_of_frame [OF assms(1)] assms(3) by simp
  ultimately show ?thesis using len
    by (simp add: delivered_def get_word_tkeep_def eth_get_word_def assms(1) py_slice_def mult.commute Let_def)
qed

section \<open>Properties\<close>

text \<open>C40. What the simulation is driven with: reading a frame word by word in lane order, with each
  word's byte enables, delivers the whole frame when its length is not a multiple of eight, and loses
  the last eight bytes (a word of zeros with no byte enabled) when it is.\<close>
theorem frame_words_delivered:
  assumes "raw_bytes f = Some b" and "is_bytes b"
  shows "concat (map (delivered f) [0..<(length b + 7) div 8]) =
    (if length b mod 8 = 0 then take (length b - 8) b else b)"
proof (cases "(length b + 7) div 8")
  case 0
  then have "b = []" by (cases b) simp_all
  then show ?thesis by simp
next
  case (Suc k)
  have front: "concat (map (\<lambda>i. take 8 (drop (8 * i) b)) [0..<k]) = take (8 * k) b" for k
    by (induction k) (simp_all add: take_add [symmetric] add.commute [of 8])
  have "map (delivered f) [0..<k] = map (\<lambda>i. take 8 (drop (8 * i) b)) [0..<k]"
    using delivered_middle [OF assms] Suc by (intro map_cong [OF refl]) simp
  then have "concat (map (delivered f) [0..<k]) = take (8 * k) b" by (simp only: front)
  moreover have "delivered f k = take (length b mod 8) (drop (8 * k) b)"
    using delivered_last [OF assms, of k] Suc by simp
  ultimately have all: "concat (map (delivered f) [0..<Suc k]) = take (8 * k + length b mod 8) b"
    by (simp add: take_add)
  have ceil: "length b div 8 + (if 0 < length b mod 8 then 1 else 0) = Suc k"
    using num_words_ceiling [of "\<lparr>ml_data = b\<rparr>"] Suc by (simp add: get_num_words_def)
  have "8 * (length b div 8) + length b mod 8 = length b" by simp
  then have "8 * k + length b mod 8 = (if length b mod 8 = 0 then length b - 8 else length b)"
    using ceil by (auto split: if_splits)
  then show ?thesis unfolding Suc all by simp
qed

theorem frame_words_delivered_witness:
  "concat (map (delivered \<lparr>eth_packet = None, raw_bytes = Some [1, 2, 3, 4, 5, 6, 7, 8, 9, 10, 11, 12, 13, 14, 15, 16],
     is_bats = False, udp_bytes = None\<rparr>) [0..<2]) = [1, 2, 3, 4, 5, 6, 7, 8]"
proof -
  let ?b = "[1, 2, 3, 4, 5, 6, 7, 8, 9, 10, 11, 12, 13, 14, 15, 16] :: int list"
  have "is_bytes ?b" by (simp add: is_byte_def)
  from frame_words_delivered [OF _ this, of "\<lparr>eth_packet = None, raw_bytes = Some ?b, is_bats = False, udp_bytes = None\<rparr>"]
  show ?thesis by simp
qed

end
