(* ===== verification/Entity_Parser.thy ===== *)
theory Entity_Parser
  imports Capture_Text
begin

text \<open>
  \<open>ip_export/parse.py\<close>: it reads the ports of the entity declaration in the VHDL wrapper that the NI
  tools export and prints Verilog declarations and an instance for a test bench. The file's text is an
  input; the lines printed are the result, or the exception that stops the program.
\<close>

section \<open>Lower case\<close>

text \<open>\<open>str.lower()\<close> on the characters below 256.\<close>

definition lower_latin1 :: "char \<Rightarrow> char" where
  "lower_latin1 c =
     (let k = of_char c :: nat
      in if 65 \<le> k \<and> k \<le> 90 \<or> 192 \<le> k \<and> k \<le> 222 \<and> k \<noteq> 215 then char_of (k + 32) else c)"

section \<open>The code\<close>

datatype direction = DIR_IN | DIR_OUT
datatype var_type = SCALAR | VECTOR
datatype vector_type = ASCENDING | DESCENDING

record entity =
  en_name :: string
  en_port :: string
  en_dir :: direction
  en_type :: var_type
  en_vtype :: "vector_type option"
  en_size :: "int option"

text \<open>The first match of \<open>ctrlind_(\d{2})_([a-zA-Z0-9_]+)\<close>: its second group.\<close>

definition word_char :: "char \<Rightarrow> bool" where
  "word_char c \<longleftrightarrow> is_digit c \<or> c = CHR ''_'' \<or> 65 \<le> (of_char c :: nat) \<and> (of_char c :: nat) \<le> 90
     \<or> 97 \<le> (of_char c :: nat) \<and> (of_char c :: nat) \<le> 122"

definition match_ctrl :: "string \<Rightarrow> string option" where
  "match_ctrl s = Option.bind (match_lit ''ctrlind_'' s) (\<lambda>t.
     Option.bind (match_count 2 is_digit t) (\<lambda>(idx, u).
     Option.bind (match_lit ''_'' u) (\<lambda>v.
     Option.bind (match_some word_char v) (\<lambda>(w, x). Some w))))"

fun find_ctrl :: "string \<Rightarrow> string option" where
  "find_ctrl [] = None"
| "find_ctrl (c # cs) = (case match_ctrl (c # cs) of Some w \<Rightarrow> Some w | None \<Rightarrow> find_ctrl cs)"

definition get_connector_name :: "direction \<Rightarrow> string \<Rightarrow> string py_result" where
  "get_connector_name dir port =
     (if has_sub ''ctrlind'' port then
        (case find_ctrl port of
           None \<Rightarrow> Inl IndexError
         | Some w \<Rightarrow> Inr (map lower_latin1 ((if dir = DIR_IN then ''in_ip_'' else ''out_ip_'') @ w)))
      else Inr (map lower_latin1 port))"

text \<open>\<open>.*\((.*)\);\<close>: both stars are greedy, so the group lies between the last \<open>);\<close> and the last
  opening parenthesis before it.\<close>

definition match_bounds :: "string \<Rightarrow> string option" where
  "match_bounds s = (case last_at '');'' s of
     None \<Rightarrow> None
   | Some j \<Rightarrow> (case last_at ''('' (take j s) of None \<Rightarrow> None | Some i \<Rightarrow> Some (py_slice (i + 1) j s)))"

definition vector_of :: "string \<Rightarrow> (vector_type option \<times> int option) py_result" where
  "vector_of port_type = (case match_bounds port_type of
     None \<Rightarrow> Inl AttributeError
   | Some g \<Rightarrow> (case split_on (CHR '' '') [] g of
       [first, ty, second] \<Rightarrow>
         if ty = ''to'' then
           bind_result (py_int 10 second) (\<lambda>b. bind_result (py_int 10 first) (\<lambda>a.
             Inr (Some ASCENDING, Some (b - a + 1))))
         else if ty = ''downto'' then
           bind_result (py_int 10 first) (\<lambda>a. bind_result (py_int 10 second) (\<lambda>b.
             Inr (Some DESCENDING, Some (a - b + 1))))
         else Inr (None, None)
     | _ \<Rightarrow> Inl ValueError))"

text \<open>A port line: the dictionary key is the name before stripping.\<close>

definition port_entity :: "string \<Rightarrow> (string \<times> entity) py_result" where
  "port_entity trim_line = (case split_on (CHR '':'') [] trim_line of
     [port_name, port_type] \<Rightarrow>
       (let dir = (if has_sub ''in '' port_type then DIR_IN else DIR_OUT);
            vec = has_sub ''std_logic_vector'' port_type
        in bind_result (if vec then vector_of port_type else Inr (None, None)) (\<lambda>(vt, sz).
           bind_result (get_connector_name dir (py_strip port_name)) (\<lambda>name.
             Inr (port_name, \<lparr>en_name = name, en_port = py_strip port_name, en_dir = dir,
                  en_type = (if vec then VECTOR else SCALAR), en_vtype = vt, en_size = sz\<rparr>))))
   | _ \<Rightarrow> Inl ValueError)"

type_synonym ports = "(string \<times> entity) list"

fun read_lines :: "string list \<Rightarrow> string option \<Rightarrow> bool \<Rightarrow> ports \<Rightarrow> (string option \<times> ports) py_result" where
  "read_lines [] tgt reading d = Inr (tgt, d)"
| "read_lines (line # lines) tgt reading d =
     (if starts ''entity'' line then
        bind_result (py_index (split_on (CHR '' '') [] line) 1) (\<lambda>t. read_lines lines (Some t) True d)
      else if starts (''end '' @ (case tgt of None \<Rightarrow> ''None'' | Some t \<Rightarrow> t) @ '';'') line then Inr (tgt, d)
      else if reading then
        (let trim = py_strip line
         in if starts ''port ('' trim \<or> starts '');'' trim then read_lines lines tgt reading d
            else bind_result (port_entity trim) (\<lambda>(k, e). read_lines lines tgt reading (AList.update k e d)))
      else read_lines lines tgt reading d)"

text \<open>The declaration of a port; the size of a vector with another range word is missing.\<close>

definition declare_port :: "entity \<Rightarrow> string py_result" where
  "declare_port e =
     (let kind = (if en_dir e = DIR_IN then ''reg    '' else ''wire   '')
      in bind_result (if en_type e = VECTOR
           then (case en_size e of
                   None \<Rightarrow> Inl TypeError
                 | Some n \<Rightarrow> Inr (''['' @ pad_left 2 (to_sdec (n - 1)) @ '':0] ''))
           else Inr (replicate 7 (CHR '' ''))) (\<lambda>rng.
         Inr (''    '' @ kind @ rng @ ''   '' @ en_name e @ '';'')))"

fun connections :: "entity list \<Rightarrow> string list" where
  "connections [] = []"
| "connections [e] = [''        .'' @ en_port e @ ''('' @ en_name e @ '')'']"
| "connections (e # f # es) = (''        .'' @ en_port e @ ''('' @ en_name e @ ''),'') # connections (f # es)"

text \<open>Reading a text file turns every line end into a newline.\<close>

fun text_mode :: "string \<Rightarrow> string" where
  "text_mode [] = []"
| "text_mode (c # cs) =
     (if c = CHR 13 then CHR 10 # text_mode (if cs \<noteq> [] \<and> hd cs = CHR 10 then tl cs else cs)
      else c # text_mode cs)"

text \<open>\<open>main\<close> on its arguments and the content of the file, \<open>None\<close> when there is no such file.\<close>

definition parse_main :: "string list \<Rightarrow> string option \<Rightarrow> string list py_result" where
  "parse_main argv content = (case argv of
     [] \<Rightarrow> Inr [''Usage: ./parse.py <filename>.v'']
   | fin # others \<Rightarrow>
       (let start = [''    // AUTO_GENERATED_CODE_START: parse.py ['' @ join_with '', '' (map py_repr argv) @ '']'',
              ''    // Source file: '' @ fin]
        in case content of
             None \<Rightarrow> Inr (start @ [''File '' @ fin @ '' not found''])
           | Some src \<Rightarrow>
               bind_result (read_lines (split_on (CHR 10) [] (text_mode src)) None False []) (\<lambda>(tgt, d).
                 let t = (case tgt of None \<Rightarrow> ''None'' | Some t \<Rightarrow> t); es = map snd d
                 in bind_result (map_result declare_port es) (\<lambda>decls.
                    Inr (start @ [''    // Variables for '' @ t] @ decls
                         @ ['''', ''    '' @ t @ '' UUT (''] @ connections es
                         @ [''    );'', ''    // AUTO_GENERATED_CODE_END: parse.py''])))))"

section \<open>Characters of names and numbers\<close>

lemma text_mode_id: "CHR 13 \<notin> set s \<Longrightarrow> text_mode s = s"
  by (induction s) auto

lemma to_dec_chars: "c \<in> set (to_dec n) \<Longrightarrow> is_digit c"
  using to_dec_digits(2) [of n] by (simp add: list_all_iff)

lemma not_digits: "\<not> is_digit (CHR ''i'')" "\<not> is_digit (CHR ''('')" "\<not> is_digit (CHR '' '')" "\<not> is_digit (CHR '':'')"
  "\<not> is_digit (CHR 10)" "\<not> is_digit (CHR 13)"
  by (simp_all add: is_digit_def)

lemma to_dec_not: "c \<in> set (to_dec n) \<Longrightarrow> c \<noteq> CHR ''i'' \<and> c \<noteq> CHR ''('' \<and> c \<noteq> CHR '' '' \<and> c \<noteq> CHR '':'' \<and> c \<noteq> CHR 10 \<and> c \<noteq> CHR 13"
  using to_dec_chars [of c n] not_digits by blast

section \<open>The wrapper that the tools write\<close>

text \<open>A port: its name, its direction and, for a vector, the number of its highest bit.\<close>

type_synonym vhdl_port = "string \<times> direction \<times> nat option"

definition port_type_text :: "vhdl_port \<Rightarrow> string" where
  "port_type_text p = (case p of (name, dir, hi) \<Rightarrow>
     '' '' @ (if dir = DIR_IN then ''in '' else ''out '') @
     (case hi of None \<Rightarrow> ''std_logic'' | Some h \<Rightarrow> ''std_logic_vector('' @ to_dec h @ '' downto 0)''))"

definition port_text :: "vhdl_port \<Rightarrow> string" where
  "port_text p = fst p @ '' :'' @ port_type_text p"

definition tabs :: "nat \<Rightarrow> string" where
  "tabs n = replicate n (CHR 9)"

text \<open>The last port has no semicolon.\<close>

definition wrapper_lines :: "string \<Rightarrow> vhdl_port list \<Rightarrow> vhdl_port \<Rightarrow> string list" where
  "wrapper_lines name ps q =
     [''entity '' @ name @ '' is'', tabs 2 @ ''port (''] @ map (\<lambda>p. tabs 3 @ port_text p @ '';'') ps
     @ [tabs 3 @ port_text q, tabs 2 @ '');'', ''end '' @ name @ '';'']"

definition wrapper_text :: "string \<Rightarrow> vhdl_port list \<Rightarrow> vhdl_port \<Rightarrow> string \<Rightarrow> string" where
  "wrapper_text name ps q rest = concat (map (\<lambda>l. l @ [CHR 10]) (wrapper_lines name ps q)) @ rest"

definition port_ok :: "vhdl_port \<Rightarrow> bool" where
  "port_ok p \<longleftrightarrow> fst p \<noteq> [] \<and> list_all word_char (fst p) \<and>
     (has_sub ''ctrlind'' (fst p) \<longrightarrow> find_ctrl (fst p) \<noteq> None)"

definition connector :: "vhdl_port \<Rightarrow> string" where
  "connector p = (case p of (name, dir, hi) \<Rightarrow>
     map lower_latin1 (if has_sub ''ctrlind'' name then
        (if dir = DIR_IN then ''in_ip_'' else ''out_ip_'') @ the (find_ctrl name) else name))"

definition entity_of :: "vhdl_port \<Rightarrow> entity" where
  "entity_of p = (case p of (name, dir, hi) \<Rightarrow>
     \<lparr>en_name = connector p, en_port = name, en_dir = dir, en_type = (if hi = None then SCALAR else VECTOR),
      en_vtype = map_option (\<lambda>h. DESCENDING) hi, en_size = map_option (\<lambda>h. int h + 1) hi\<rparr>)"

lemma word_char_not:
  "word_char c \<Longrightarrow> \<not> is_space c \<and> c \<noteq> CHR '':'' \<and> c \<noteq> CHR '')'' \<and> c \<noteq> CHR 10 \<and> c \<noteq> CHR 13 \<and> c \<noteq> CHR '' ''"
  by (auto simp: word_char_def is_digit_def is_space_def)

lemma connector_name: "port_ok (name, dir, hi) \<Longrightarrow> get_connector_name dir name = Inr (connector (name, dir, hi))"
  by (auto simp: get_connector_name_def connector_def port_ok_def split: option.splits)

lemma direction_text:
  "has_sub ''in '' (port_type_text (name, dir, hi) @ t) \<longleftrightarrow> dir = DIR_IN" if "t = '''' \<or> t = '';''"
proof (cases hi)
  case None
  then show ?thesis using that by (cases dir) (auto simp: port_type_text_def)
next
  case (Some h)
  have "has_sub ''in '' (to_dec h @ s) \<longleftrightarrow> has_sub ''in '' s" for s
    by (rule has_sub_skip) (auto dest: to_dec_not)
  then show ?thesis using that Some by (cases dir) (auto simp: port_type_text_def)
qed

lemma vector_text:
  "has_sub ''std_logic_vector'' (port_type_text (name, dir, hi) @ t) \<longleftrightarrow> hi \<noteq> None" if "t = '''' \<or> t = '';''"
  using that by (cases dir; cases hi) (auto simp: port_type_text_def)

lemma to_dec_0: "to_dec 0 = ''0''"
  by code_simp

lemma vector_bounds: "vector_of (port_type_text (name, dir, Some h) @ '';'') = Inr (Some DESCENDING, Some (int h + 1))"
proof -
  define pre where "pre = '' '' @ (if dir = DIR_IN then ''in '' else ''out '') @ ''std_logic_vector''"
  define s where "s = pre @ ''('' @ (to_dec h @ '' downto 0'')"
  have shape: "port_type_text (name, dir, Some h) @ '';'' = s @ '');''"
    by (simp add: port_type_text_def s_def pre_def)
  have "last_at '');'' (s @ '');'') = Some (length s)" using last_at_append [of "'');''" "'');''" 0 s] by simp
  moreover have "CHR ''('' \<notin> set (to_dec h)" using to_dec_not by blast
  then have "last_at ''('' (to_dec h @ '' downto 0'') = None" by (intro last_at_none) simp
  then have "last_at ''('' (''('' @ (to_dec h @ '' downto 0'')) = Some 0" by simp
  then have "last_at ''('' s = Some (length pre)" using last_at_append [of "''(''" _ 0 pre] by (simp add: s_def)
  ultimately have "match_bounds (s @ '');'') = Some (to_dec h @ '' downto 0'')"
    by (simp add: match_bounds_def py_slice_def) (simp add: s_def)
  moreover have "split_on (CHR '' '') [] (to_dec h @ '' downto 0'') = [to_dec h, ''downto'', ''0'']"
    using split_on_append [of "CHR '' ''" "to_dec h" "[]" "''downto 0''"] to_dec_not [of "CHR '' ''" h] by auto
  moreover have "py_int 10 ''0'' = Inr 0" using py_int_dec [of 0] by (simp add: to_dec_0)
  ultimately show ?thesis by (simp add: vector_of_def shape)
qed

lemma port_parts:
  assumes "port_ok p" and that: "t = '''' \<or> t = '';''"
  shows "split_on (CHR '':'') [] (port_text p @ t) = [fst p @ '' '', port_type_text p @ t]"
proof -
  obtain name dir hi where p: "p = (name, dir, hi)" by (cases p)
  have name: "CHR '':'' \<notin> set name"
    using assms word_char_not by (auto simp: p port_ok_def list_all_iff)
  have "CHR '':'' \<notin> set (port_type_text p @ t)"
    using that by (auto simp: p port_type_text_def dest: to_dec_not split: option.splits)
  then have "split_on (CHR '':'') [] (port_type_text p @ t) = [port_type_text p @ t]" by (simp add: split_on_none)
  moreover have "split_on (CHR '':'') [] ((name @ '' '') @ CHR '':'' # (port_type_text p @ t)) =
      (name @ '' '') # split_on (CHR '':'') [] (port_type_text p @ t)"
    using split_on_append [of "CHR '':''" "name @ '' ''" "[]" "port_type_text p @ t"] name by simp
  ultimately show ?thesis by (simp add: port_text_def p)
qed

lemma strip_token: "s \<noteq> [] \<Longrightarrow> \<not> is_space (hd s) \<Longrightarrow> \<not> is_space (List.last s) \<Longrightarrow>
  list_all is_space w \<Longrightarrow> list_all is_space v \<Longrightarrow> py_strip (w @ s @ v) = s"
proof -
  assume s: "s \<noteq> []" "\<not> is_space (hd s)" "\<not> is_space (List.last s)" and w: "list_all is_space w" "list_all is_space v"
  have "dropWhile is_space (w @ s @ v) = s @ v"
    using s(1,2) w(1) by (cases s) (simp_all add: dropWhile_append list_all_iff)
  moreover have "dropWhile is_space (rev (s @ v)) = rev s"
    using s(1,3) w(2) by (cases s rule: rev_cases) (simp_all add: dropWhile_append list_all_iff)
  ultimately show ?thesis by (simp add: py_strip_def)
qed

lemma strip_name: "port_ok p \<Longrightarrow> py_strip (fst p @ '' '') = fst p"
proof -
  assume "port_ok p"
  then have n: "fst p \<noteq> []" "\<forall>c \<in> set (fst p). \<not> is_space c"
    using word_char_not by (auto simp: port_ok_def list_all_iff)
  then show ?thesis using strip_token [of "fst p" "[]" "'' ''"] by (simp add: is_space_def)
qed

lemma port_entity_scalar_or_vector:
  assumes "port_ok p" and t: "t = '';'' \<or> t = '''' \<and> snd (snd p) = None"
  shows "port_entity (port_text p @ t) = Inr (fst p @ '' '', entity_of p)"
proof -
  obtain name dir hi where p: "p = (name, dir, hi)" by (cases p)
  have t': "t = '''' \<or> t = '';''" using t by auto
  have dir: "(if has_sub ''in '' (port_type_text p @ t) then DIR_IN else DIR_OUT) = dir"
    using direction_text [OF t', of name dir hi] by (cases dir) (simp_all add: p)
  have vec: "(if has_sub ''std_logic_vector'' (port_type_text p @ t) then vector_of (port_type_text p @ t) else Inr (None, None)) =
      Inr (map_option (\<lambda>h. DESCENDING) hi, map_option (\<lambda>h. int h + 1) hi)"
    using vector_text [OF t', of name dir hi] vector_bounds t by (cases hi) (auto simp: p)
  have sub: "has_sub ''std_logic_vector'' (port_type_text p @ t) \<longleftrightarrow> hi \<noteq> None"
    using vector_text [OF t', of name dir hi] by (simp add: p)
  have con: "get_connector_name dir (fst p) = Inr (connector p)" "py_strip (fst p @ '' '') = fst p"
    using strip_name [OF assms(1)] connector_name [of name dir hi] assms(1) by (simp_all add: p)
  have "port_entity (port_text p @ t) = bind_result (Inr (map_option (\<lambda>h. DESCENDING) hi, map_option (\<lambda>h. int h + 1) hi)) (\<lambda>(vt, sz).
      bind_result (get_connector_name dir (py_strip (fst p @ '' ''))) (\<lambda>name. Inr (fst p @ '' '',
        \<lparr>en_name = name, en_port = py_strip (fst p @ '' ''), en_dir = dir,
         en_type = (if hi \<noteq> None then VECTOR else SCALAR), en_vtype = vt, en_size = sz\<rparr>)))"
    unfolding port_entity_def port_parts [OF assms(1) t'] list.case Let_def dir vec unfolding sub ..
  then show ?thesis unfolding con by (cases hi) (simp_all add: p entity_of_def)
qed

lemma port_entity_unclosed:
  assumes "port_ok (name, dir, Some h)"
  shows "port_entity (port_text (name, dir, Some h)) = Inl AttributeError"
proof -
  have "CHR '';'' \<notin> set (to_dec h)" using to_dec_chars [of "CHR '';''" h] by (auto simp: is_digit_def)
  then have "CHR '';'' \<notin> set (port_type_text (name, dir, Some h))" by (simp add: port_type_text_def)
  then have "match_bounds (port_type_text (name, dir, Some h)) = None" by (simp add: match_bounds_def last_at_pair)
  then have "vector_of (port_type_text (name, dir, Some h)) = Inl AttributeError" by (simp add: vector_of_def)
  then show ?thesis
    using port_parts [OF assms, of "''''"] vector_text [of "''''" name dir "Some h"]
    by (simp add: port_entity_def Let_def)
qed

section \<open>The lines of the entity\<close>

lemma port_not_keyword:
  assumes "port_ok p"
  shows "\<not> starts ''port ('' (port_text p @ t)" "\<not> starts '');'' (port_text p @ t)"
proof -
  have w: "\<forall>c \<in> set (fst p). word_char c" "fst p \<noteq> []" using assms by (simp_all add: port_ok_def list_all_iff)
  have no: "\<not> word_char (CHR ''('')" "\<not> word_char (CHR '' '')" "\<not> word_char (CHR '')'')" by (simp_all add: word_char_def is_digit_def)
  show "\<not> starts '');'' (port_text p @ t)"
    using w no by (cases "fst p") (auto simp: starts_def port_text_def)
  show "\<not> starts ''port ('' (port_text p @ t)"
  proof
    assume "starts ''port ('' (port_text p @ t)"
    moreover have "length ''port ('' = 6" by simp
    ultimately have "take 6 (port_text p @ t) = ''port (''" unfolding starts_def by (simp only:)
    then have eq: "take 6 (port_text p @ t) ! i = ''port ('' ! i" for i by (simp only:)
    have at: "''port ('' ! i \<noteq> CHR '' ''" if "i < 4" for i :: nat
      using that by (auto simp: less_Suc_eq numeral_eq_Suc)
    show False
    proof (cases "length (fst p) \<le> 4")
      case True
      then have "CHR '' '' = ''port ('' ! length (fst p)" "CHR '':'' = ''port ('' ! Suc (length (fst p))"
        using eq [of "length (fst p)"] eq [of "Suc (length (fst p))"] by (simp_all add: port_text_def nth_append)
      then show False using at [of "length (fst p)"] True by (cases "length (fst p) = 4") auto
    next
      case False
      then have "fst p ! 4 = CHR '' ''" using eq [of 4] by (simp add: port_text_def nth_append)
      then show False using w no False by (metis linorder_not_le nth_mem)
    qed
  qed
qed

lemma port_strip:
  assumes "port_ok p" and "t = '''' \<or> t = '';''"
  shows "py_strip (tabs 3 @ port_text p @ t) = port_text p @ t"
proof -
  obtain name dir hi where p: "p = (name, dir, hi)" by (cases p)
  have n: "name \<noteq> []" "\<not> is_space (hd name)" using assms(1) word_char_not by (auto simp: p port_ok_def list_all_iff)
  have "\<not> is_space (List.last (port_text p @ t))"
    using assms(2) by (cases hi) (auto simp: p port_text_def port_type_text_def is_space_def)
  then show ?thesis
    using strip_token [of "port_text p @ t" "tabs 3" "[]"] n
    by (simp add: p port_text_def tabs_def list_all_iff is_space_def)
qed

lemma read_port_line:
  assumes "port_ok p" "t = '''' \<or> t = '';''"
  shows "read_lines ((tabs 3 @ port_text p @ t) # ls) tgt True d =
    bind_result (port_entity (port_text p @ t)) (\<lambda>(k, e). read_lines ls tgt True (AList.update k e d))"
  using port_not_keyword [OF assms(1), of t] port_strip [OF assms]
  by (simp add: starts_def tabs_def numeral_eq_Suc)

definition port_entry :: "vhdl_port \<Rightarrow> string \<times> entity" where
  "port_entry p = (fst p @ '' '', entity_of p)"

lemma read_ports:
  "list_all port_ok ps \<Longrightarrow> distinct (map fst ps) \<Longrightarrow> (\<lambda>p. fst p @ '' '') ` set ps \<inter> fst ` set d = {} \<Longrightarrow>
   read_lines (map (\<lambda>p. tabs 3 @ port_text p @ '';'') ps @ ls) tgt True d = read_lines ls tgt True (d @ map port_entry ps)"
proof (induction ps arbitrary: d)
  case (Cons p ps)
  have "AList.update (fst p @ '' '') (entity_of p) d = d @ [port_entry p]"
    using Cons.prems(3) by (subst update_new) (auto simp: port_entry_def)
  moreover have "(\<lambda>p. fst p @ '' '') ` set ps \<inter> fst ` set (d @ [port_entry p]) = {}"
    using Cons.prems(2,3) by (auto simp: port_entry_def)
  ultimately show ?case using Cons port_entity_scalar_or_vector [of p "'';''"]
    by (simp add: read_port_line del: read_lines.simps)
qed simp

lemma read_wrapper:
  assumes ps: "list_all port_ok (ps @ [q])" "distinct (map fst (ps @ [q]))"
    and name: "name \<noteq> []" "CHR '' '' \<notin> set name"
  shows "read_lines (wrapper_lines name ps q @ ls) None False [] =
    bind_result (port_entity (port_text q)) (\<lambda>(k, e). Inr (Some name, AList.update k e (map port_entry ps)))"
proof -
  have nm: "split_on (CHR '' '') [] (''entity '' @ name @ '' is'') = [''entity'', name, ''is'']"
    using split_on_append [of "CHR '' ''" name "[]" "''is''"] name(2) by simp
  have port: "read_lines ((tabs 2 @ ''port ('') # l) tgt True d = read_lines l tgt True d" for l tgt d
    using strip_token [of "''port (''" "tabs 2" "[]"] by (simp add: starts_def tabs_def numeral_eq_Suc is_space_def)
  have close: "read_lines ((tabs 2 @ '');'') # l) tgt True d = read_lines l tgt True d" for l tgt d
    using strip_token [of "'');''" "tabs 2" "[]"] by (simp add: starts_def tabs_def numeral_eq_Suc is_space_def)
  have "starts (''end '' @ name @ '';'') (''end '' @ name @ '';'')" by (simp add: starts_def)
  then have finish: "read_lines ((''end '' @ name @ '';'') # l) (Some name) True d = Inr (Some name, d)" for l d
    by (simp add: starts_def [of "''entity''"])
  have q: "read_lines ((tabs 3 @ port_text q) # l) tgt True d =
      bind_result (port_entity (port_text q)) (\<lambda>(k, e). read_lines l tgt True (AList.update k e d))" for l tgt d
    using read_port_line [of q "''''" l tgt d] ps(1) by simp
  have "read_lines (wrapper_lines name ps q @ ls) None False [] =
      read_lines ((tabs 2 @ ''port ('') # map (\<lambda>p. tabs 3 @ port_text p @ '';'') ps
        @ (tabs 3 @ port_text q) # (tabs 2 @ '');'') # (''end '' @ name @ '';'') # ls) (Some name) True []"
    by (simp add: wrapper_lines_def nm [simplified] starts_def py_index_def)
  also have "\<dots> = read_lines ((tabs 3 @ port_text q) # (tabs 2 @ '');'') # (''end '' @ name @ '';'') # ls)
      (Some name) True (map port_entry ps)"
    unfolding port using read_ports [of ps "[]"] ps by simp
  also have "\<dots> = bind_result (port_entity (port_text q)) (\<lambda>(k, e). Inr (Some name, AList.update k e (map port_entry ps)))"
    unfolding q close finish ..
  finally show ?thesis .
qed

text \<open>What the program should print for a port, and for the list of ports.\<close>

definition decl_text :: "vhdl_port \<Rightarrow> string" where
  "decl_text p = (case p of (name, dir, hi) \<Rightarrow>
     ''    '' @ (if dir = DIR_IN then ''reg    '' else ''wire   '') @
     (case hi of None \<Rightarrow> ''       '' | Some h \<Rightarrow> ''['' @ pad_left 2 (to_dec h) @ '':0] '') @ ''   '' @ connector p @ '';'')"

definition connect_text :: "bool \<Rightarrow> vhdl_port \<Rightarrow> string" where
  "connect_text final p = ''        .'' @ fst p @ ''('' @ connector p @ '')'' @ (if final then '''' else '','')"

lemma entity_fields: "en_port (entity_of p) = fst p" "en_name (entity_of p) = connector p"
  by (cases p; simp add: entity_of_def)+

lemma connections_ports: "connections (map entity_of (ps @ [q])) = map (connect_text False) ps @ [connect_text True q]"
proof (induction ps)
  case Nil
  then show ?case by (simp add: connect_text_def entity_fields)
next
  case (Cons p ps)
  then obtain e es where "map entity_of (ps @ [q]) = e # es" by (cases "map entity_of (ps @ [q])") auto
  then show ?case using Cons by (simp add: connect_text_def entity_fields)
qed

lemma declare_port_text: "declare_port (entity_of p) = Inr (decl_text p)"
  by (cases p; cases "snd (snd p)") (auto simp: entity_of_def declare_port_def decl_text_def to_sdec_def Let_def eval_nat_numeral)

lemma declare_ports: "map_result declare_port (map entity_of ps) = Inr (map decl_text ps)"
  by (induction ps) (simp_all add: declare_port_text)

lemma wrapper_split:
  assumes "list_all port_ok (ps @ [q])" "CHR 10 \<notin> set name" "CHR 13 \<notin> set name" "CHR 13 \<notin> set rest"
  shows "split_on (CHR 10) [] (text_mode (wrapper_text name ps q rest)) = wrapper_lines name ps q @ split_on (CHR 10) [] rest"
proof -
  have "c \<notin> set (port_text p)" if "port_ok p" "c = CHR 10 \<or> c = CHR 13" for p c
  proof -
    obtain nm dir hi where p: "p = (nm, dir, hi)" by (cases p)
    have "c \<notin> set nm" using that word_char_not by (auto simp: p port_ok_def list_all_iff)
    then show ?thesis using that(2) by (cases hi) (auto simp: p port_text_def port_type_text_def dest: to_dec_not)
  qed
  then have lines: "list_all (\<lambda>l. CHR 10 \<notin> set l \<and> CHR 13 \<notin> set l) (wrapper_lines name ps q)"
    using assms by (auto simp: wrapper_lines_def tabs_def list_all_iff)
  then have "CHR 13 \<notin> set (wrapper_text name ps q rest)"
    using assms(4) by (auto simp: wrapper_text_def list_all_iff)
  then show ?thesis using lines
    by (simp add: text_mode_id wrapper_text_def split_on_lines list_all_iff)
qed

section \<open>Properties\<close>

definition wrapper_ok :: "string \<Rightarrow> vhdl_port list \<Rightarrow> vhdl_port \<Rightarrow> string \<Rightarrow> bool" where
  "wrapper_ok name ps q rest \<longleftrightarrow> list_all port_ok (ps @ [q]) \<and> distinct (map fst (ps @ [q])) \<and> name \<noteq> [] \<and>
     CHR '' '' \<notin> set name \<and> CHR 10 \<notin> set name \<and> CHR 13 \<notin> set name \<and> CHR 13 \<notin> set rest"


text \<open>A wrapper whose last port is a vector, with no semicolon after it as VHDL has it, stops parse.py
  with an AttributeError before any declaration is printed.\<close>
theorem last_vector_fails:
  assumes "wrapper_ok name ps (nm, dir, Some h) rest"
  shows "parse_main [fin] (Some (wrapper_text name ps (nm, dir, Some h) rest)) = Inl AttributeError"
proof -
  let ?q = "(nm, dir, Some h)"
  have ok: "list_all port_ok (ps @ [?q])" "distinct (map fst (ps @ [?q]))" "name \<noteq> []" "CHR '' '' \<notin> set name"
    "CHR 10 \<notin> set name" "CHR 13 \<notin> set name" "CHR 13 \<notin> set rest"
    using assms(1) by (simp_all add: wrapper_ok_def)
  have "port_entity (port_text ?q) = Inl AttributeError" by (rule port_entity_unclosed) (use ok(1) in simp)
  then have "read_lines (wrapper_lines name ps ?q @ split_on (CHR 10) [] rest) None False [] = Inl AttributeError"
    using read_wrapper [OF ok(1,2,3,4)] by simp
  then show ?thesis
    unfolding parse_main_def list.case option.case Let_def wrapper_split [OF ok(1,5,6,7)]
    by (simp only: bind_result_simps)
qed

text \<open>A small wrapper.\<close>

definition example_ports :: "vhdl_port list" where
  "example_ports = [(''reset'', DIR_IN, None), (''ctrlind_04_TREADY'', DIR_OUT, Some 0), (''ctrlind_13_TDATA'', DIR_IN, Some 63)]"

lemma example_wrapper: "wrapper_ok ''ip'' example_ports (''Clk40'', DIR_IN, None) rest \<longleftrightarrow> CHR 13 \<notin> set rest"
  "wrapper_ok ''ip'' example_ports (''A'', DIR_IN, Some 7) rest \<longleftrightarrow> CHR 13 \<notin> set rest"
proof -
  have "list_all port_ok (example_ports @ [(''Clk40'', DIR_IN, None)])" "list_all port_ok (example_ports @ [(''A'', DIR_IN, Some 7)])"
    by code_simp+
  then show "wrapper_ok ''ip'' example_ports (''Clk40'', DIR_IN, None) rest \<longleftrightarrow> CHR 13 \<notin> set rest"
    "wrapper_ok ''ip'' example_ports (''A'', DIR_IN, Some 7) rest \<longleftrightarrow> CHR 13 \<notin> set rest"
    by (simp_all add: wrapper_ok_def example_ports_def)
qed


theorem last_vector_fails_witness:
  "parse_main [''w.vhd''] (Some (wrapper_text ''ip'' example_ports (''A'', DIR_IN, Some 7) [])) = Inl AttributeError"
  by (rule last_vector_fails) (simp add: example_wrapper(2))

end
