(* ===== verification/Pitch_Pcap.thy ===== *)
theory Pitch_Pcap
  imports Pcap_Files Capture_Text
begin

text \<open>
  The packet tools: \<open>build\<close> of \<open>scripts/gen_pitch_pcap.py\<close>, which packs the messages of a generator into
  units of a bounded size, the audit text it writes beside the capture file, and \<open>payloads\<close> with the
  sending loop of \<open>scripts/send_pcap_udp.py\<close>. The cboe_pitch library is a parameter: the generator is a
  state with a step that may give a message, and the operations on a unit are the fields of a record;
  what the program relies on of them is the predicate \<open>unit_laws\<close>.
\<close>

section \<open>The library's operations\<close>

record ('h, 'm) unit_lib =
  ul_new :: "nat \<Rightarrow> 'h"
  ul_add :: "'h \<Rightarrow> 'm \<Rightarrow> 'h"
  ul_length :: "'h \<Rightarrow> nat"
  ul_next :: "'h \<Rightarrow> nat"
  ul_messages :: "'h \<Rightarrow> 'm list"
  ul_sequence :: "'h \<Rightarrow> nat"
  ul_count :: "'h \<Rightarrow> nat"
  ul_all_bytes :: "'h \<Rightarrow> int list"
  ul_bytes :: "'h \<Rightarrow> int list"
  ul_str :: "'h \<Rightarrow> string"
  um_length :: "'m \<Rightarrow> nat"
  um_bytes :: "'m \<Rightarrow> int list"
  um_str :: "'m \<Rightarrow> string"

text \<open>A unit holds the messages added to it in order; it has eight bytes more than they have, and the
  sequence number behind it counts them.\<close>

definition unit_laws :: "('h, 'm) unit_lib \<Rightarrow> bool" where
  "unit_laws L \<longleftrightarrow>
     (\<forall>s. ul_messages L (ul_new L s) = [] \<and> ul_sequence L (ul_new L s) = s) \<and>
     (\<forall>h m. ul_messages L (ul_add L h m) = ul_messages L h @ [m] \<and> ul_sequence L (ul_add L h m) = ul_sequence L h) \<and>
     (\<forall>h. ul_length L h = 8 + sum_list (map (um_length L) (ul_messages L h)) \<and>
          ul_count L h = length (ul_messages L h) \<and>
          ul_next L h = ul_sequence L h + length (ul_messages L h))"

section \<open>The code\<close>

text \<open>The loop of \<open>build\<close>; \<open>None\<close> when it never ends.\<close>

partial_function (option) build_loop ::
    "('h, 'm) unit_lib \<Rightarrow> ('g \<Rightarrow> 'm option \<times> 'g) \<Rightarrow> nat \<Rightarrow> nat \<Rightarrow> 'g \<Rightarrow> 'h list \<Rightarrow> 'h \<Rightarrow> ('h list \<times> 'g) option" where
  "build_loop L gen num_frames max_payload g frames hdr =
     (if length frames < num_frames then
        (case gen g of
           (None, g') \<Rightarrow> build_loop L gen num_frames max_payload g' frames hdr
         | (Some msg, g') \<Rightarrow>
             if ul_length L hdr + um_length L msg > max_payload then
               build_loop L gen num_frames max_payload g' (frames @ [hdr]) (ul_add L (ul_new L (ul_next L hdr)) msg)
             else build_loop L gen num_frames max_payload g' frames (ul_add L hdr msg))
      else Some (frames, g))"

definition build_units :: "('h, 'm) unit_lib \<Rightarrow> ('g \<Rightarrow> 'm option \<times> 'g) \<Rightarrow> nat \<Rightarrow> nat \<Rightarrow> 'g \<Rightarrow> ('h list \<times> 'g) option" where
  "build_units L gen num_frames max_payload g = build_loop L gen num_frames max_payload g [] (ul_new L 1)"

text \<open>The audit text.\<close>

definition byte_row :: "int list \<Rightarrow> string" where
  "byte_row row =
     join_with '' '' (map (\<lambda>x. to_hex 2 (nat x)) (py_slice 0 4 row)) @ ''    ''
     @ join_with '' '' (map (\<lambda>x. to_hex 2 (nat x)) (py_slice 4 8 row))"

function byte_rows :: "int list \<Rightarrow> nat \<Rightarrow> string list" where
  "byte_rows mb r = (if r < length mb then (''         '' @ byte_row (py_slice r (r + 8) mb)) # byte_rows mb (r + 8) else [])"
  by pat_completeness auto
termination by (relation "measure (\<lambda>(mb, r). length mb - r)") auto

declare byte_rows.simps [simp del]

fun message_lines :: "('h, 'm) unit_lib \<Rightarrow> nat \<Rightarrow> 'm list \<Rightarrow> string list" where
  "message_lines L idx [] = []"
| "message_lines L idx (msg # msgs) =
     (''  - ['' @ to_dec idx @ ''] '' @ um_str L msg @ '', length='' @ to_dec (length (um_bytes L msg)))
     # byte_rows (um_bytes L msg) 0 @ message_lines L (idx + 1) msgs"

definition audit_lines :: "('h, 'm) unit_lib \<Rightarrow> 'h list \<Rightarrow> string list" where
  "audit_lines L frames = concat (map (\<lambda>hdr.
     [ul_str L hdr @ '', get_all_bytes length: '' @ to_dec (length (ul_all_bytes L hdr)),
      ''        '' @ byte_row (py_slice 0 8 (ul_bytes L hdr))] @ message_lines L 0 (ul_messages L hdr)) frames)"

definition audit_text :: "('h, 'm) unit_lib \<Rightarrow> 'h list \<Rightarrow> string" where
  "audit_text L frames = join_lines (audit_lines L frames) @ [CHR 10]"

text \<open>The sequence numbers \<open>main\<close> prints, from the first unit's to the last message's.\<close>

definition sequence_range :: "('h, 'm) unit_lib \<Rightarrow> 'h list \<Rightarrow> (int \<times> int) py_result" where
  "sequence_range L frames =
     bind_result (py_index frames 0) (\<lambda>a. bind_result (py_index frames (-1)) (\<lambda>z.
       Inr (int (ul_sequence L a), int (ul_sequence L z) + int (ul_count L z) - 1)))"

text \<open>The datagrams \<open>send_pcap_udp.py\<close> sends, and the exception that ends the sending.\<close>

definition frame_datagram :: "int list \<Rightarrow> int list py_result" where
  "frame_datagram frame = bind_result (py_index frame 14) (\<lambda>b.
     let ihl = nat (b AND 0xF) * 4 in Inr (drop (14 + ihl + 8) frame))"

fun send_frames :: "int list list \<Rightarrow> int list list \<times> py_exn option" where
  "send_frames [] = ([], None)"
| "send_frames (frame # frames) = (case frame_datagram frame of
     Inl e \<Rightarrow> ([], Some e)
   | Inr p \<Rightarrow> (let (sent, e) = send_frames frames in (p # sent, e)))"

definition send_pcap :: "int list \<Rightarrow> int list list \<times> py_exn option" where
  "send_pcap d = send_frames (pcap_frames d)"

section \<open>Packing\<close>

text \<open>The messages the generator gives in its next \<open>n\<close> calls, and its state then.\<close>

fun pulls :: "('g \<Rightarrow> 'm option \<times> 'g) \<Rightarrow> nat \<Rightarrow> 'g \<Rightarrow> 'm list \<times> 'g" where
  "pulls gen 0 g = ([], g)"
| "pulls gen (Suc n) g =
     (let (m, g1) = gen g; (ms, g2) = pulls gen n g1 in ((case m of None \<Rightarrow> ms | Some x \<Rightarrow> x # ms), g2))"

lemma pulls_append:
  "pulls gen n g = (ms, g1) \<Longrightarrow> pulls gen k g1 = (ms', g2) \<Longrightarrow> pulls gen (n + k) g = (ms @ ms', g2)"
proof (induction n arbitrary: g ms)
  case (Suc n)
  obtain m g0 where m: "gen g = (m, g0)" by (cases "gen g")
  obtain l gl where l: "pulls gen n g0 = (l, gl)" by (cases "pulls gen n g0")
  then show ?case using Suc m by (cases m) (auto simp: Let_def)
qed simp

definition keeps_giving :: "('g \<Rightarrow> 'm option \<times> 'g) \<Rightarrow> bool" where
  "keeps_giving gen \<longleftrightarrow> (\<forall>g. \<exists>n g0 m g'. pulls gen n g = ([], g0) \<and> gen g0 = (Some m, g'))"

lemma build_silent:
  "length frames < num \<Longrightarrow> pulls gen n g = ([], g') \<Longrightarrow>
   build_loop L gen num maxp g frames hdr = build_loop L gen num maxp g' frames hdr"
proof (induction n arbitrary: g)
  case (Suc n)
  obtain m g1 where m: "gen g = (m, g1)" by (cases "gen g")
  obtain ms g2 where ms: "pulls gen n g1 = (ms, g2)" by (cases "pulls gen n g1")
  have "m = None" "ms = []" "g2 = g'" using Suc.prems(2) m ms by (auto simp: Let_def split: option.splits)
  then show ?case using Suc m ms by (subst build_loop.simps) simp
qed simp

lemma build_message:
  assumes "length frames < num" and "pulls gen n g = ([], g0)" and "gen g0 = (Some m, g')"
  shows "build_loop L gen num maxp g frames hdr =
    (if ul_length L hdr + um_length L m > maxp
     then build_loop L gen num maxp g' (frames @ [hdr]) (ul_add L (ul_new L (ul_next L hdr)) m)
     else build_loop L gen num maxp g' frames (ul_add L hdr m))"
  unfolding build_silent [OF assms(1,2)] by (subst build_loop.simps) (simp add: assms)

text \<open>Sizes that fit: no message is empty, and a unit with one message is not too long.\<close>

definition sizes_fit :: "('h, 'm) unit_lib \<Rightarrow> ('g \<Rightarrow> 'm option \<times> 'g) \<Rightarrow> nat \<Rightarrow> bool" where
  "sizes_fit L gen maxp \<longleftrightarrow> (\<forall>g m g'. gen g = (Some m, g') \<longrightarrow> 0 < um_length L m \<and> 8 + um_length L m \<le> maxp)"

lemma unit_add:
  assumes "unit_laws L"
  shows "ul_messages L (ul_add L h m) = ul_messages L h @ [m]" "ul_sequence L (ul_add L h m) = ul_sequence L h"
    "ul_length L (ul_add L h m) = ul_length L h + um_length L m"
    "ul_messages L (ul_new L s) = []" "ul_sequence L (ul_new L s) = s" "ul_length L (ul_new L s) = 8"
    "ul_next L h = ul_sequence L h + length (ul_messages L h)" "ul_count L h = length (ul_messages L h)"
proof -
  have len: "ul_length L h = 8 + sum_list (map (um_length L) (ul_messages L h))" for h
    using assms by (simp add: unit_laws_def)
  show add: "ul_messages L (ul_add L h m) = ul_messages L h @ [m]" "ul_sequence L (ul_add L h m) = ul_sequence L h"
    "ul_messages L (ul_new L s) = []" "ul_sequence L (ul_new L s) = s"
    "ul_next L h = ul_sequence L h + length (ul_messages L h)" "ul_count L h = length (ul_messages L h)"
    using assms by (simp_all add: unit_laws_def)
  show "ul_length L (ul_add L h m) = ul_length L h + um_length L m" "ul_length L (ul_new L s) = 8"
    by (simp_all add: len add)
qed

text \<open>One unit: the loop goes on until a message does not fit any more.\<close>

lemma build_unit:
  assumes laws: "unit_laws L" and giving: "keeps_giving gen" and sizes: "sizes_fit L gen maxp"
    and num: "length frames < num" and "ul_length L hdr \<le> maxp"
  shows "\<exists>n ms m g' u. pulls gen n g = (ms @ [m], g') \<and>
    build_loop L gen num maxp g frames hdr =
      build_loop L gen num maxp g' (frames @ [u]) (ul_add L (ul_new L (ul_next L u)) m) \<and>
    ul_messages L u = ul_messages L hdr @ ms \<and> ul_sequence L u = ul_sequence L hdr \<and>
    ul_length L u \<le> maxp \<and> maxp < ul_length L u + um_length L m \<and> 8 + um_length L m \<le> maxp"
  using assms(5)
proof (induction "maxp - ul_length L hdr" arbitrary: g hdr rule: less_induct)
  case less
  obtain n g0 m g' where pull: "pulls gen n g = ([], g0)" "gen g0 = (Some m, g')"
    using giving unfolding keeps_giving_def by metis
  have m: "0 < um_length L m" "8 + um_length L m \<le> maxp" using sizes pull(2) unfolding sizes_fit_def by blast+
  have one: "pulls gen (n + 1) g = ([m], g')" using pulls_append [OF pull(1), of 1 "[m]" g'] pull(2) by simp
  note step = build_message [OF num pull, of L maxp hdr]
  show ?case
  proof (cases "ul_length L hdr + um_length L m > maxp")
    case True
    then show ?thesis using one step m(2) less.prems
      by (intro exI [of _ "n + 1"] exI [of _ "[]"] exI [of _ m] exI [of _ g'] exI [of _ hdr]) simp
  next
    case False
    note add = unit_add [OF laws]
    let ?h = "ul_add L hdr m"
    have "maxp - ul_length L ?h < maxp - ul_length L hdr" "ul_length L ?h \<le> maxp" using False m(1) by (simp_all add: add)
    from less.hyps [OF this] obtain n2 ms m2 g2 u where
      u: "pulls gen n2 g' = (ms @ [m2], g2)"
      "build_loop L gen num maxp g' frames ?h = build_loop L gen num maxp g2 (frames @ [u]) (ul_add L (ul_new L (ul_next L u)) m2)"
      "ul_messages L u = ul_messages L ?h @ ms" "ul_sequence L u = ul_sequence L ?h"
      "ul_length L u \<le> maxp" "maxp < ul_length L u + um_length L m2" "8 + um_length L m2 \<le> maxp" by blast
    show ?thesis using pulls_append [OF one u(1)] step False u(2-7) add
      by (intro exI [of _ "n + 1 + n2"] exI [of _ "m # ms"] exI [of _ m2] exI [of _ g2] exI [of _ u]) simp
  qed
qed

text \<open>Sequence numbers that continue from unit to unit.\<close>

fun contiguous :: "('h, 'm) unit_lib \<Rightarrow> nat \<Rightarrow> 'h list \<Rightarrow> bool" where
  "contiguous L s [] = True"
| "contiguous L s (u # us) = (ul_sequence L u = s \<and> contiguous L (s + length (ul_messages L u)) us)"

definition good_unit :: "('h, 'm) unit_lib \<Rightarrow> nat \<Rightarrow> 'h \<Rightarrow> bool" where
  "good_unit L maxp u \<longleftrightarrow> ul_messages L u \<noteq> [] \<and> ul_length L u \<le> maxp"

lemma build_loop_units:
  assumes laws: "unit_laws L" and giving: "keeps_giving gen" and sizes: "sizes_fit L gen maxp"
  shows "length frames \<le> num \<Longrightarrow> ul_length L hdr \<le> maxp \<Longrightarrow>
    \<exists>n ms g' us rest. build_loop L gen num maxp g frames hdr = Some (frames @ us, g') \<and> length us = num - length frames \<and>
      pulls gen n g = (ms, g') \<and> ul_messages L hdr @ ms = concat (map (ul_messages L) us) @ rest \<and>
      (length frames < num \<longrightarrow> length rest = 1) \<and> (length frames = num \<longrightarrow> ms = []) \<and>
      list_all (good_unit L maxp) us \<and> contiguous L (ul_sequence L hdr) us"
proof (induction "num - length frames" arbitrary: frames hdr g)
  case 0
  then have "build_loop L gen num maxp g frames hdr = Some (frames, g)" by (subst build_loop.simps) simp
  then show ?case using 0
    by (intro exI [of _ 0] exI [of _ "[]"] exI [of _ g] exI [of _ "[]"] exI [of _ "ul_messages L hdr"]) simp
next
  case (Suc k)
  then have num: "length frames < num" by simp
  note add = unit_add [OF laws]
  from build_unit [OF assms num Suc.prems(2)] obtain n ms m g1 u where
    u: "pulls gen n g = (ms @ [m], g1)"
    "build_loop L gen num maxp g frames hdr = build_loop L gen num maxp g1 (frames @ [u]) (ul_add L (ul_new L (ul_next L u)) m)"
    "ul_messages L u = ul_messages L hdr @ ms" "ul_sequence L u = ul_sequence L hdr"
    "ul_length L u \<le> maxp" "maxp < ul_length L u + um_length L m" "8 + um_length L m \<le> maxp" by blast
  let ?h = "ul_add L (ul_new L (ul_next L u)) m"
  have k: "k = num - length (frames @ [u])" "length (frames @ [u]) \<le> num" "ul_length L ?h \<le> maxp"
    using Suc.hyps(2) num u(7) by (simp_all add: add)
  from Suc.hyps(1) [OF k] obtain n2 ms2 g2 us rest where
    r: "build_loop L gen num maxp g1 (frames @ [u]) ?h = Some ((frames @ [u]) @ us, g2)" "length us = num - length (frames @ [u])"
    "pulls gen n2 g1 = (ms2, g2)" "ul_messages L ?h @ ms2 = concat (map (ul_messages L) us) @ rest"
    "length (frames @ [u]) < num \<longrightarrow> length rest = 1" "length (frames @ [u]) = num \<longrightarrow> ms2 = []"
    "list_all (good_unit L maxp) us" "contiguous L (ul_sequence L ?h) us" by blast
  have "ul_messages L u \<noteq> []"
  proof
    assume "ul_messages L u = []"
    then have "ul_length L u = 8" using laws by (simp add: unit_laws_def)
    then show False using u(6,7) by simp
  qed
  then have good: "good_unit L maxp u" using u(5) by (simp add: good_unit_def)
  have rest: "[m] @ ms2 = concat (map (ul_messages L) us) @ rest" using r(4) by (simp add: add)
  have one: "length rest = 1"
  proof (cases "length (frames @ [u]) < num")
    case False
    then have "us = []" "ms2 = []" using r(2,6) k(2) by auto
    then show ?thesis using rest by (auto dest: sym)
  qed (use r(5) in simp)
  have "contiguous L (ul_sequence L hdr) (u # us)" using r(8) u(4) by (simp add: add)
  moreover have "ul_messages L hdr @ ((ms @ [m]) @ ms2) = concat (map (ul_messages L) (u # us)) @ rest"
    using rest u(3) by simp
  moreover have "build_loop L gen num maxp g frames hdr = Some (frames @ (u # us), g2)" using u(2) r(1) by simp
  moreover have "length (u # us) = num - length frames" using r(2) num by simp
  ultimately show ?case using pulls_append [OF u(1) r(3)] good r(7) one num
    by (intro exI [of _ "n + n2"] exI [of _ "(ms @ [m]) @ ms2"] exI [of _ g2] exI [of _ "u # us"] exI [of _ rest]) simp
qed

lemma contiguous_last:
  "contiguous L s (us @ [u]) \<Longrightarrow> ul_sequence L u = s + length (concat (map (ul_messages L) us))"
  by (induction us arbitrary: s) (simp_all add: add.assoc)

section \<open>Properties\<close>

text \<open>C16. The generator tool finishes: as long as the library keeps giving messages and each fits into a unit
  of the maximal payload, \<open>build\<close> returns the requested number of units; none is empty, none is longer
  than the bound, their sequence numbers continue from 1, and together they hold exactly the messages
  generated, in order, except the last one, which did not fit and is dropped.\<close>
theorem build_returns:
  assumes "unit_laws L" and "keeps_giving gen" and "sizes_fit L gen maxp" and "8 \<le> maxp" and "0 < num"
  shows "\<exists>us g' n ms m. build_units L gen num maxp g = Some (us, g') \<and> length us = num \<and>
    pulls gen n g = (ms @ [m], g') \<and> concat (map (ul_messages L) us) = ms \<and>
    list_all (good_unit L maxp) us \<and> contiguous L 1 us"
proof -
  note add = unit_add [OF assms(1)]
  obtain n ms g' us rest where r: "build_units L gen num maxp g = Some (us, g')" "length us = num"
    "pulls gen n g = (ms, g')" "ms = concat (map (ul_messages L) us) @ rest" "length rest = 1"
    "list_all (good_unit L maxp) us" "contiguous L 1 us"
    using build_loop_units [OF assms(1-3), of "[]" num "ul_new L 1" g] assms(4,5) by (auto simp: build_units_def add)
  obtain m where "rest = [m]" using r(5) by (cases rest) auto
  then show ?thesis using r by (intro exI [of _ us] exI [of _ g'] exI [of _ n] exI [of _ "concat (map (ul_messages L) us)"] exI [of _ m]) simp
qed

text \<open>A library for the examples: a unit is its sequence number with its messages, a message its bytes; and
  a generator that gives nothing at every third call.\<close>

definition example_lib :: "(nat \<times> int list list, int list) unit_lib" where
  "example_lib = \<lparr>ul_new = (\<lambda>s. (s, [])), ul_add = (\<lambda>(s, ms) m. (s, ms @ [m])),
     ul_length = (\<lambda>(s, ms). 8 + sum_list (map length ms)), ul_next = (\<lambda>(s, ms). s + length ms), ul_messages = snd,
     ul_sequence = fst, ul_count = (\<lambda>(s, ms). length ms),
     ul_all_bytes = (\<lambda>(s, ms). to_le 2 (int (8 + sum_list (map length ms))) @ [int (length ms), 1] @ to_le 4 (int s) @ concat ms),
     ul_bytes = (\<lambda>(s, ms). to_le 2 (int (8 + sum_list (map length ms))) @ [int (length ms), 1] @ to_le 4 (int s)),
     ul_str = (\<lambda>(s, ms). to_dec s), um_length = length, um_bytes = id, um_str = hex_bytes\<rparr>"

definition example_gen :: "nat \<Rightarrow> int list option \<times> nat" where
  "example_gen k = (if k mod 3 = 0 then None else Some [6, 0x20, int k, 0, 0, 0], k + 1)"

lemma example_laws: "unit_laws example_lib" "keeps_giving example_gen" "sizes_fit example_lib example_gen 24"
proof -
  show "unit_laws example_lib" by (auto simp: unit_laws_def example_lib_def)
  show "sizes_fit example_lib example_gen 24" by (auto simp: sizes_fit_def example_lib_def example_gen_def split: if_splits)
  have "\<exists>n g0 m g'. pulls example_gen n g = ([], g0) \<and> example_gen g0 = (Some m, g')" for g
  proof (cases "g mod 3 = 0")
    case True
    then have "Suc g mod 3 \<noteq> 0" by (simp add: mod_Suc)
    then show ?thesis using True by (intro exI [of _ 1] exI [of _ "Suc g"]) (auto simp: example_gen_def)
  qed (intro exI [of _ 0] exI [of _ g], auto simp: example_gen_def)
  then show "keeps_giving example_gen" by (simp add: keeps_giving_def)
qed

theorem build_returns_witness:
  "\<exists>us g' n ms m. build_units example_lib example_gen 2 24 0 = Some (us, g') \<and> length us = 2 \<and>
    pulls example_gen n 0 = (ms @ [m], g') \<and> concat (map (ul_messages example_lib) us) = ms \<and>
    list_all (good_unit example_lib 24) us \<and> contiguous example_lib 1 us"
  by (rule build_returns [OF example_laws]) simp_all

text \<open>The bound is not kept for a message that is too long for a unit of its own: if it comes first, \<open>build\<close>
  emits an empty unit, a header without messages, and the unit that starts with the message, once
  emitted, is longer than the maximal payload.\<close>
theorem oversize_empty_unit:
  assumes "unit_laws L" and "pulls gen n g = ([], g0)" and "gen g0 = (Some m, g1)" and "maxp < 8 + um_length L m"
    and "pulls gen k g1 = ([], g2)" and "gen g2 = (Some m', g3)"
  shows "build_units L gen 1 maxp g = Some ([ul_new L 1], g1) \<and>
    build_units L gen 2 maxp g = Some ([ul_new L 1, ul_add L (ul_new L 1) m], g3) \<and>
    maxp < ul_length L (ul_add L (ul_new L 1) m)"
proof -
  note add = unit_add [OF assms(1)]
  have one: "build_units L gen num maxp g = build_loop L gen num maxp g1 [ul_new L 1] (ul_add L (ul_new L 1) m)" if "0 < num" for num
    using build_message [OF _ assms(2,3), of "[]" num L maxp "ul_new L 1"] that assms(4) by (simp add: build_units_def add)
  have "build_units L gen 1 maxp g = Some ([ul_new L 1], g1)"
    unfolding one [OF zero_less_one] by (subst build_loop.simps) simp
  moreover have "build_loop L gen 2 maxp g1 [ul_new L 1] (ul_add L (ul_new L 1) m) =
      Some ([ul_new L 1, ul_add L (ul_new L 1) m], g3)"
  proof -
    have "build_loop L gen 2 maxp g1 [ul_new L 1] (ul_add L (ul_new L 1) m) =
        build_loop L gen 2 maxp g3 ([ul_new L 1] @ [ul_add L (ul_new L 1) m])
          (ul_add L (ul_new L (ul_next L (ul_add L (ul_new L 1) m))) m')"
      using build_message [OF _ assms(5,6), of "[ul_new L 1]" 2 L maxp "ul_add L (ul_new L 1) m"] assms(4) by (simp add: add)
    then show ?thesis by (subst (asm) (2) build_loop.simps) simp
  qed
  ultimately show ?thesis using one [of 2] assms(4) by (simp add: add)
qed

theorem oversize_empty_unit_witness:
  "build_units example_lib example_gen 1 13 0 = Some ([(1, [])], 2) \<and>
   build_units example_lib example_gen 2 13 0 = Some ([(1, []), (1, [[6, 0x20, 1, 0, 0, 0]])], 3)"
proof -
  have "pulls example_gen 1 0 = ([], 1)" "example_gen 1 = (Some [6, 0x20, 1, 0, 0, 0], 2)"
    "pulls example_gen 0 2 = ([], 2)" "example_gen 2 = (Some [6, 0x20, 2, 0, 0, 0], 3)" by code_simp+
  from oversize_empty_unit [OF example_laws(1) this(1,2) _ this(3,4), of 13] show ?thesis
    by (simp add: example_lib_def)
qed

section \<open>Sending\<close>

definition plain_ip :: "int list \<Rightarrow> bool" where
  "plain_ip frame \<longleftrightarrow> 15 \<le> length frame \<and> (frame ! 14) AND 0xF = 5"

lemma plain_datagram: "plain_ip frame \<Longrightarrow> frame_datagram frame = Inr (drop 42 frame)"
  using py_index_nat [of 14 frame] by (simp add: frame_datagram_def plain_ip_def Let_def)

lemma send_plain:
  "list_all plain_ip frames \<Longrightarrow>
   send_frames (frames @ others) = (map (drop 42) frames @ fst (send_frames others), snd (send_frames others))"
  by (induction frames) (simp_all add: plain_datagram split_beta)

lemma payloads_drop:
  "map (\<lambda>(off, incl). record_payload d off incl) (pcap_spans (pcap_swapped d) d 24) = map (drop 42) (pcap_frames d)"
  by (auto simp: pcap_frames_def record_payload_def py_slice_def drop_take add.commute)

text \<open>The datagrams that send_pcap_udp.py sends from a capture whose frames have IPv4 headers of twenty
  bytes are, one per frame and in order, the payloads that the parser model and the scoring read from
  the same file, stray bytes at its end ignored; a frame of fewer than fifteen bytes ends the sending
  with an IndexError after the datagrams before it.\<close>
theorem sent_datagrams:
  assumes "wf_pcap hdr recs" and "length rest < 16" and "list_all (plain_ip \<circ> snd) recs"
    and "length short < 15" and "list_all plain_ip before"
  defines "d \<equiv> pcap_file hdr recs @ rest"
  shows "send_pcap d = (map (\<lambda>(off, incl). record_payload d off incl) (pcap_spans (pcap_swapped d) d 24), None) \<and>
    length (fst (send_pcap d)) = length recs \<and>
    send_frames (before @ short # after) = (map (drop 42) before, Some IndexError)"
proof (intro conjI)
  have frames: "pcap_frames d = map snd recs" unfolding d_def by (rule pcap_file_frames [OF assms(1,2)])
  have "list_all plain_ip (map snd recs)" using assms(3) by (simp add: list_all_iff)
  then have send: "send_pcap d = (map (drop 42) (map snd recs), None)"
    using send_plain [of "map snd recs" "[]"] by (simp add: send_pcap_def frames)
  then show "send_pcap d = (map (\<lambda>(off, incl). record_payload d off incl) (pcap_spans (pcap_swapped d) d 24), None)"
    unfolding payloads_drop frames .
  show "length (fst (send_pcap d)) = length recs" by (simp add: send)
  have "frame_datagram short = Inl IndexError"
    using assms(4) py_index_beyond [of short 14] by (simp add: frame_datagram_def)
  then show "send_frames (before @ short # after) = (map (drop 42) before, Some IndexError)"
    by (simp add: send_plain [OF assms(5)])
qed

theorem sent_datagrams_witness:
  "let d = pcap_file (replicate 20 0) [(replicate 8 0, replicate 14 1 @ [0x45] @ replicate 27 2 @ [7, 8, 9])] @ [1, 2]
   in fst (send_pcap d) = map (\<lambda>(off, incl). record_payload d off incl) (pcap_spans (pcap_swapped d) d 24) \<and>
      length (fst (send_pcap d)) = 1"
proof -
  let ?recs = "[(replicate 8 (0::int), replicate 14 1 @ [0x45] @ replicate 27 2 @ [7, 8, 9::int])]"
  have "wf_pcap (replicate 20 0) ?recs" by (simp add: wf_pcap_def)
  moreover have "list_all (plain_ip \<circ> snd) ?recs" by (simp add: plain_ip_def nth_append)
  moreover have "length ([1, 2]::int list) < 16" "length ([]::int list) < 15" "list_all plain_ip []" by simp_all
  ultimately show ?thesis
    using sent_datagrams [of "replicate 20 0" ?recs "[1, 2]" "[]" "[]" "[]"] unfolding Let_def by (metis fst_conv length_Cons list.size(3) One_nat_def)
qed

end
