(* ===== verification/Fifo_Broker.thy ===== *)
theory Fifo_Broker
  imports Fifo_Poller "HOL-Library.Sublist"
begin

text \<open>
  The subscriber side of \<open>scripts/fifo_server.py\<close>: the line a frame is published as, the broker that
  fans lines out to bounded per-client queues under a lock, and the subscription request. The
  threads interleave as events: adding and removing a subscriber, publishing (each atomic under the
  broker's lock) and a client taking a line from its own queue. A queue object is named by the
  identity \<open>qid\<close> of its client; \<open>queues\<close> holds the contents of every queue.
\<close>

section \<open>The code\<close>

definition QUEUE_MAX :: nat where
  "QUEUE_MAX = 4096"

text \<open>\<open>json.dumps(msg, separators=(",", ":"))\<close> of a frame; its strings need no escapes.\<close>

definition quoted :: "string \<Rightarrow> string" where
  "quoted s = [CHR 34] @ s @ [CHR 34]"

definition frame_line :: "fifo_frame \<Rightarrow> string" where
  "frame_line m =
     ''{'' @ quoted ''fifo'' @ '':'' @ quoted (ff_fifo m) @ '','' @ quoted ''frame'' @ '':'' @ to_dec (ff_frame m)
     @ '','' @ quoted ''ts'' @ '':'' @ ff_ts m @ '','' @ quoted ''len'' @ '':'' @ to_dec (ff_len m)
     @ '','' @ quoted ''partial'' @ '':'' @ (if ff_partial m then ''true'' else ''false'')
     @ '','' @ quoted ''data'' @ '':'' @ quoted (ff_data m) @ ''}'' @ [CHR 10]"

record broker =
  subs :: "(string set \<times> nat) list"
  queues :: "nat \<Rightarrow> string list"

definition broker_init :: broker where
  "broker_init = \<lparr>subs = [], queues = (\<lambda>q. [])\<rparr>"

definition broker_add :: "broker \<Rightarrow> string set \<Rightarrow> nat \<Rightarrow> broker" where
  "broker_add b names q = b\<lparr>subs := subs b @ [(names, q)]\<rparr>"

definition broker_remove :: "broker \<Rightarrow> nat \<Rightarrow> broker" where
  "broker_remove b q = b\<lparr>subs := filter (\<lambda>(n, sq). sq \<noteq> q) (subs b)\<rparr>"

text \<open>\<open>put_nowait\<close> on a queue of at most \<open>QUEUE_MAX\<close> lines; \<open>publish\<close> ignores a full queue.\<close>

definition put_nowait :: "string list \<Rightarrow> string \<Rightarrow> string list py_result" where
  "put_nowait q line = (if length q < QUEUE_MAX then Inr (q @ [line]) else Inl QueueFull)"

fun publish_to :: "(string set \<times> nat) list \<Rightarrow> string \<Rightarrow> string \<Rightarrow> (nat \<Rightarrow> string list) \<Rightarrow> nat \<Rightarrow> string list" where
  "publish_to [] name line qs = qs"
| "publish_to ((names, q) # ss) name line qs =
     publish_to ss name line
       (if name \<in> names then
          (case put_nowait (qs q) line of Inl e \<Rightarrow> qs | Inr l \<Rightarrow> qs(q := l))
        else qs)"

definition broker_publish :: "broker \<Rightarrow> string \<Rightarrow> fifo_frame \<Rightarrow> broker" where
  "broker_publish b name msg = b\<lparr>queues := publish_to (subs b) name (frame_line msg) (queues b)\<rparr>"

text \<open>The client's \<open>q.get(timeout=1.0)\<close>: a line, or \<open>None\<close> where it times out.\<close>

definition client_get :: "broker \<Rightarrow> nat \<Rightarrow> broker \<times> string option" where
  "client_get b q = (case queues b q of
     [] \<Rightarrow> (b, None)
   | line # rest \<Rightarrow> (b\<lparr>queues := (queues b)(q := rest)\<rparr>, Some line))"

text \<open>The names a request line subscribes to.\<close>

definition lower_char :: "char \<Rightarrow> char" where
  "lower_char c = (if 65 \<le> (of_char c :: nat) \<and> (of_char c :: nat) \<le> 90 then char_of (of_char c + 32 :: nat) else c)"

definition upper_ascii :: "char \<Rightarrow> char" where
  "upper_ascii c = (if 97 \<le> (of_char c :: nat) \<and> (of_char c :: nat) \<le> 122 then char_of (of_char c - 32 :: nat) else c)"

definition subscription :: "string \<Rightarrow> string list \<Rightarrow> string set" where
  "subscription req available =
     (let words0 = py_split (py_strip req);
          words = (if words0 \<noteq> [] \<and> map upper_ascii (hd words0) = ''SUBSCRIBE'' then tl words0 else words0);
          names = set (map (map lower_char) words) \<inter> set available
      in if names = {} \<or> ''*'' \<in> set words then set available else names)"

section \<open>Interleaved runs\<close>

datatype broker_event =
    Add nat "string set"
  | Remove nat
  | Publish string fifo_frame
  | Get nat

definition broker_step :: "broker \<Rightarrow> broker_event \<Rightarrow> broker \<times> string option" where
  "broker_step b e = (case e of
     Add q names \<Rightarrow> (broker_add b names q, None)
   | Remove q \<Rightarrow> (broker_remove b q, None)
   | Publish name msg \<Rightarrow> (broker_publish b name msg, None)
   | Get q \<Rightarrow> client_get b q)"

text \<open>What client \<open>q\<close> took out in a run, and what was published on its names.\<close>

fun taken :: "nat \<Rightarrow> broker \<Rightarrow> broker_event list \<Rightarrow> string list" where
  "taken q b [] = []"
| "taken q b (e # es) =
     (let (b', out) = broker_step b e
      in (case (e, out) of (Get q', Some line) \<Rightarrow> if q' = q then [line] else [] | _ \<Rightarrow> []) @ taken q b' es)"

fun published :: "string set \<Rightarrow> broker_event list \<Rightarrow> string list" where
  "published names [] = []"
| "published names (Publish name msg # es) =
     (if name \<in> names then [frame_line msg] else []) @ published names es"
| "published names (e # es) = published names es"

text \<open>The events that concern client \<open>q\<close> itself, and a client subscribed once.\<close>

definition own_event :: "nat \<Rightarrow> broker_event \<Rightarrow> bool" where
  "own_event q e = (case e of Add q' names \<Rightarrow> q' = q | Remove q' \<Rightarrow> q' = q | Publish name msg \<Rightarrow> True | Get q' \<Rightarrow> q' = q)"

definition subscribed :: "nat \<Rightarrow> string set \<Rightarrow> broker \<Rightarrow> bool" where
  "subscribed q names b \<longleftrightarrow> filter (\<lambda>(n, sq). sq = q) (subs b) = [(names, q)]"

section \<open>Invariant: bounded queues\<close>

definition queues_bounded :: "broker \<Rightarrow> bool" where
  "queues_bounded b \<longleftrightarrow> (\<forall>q. length (queues b q) \<le> QUEUE_MAX)"

lemma publish_to_bounded:
  "\<forall>q. length (qs q) \<le> QUEUE_MAX \<Longrightarrow> length (publish_to ss name line qs q) \<le> QUEUE_MAX"
  by (induction ss arbitrary: qs) (auto simp: put_nowait_def)

interpretation bk: clocked broker_step broker_init "\<lambda>e. True" queues_bounded
proof unfold_locales
  show "queues_bounded broker_init" by (simp add: queues_bounded_def broker_init_def)
next
  fix b e
  assume b: "queues_bounded b"
  show "queues_bounded (fst (broker_step b e))"
  proof (cases e)
    case (Get q)
    have "length (queues b q) \<le> QUEUE_MAX" using b by (simp add: queues_bounded_def)
    then show ?thesis using b Get
      by (cases "queues b q") (auto simp: broker_step_def queues_bounded_def client_get_def)
  qed (use b in \<open>auto simp: broker_step_def queues_bounded_def broker_add_def broker_remove_def
      broker_publish_def publish_to_bounded\<close>)
qed

section \<open>Delivery\<close>

definition put_one :: "string set \<Rightarrow> nat \<Rightarrow> string \<Rightarrow> string \<Rightarrow> (nat \<Rightarrow> string list) \<Rightarrow> nat \<Rightarrow> string list" where
  "put_one names q name line qs =
     (if name \<in> names then (case put_nowait (qs q) line of Inl e \<Rightarrow> qs | Inr l \<Rightarrow> qs(q := l)) else qs)"

lemma put_one_simps:
  "q \<noteq> sq \<Longrightarrow> put_one n sq name line qs q = qs q"
  "qs q = qs' q \<Longrightarrow> put_one n sq name line qs q = put_one n sq name line qs' q"
  by (cases "sq = q"; simp add: put_one_def put_nowait_def)+

lemma publish_to_Cons: "publish_to ((n, sq) # ss) name line qs = publish_to ss name line (put_one n sq name line qs)"
  by (simp add: put_one_def)

lemma publish_to_same: "qs q = qs' q \<Longrightarrow> publish_to ss name line qs q = publish_to ss name line qs' q"
proof (induction ss arbitrary: qs qs')
  case Nil
  then show ?case by simp
next
  case (Cons s ss)
  obtain n sq where s: "s = (n, sq)" by (cases s)
  have "put_one n sq name line qs q = put_one n sq name line qs' q"
    using Cons.prems by (rule put_one_simps(2))
  then show ?case unfolding s publish_to_Cons by (rule Cons.IH)
qed

lemma publish_to_local:
  "publish_to ss name line qs q = publish_to (filter (\<lambda>(n, sq). sq = q) ss) name line qs q"
proof (induction ss arbitrary: qs)
  case Nil
  then show ?case by simp
next
  case (Cons s ss)
  obtain n sq where s: "s = (n, sq)" by (cases s)
  show ?case
  proof (cases "sq = q")
    case True
    then have f: "filter (\<lambda>(n, sq). sq = q) (s # ss) = (n, sq) # filter (\<lambda>(n, sq). sq = q) ss" by (simp add: s)
    from Cons.IH show ?thesis unfolding f unfolding s publish_to_Cons .
  next
    case False
    then have f: "filter (\<lambda>(n, sq). sq = q) (s # ss) = filter (\<lambda>(n, sq). sq = q) ss" by (simp add: s)
    have "publish_to ss name line (put_one n sq name line qs) q = publish_to ss name line qs q"
      by (rule publish_to_same) (use False in \<open>simp add: put_one_simps(1)\<close>)
    then show ?thesis using Cons.IH [of qs] unfolding f unfolding s publish_to_Cons by simp
  qed
qed

lemma publish_to_once:
  "publish_to [(names, q)] name line qs q =
     (if name \<in> names \<and> length (qs q) < QUEUE_MAX then qs q @ [line] else qs q)"
  by (simp add: put_nowait_def)

text \<open>What the broker holds for one client; steps read and change it alone.\<close>

definition view :: "nat \<Rightarrow> broker \<Rightarrow> (string set \<times> nat) list \<times> string list" where
  "view q b = (filter (\<lambda>(n, sq). sq = q) (subs b), queues b q)"

definition took :: "nat \<Rightarrow> broker_event \<Rightarrow> string option \<Rightarrow> string list" where
  "took q e out = (case (e, out) of (Get q', Some line) \<Rightarrow> if q' = q then [line] else [] | _ \<Rightarrow> [])"

lemma publish_view:
  "view q b1 = view q b2 \<Longrightarrow> view q (broker_publish b1 name msg) = view q (broker_publish b2 name msg)"
proof -
  assume v: "view q b1 = view q b2"
  show ?thesis using v publish_to_same [of "queues b1" q "queues b2"]
      publish_to_local [of "subs b1"] publish_to_local [of "subs b2"]
    by (simp add: view_def broker_publish_def)
qed

lemma step_own:
  assumes v: "view q b1 = view q b2" and "own_event q e"
  shows "view q (fst (broker_step b1 e)) = view q (fst (broker_step b2 e)) \<and>
    took q e (snd (broker_step b1 e)) = took q e (snd (broker_step b2 e))"
proof (cases e)
  case (Publish name msg)
  then show ?thesis using publish_view [OF v] by (simp add: broker_step_def took_def)
next
  case (Get q')
  then have "q' = q" using assms(2) by (simp add: own_event_def)
  moreover have "queues b1 q = queues b2 q" using v by (simp add: view_def)
  ultimately show ?thesis using v Get
    by (cases "queues b2 q") (auto simp: broker_step_def client_get_def view_def took_def)
next
  case (Remove q')
  then have "q' = q" using assms(2) by (simp add: own_event_def)
  moreover have "filter (\<lambda>(n, sq). sq = q) (filter (\<lambda>(n, sq). sq \<noteq> q) ss) = []" for ss :: "(string set \<times> nat) list"
    by (induction ss) auto
  ultimately show ?thesis using v Remove by (simp add: broker_step_def view_def took_def broker_remove_def)
qed (use assms in \<open>auto simp: broker_step_def view_def took_def own_event_def broker_add_def broker_remove_def\<close>)

lemma step_foreign:
  assumes "\<not> own_event q e"
  shows "view q (fst (broker_step b e)) = view q b \<and> took q e (snd (broker_step b e)) = []"
proof (cases e)
  case (Remove q')
  have "filter (\<lambda>(n, sq). sq = q) (filter (\<lambda>(n, sq). sq \<noteq> q') ss) = filter (\<lambda>(n, sq). sq = q) ss" if "q' \<noteq> q"
    for ss :: "(string set \<times> nat) list"
    using that by (induction ss) auto
  then show ?thesis using assms Remove
    by (simp add: broker_step_def view_def took_def own_event_def broker_remove_def)
qed (use assms in \<open>auto simp: broker_step_def view_def took_def own_event_def broker_add_def client_get_def
    split: list.splits\<close>)

lemma taken_took: "taken q b (e # es) = took q e (snd (broker_step b e)) @ taken q (fst (broker_step b e)) es"
  by (simp add: took_def split_beta Let_def)

abbreviation final :: "broker \<Rightarrow> broker_event list \<Rightarrow> broker" where
  "final b es \<equiv> fst (run_loop broker_step b es)"

lemma final_Cons: "final b (e # es) = final (fst (broker_step b e)) es"
  by (simp add: split_beta Let_def)

lemma taken_local:
  "view q b1 = view q b2 \<Longrightarrow>
   taken q b1 es = taken q b2 (filter (own_event q) es) \<and>
   view q (final b1 es) = view q (final b2 (filter (own_event q) es))"
proof (induction es arbitrary: b1 b2)
  case Nil
  then show ?case by simp
next
  case (Cons e es)
  show ?case
  proof (cases "own_event q e")
    case True
    note own = step_own [OF Cons.prems True]
    from Cons.IH [OF own [THEN conjunct1]] own True show ?thesis
      by (simp only: filter.simps if_True taken_took final_Cons)
  next
    case False
    note foreign = step_foreign [OF False, of b1]
    then have "view q (fst (broker_step b1 e)) = view q b2" using Cons.prems by simp
    from Cons.IH [OF this] foreign False show ?thesis
      by (simp only: filter.simps if_False taken_took final_Cons append_Nil)
  qed
qed

text \<open>One event, seen from a client that stays subscribed to \<open>names\<close>.\<close>

definition stays :: "nat \<Rightarrow> broker_event list \<Rightarrow> bool" where
  "stays q es \<longleftrightarrow> list_all (\<lambda>e. (\<forall>n. e \<noteq> Add q n) \<and> e \<noteq> Remove q) es"

lemma step_subscribed:
  assumes "view q b = ([(names, q)], l)" and "\<forall>n. e \<noteq> Add q n" and "e \<noteq> Remove q"
  shows "\<exists>l'. view q (fst (broker_step b e)) = ([(names, q)], l') \<and>
    took q e (snd (broker_step b e)) @ l' =
      (if length l < QUEUE_MAX then l @ published names [e] else took q e (snd (broker_step b e)) @ l') \<and>
    (took q e (snd (broker_step b e)) @ l' = l \<or> took q e (snd (broker_step b e)) @ l' = l @ published names [e])"
proof (cases e)
  case (Publish name msg)
  have "publish_to (subs b) name (frame_line msg) (queues b) q =
      (if name \<in> names \<and> length l < QUEUE_MAX then l @ [frame_line msg] else l)"
    using assms(1) publish_to_local [of "subs b" name "frame_line msg" "queues b" q]
    by (simp add: view_def publish_to_once del: publish_to.simps)
  then show ?thesis using Publish assms(1)
    by (auto simp: broker_step_def broker_publish_def view_def took_def)
next
  case (Get q')
  then show ?thesis using assms(1)
    by (cases "q' = q"; cases "queues b q'") (auto simp: broker_step_def client_get_def view_def took_def)
next
  case (Add q' n)
  then show ?thesis using assms by (auto simp: broker_step_def broker_add_def view_def took_def)
next
  case (Remove q')
  then show ?thesis using assms step_foreign [of q e b] by (auto simp: own_event_def)
qed

lemma stays_Cons: "stays q (e # es) \<longleftrightarrow> (\<forall>n. e \<noteq> Add q n) \<and> e \<noteq> Remove q \<and> stays q es"
  by (simp add: stays_def conj_assoc)

lemma published_Cons: "published names (e # es) = published names [e] @ published names es"
  by (cases e) simp_all

lemma taken_subseq:
  "view q b = ([(names, q)], l) \<Longrightarrow> stays q es \<Longrightarrow>
   subseq (taken q b es @ queues (final b es) q) (l @ published names es)"
proof (induction es arbitrary: b l)
  case Nil
  then show ?case by (simp add: view_def)
next
  case (Cons e es)
  let ?t = "took q e (snd (broker_step b e))"
  from step_subscribed [OF Cons.prems(1), of e] Cons.prems(2)
  obtain l' where v: "view q (fst (broker_step b e)) = ([(names, q)], l')"
    and l': "?t @ l' = l \<or> ?t @ l' = l @ published names [e]" by (auto simp: stays_Cons)
  have "subseq (taken q (fst (broker_step b e)) es @ queues (final (fst (broker_step b e)) es) q) (l' @ published names es)"
    using Cons.IH [OF v] Cons.prems(2) by (simp add: stays_Cons)
  then have "subseq (?t @ taken q (fst (broker_step b e)) es @ queues (final (fst (broker_step b e)) es) q)
      (?t @ l' @ published names es)" by (rule list_emb_append_mono [OF subseq_order.order_refl])
  moreover have "subseq (?t @ l' @ published names es) (l @ published names (e # es))"
  proof -
    have "subseq (?t @ l') (l @ published names [e])" using l' by (auto simp: list_emb_append2)
    then have "subseq ((?t @ l') @ published names es) ((l @ published names [e]) @ published names es)"
      by (rule list_emb_append_mono [OF _ subseq_order.order_refl])
    then show ?thesis by (simp only: append_assoc published_Cons [of names e es])
  qed
  ultimately show ?case
    unfolding taken_took final_Cons append_assoc by (rule subseq_order.order_trans)
qed

text \<open>A client keeps up when its queue has room before every event of the run.\<close>

fun keeps_up :: "nat \<Rightarrow> broker \<Rightarrow> broker_event list \<Rightarrow> bool" where
  "keeps_up q b [] = True"
| "keeps_up q b (e # es) = (length (queues b q) < QUEUE_MAX \<and> keeps_up q (fst (broker_step b e)) es)"

lemma taken_all:
  "view q b = ([(names, q)], l) \<Longrightarrow> stays q es \<Longrightarrow> keeps_up q b es \<Longrightarrow>
   taken q b es @ queues (final b es) q = l @ published names es"
proof (induction es arbitrary: b l)
  case Nil
  then show ?case by (simp add: view_def)
next
  case (Cons e es)
  let ?t = "took q e (snd (broker_step b e))"
  have "length l < QUEUE_MAX" using Cons.prems(1,3) by (simp add: view_def)
  with step_subscribed [OF Cons.prems(1), of e] Cons.prems(2)
  obtain l' where v: "view q (fst (broker_step b e)) = ([(names, q)], l')"
    and l': "?t @ l' = l @ published names [e]" by (auto simp: stays_Cons)
  have ih: "taken q (fst (broker_step b e)) es @ queues (final (fst (broker_step b e)) es) q = l' @ published names es"
    using Cons.IH [OF v] Cons.prems(2,3) by (simp add: stays_Cons)
  have "taken q b (e # es) @ queues (final b (e # es)) q = (?t @ l') @ published names es"
    unfolding taken_took final_Cons append_assoc ih ..
  then show ?case unfolding l' by (simp only: append_assoc published_Cons [of names e es])
qed

section \<open>Properties\<close>

text \<open>In every interleaving of subscriptions, publications and reads no client's queue ever holds
  more than \<open>QUEUE_MAX\<close> lines: a slow subscriber costs bounded memory.\<close>
theorem broker_queues_bounded:
  "length (queues (final broker_init es) q) \<le> QUEUE_MAX"
  using bk.inv_reachable [of es] by (simp add: queues_bounded_def list_all_iff)

text \<open>C12. What a subscriber receives: from the moment it is subscribed with an empty queue, the lines it
  has taken and the lines still queued are together a subsequence of the lines published on its
  names, in order and without repetition, whatever the other clients do; and if its queue always
  had room, they are all of them.\<close>
theorem subscriber_receives:
  assumes "view q b = ([(names, q)], [])" and "stays q es"
  shows "subseq (taken q b es @ queues (final b es) q) (published names es) \<and>
    (keeps_up q b es \<longrightarrow> taken q b es @ queues (final b es) q = published names es)"
  using taken_subseq [OF assms] taken_all [OF assms] by simp

theorem subscriber_receives_witness:
  "let m = \<lparr>ff_fifo = ''CMD'', ff_frame = 1, ff_ts = ''1.5'', ff_len = 1, ff_partial = False, ff_data = ''07''\<rparr>;
       b = fst (broker_step broker_init (Add 3 {''cmd''}));
       es = [Publish ''cmd'' m, Publish ''debug'' m, Get 3, Publish ''cmd'' m]
   in taken 3 b es @ queues (final b es) 3 = [frame_line m, frame_line m]"
proof -
  let ?m = "\<lparr>ff_fifo = ''CMD'', ff_frame = 1, ff_ts = ''1.5'', ff_len = 1, ff_partial = False, ff_data = ''07''\<rparr>"
  let ?b = "fst (broker_step broker_init (Add 3 {''cmd''}))"
  let ?es = "[Publish ''cmd'' ?m, Publish ''debug'' ?m, Get 3, Publish ''cmd'' ?m]"
  have v: "view 3 ?b = ([({''cmd''}, 3)], [])"
    by (simp add: broker_step_def broker_add_def broker_init_def view_def)
  have "keeps_up 3 ?b ?es"
    by (simp add: broker_step_def broker_add_def broker_init_def broker_publish_def put_nowait_def client_get_def QUEUE_MAX_def)
  with subscriber_receives [OF v, of ?es] show ?thesis by (simp add: stays_def Let_def)
qed

text \<open>C30. Isolation: what a client takes and what its queue holds after any run depend only on the
  publications and on its own subscribing, unsubscribing and reading; deleting every event of every
  other client from the run changes neither.\<close>
theorem clients_isolated:
  "taken q b es = taken q b (filter (own_event q) es) \<and>
   queues (final b es) q = queues (final b (filter (own_event q) es)) q"
  using taken_local [OF refl, of q b es] by (simp add: view_def)

lemma subscription_available: "subscription req available \<subseteq> set available"
  by (auto simp: subscription_def Let_def)

text \<open>Subscription requests: the result is always a set of served FIFOs, and it is not empty when
  any is served; in particular a request that names only unknown FIFOs subscribes to all of them.\<close>
theorem subscription_names:
  "subscription req available \<subseteq> set available \<and>
   (subscription req available = {} \<longleftrightarrow> available = []) \<and>
   subscription ''SUBSCRIBE cmdx'' [''cmd'', ''debug''] = {''cmd'', ''debug''} \<and>
   subscription ''subscribe CMD'' [''cmd'', ''debug''] = {''cmd''}"
proof (intro conjI)
  show "subscription req available \<subseteq> set available" by (rule subscription_available)
  show "subscription req available = {} \<longleftrightarrow> available = []" by (auto simp: subscription_def Let_def)
  show "subscription ''SUBSCRIBE cmdx'' [''cmd'', ''debug''] = {''cmd'', ''debug''}" by code_simp
  show "subscription ''subscribe CMD'' [''cmd'', ''debug''] = {''cmd''}" by code_simp
qed

end
