(* ===== verification/Fifo_Server.thy ===== *)
theory Fifo_Server
  imports Fifo_Broker Capture_Text
begin

text \<open>
  \<open>scripts/fifo_server.py\<close> as a system of threads: one poller per FIFO, the broker, one thread per
  connected client and the accepting main thread, as a step relation. A step is one operation that the
  threads can interleave at: a poll round, and on the client's side connecting, reading the request and
  greeting, registering with the broker, taking a line from the queue, sending it, failing, and leaving
  at the end. The devices are a parameter. The log of publications is kept for the statements only.
\<close>

section \<open>The code\<close>

text \<open>The FIFOs: name, tag, addresses of control and data registers.\<close>

definition FIFOS :: "(string \<times> string \<times> int \<times> int) list" where
  "FIFOS = [(''debug'', ''DEBUG'', 0x80070000, 0x80080000), (''mdebug'', ''MDEBUG'', 0x80050000, 0x80060000),
     (''cmd'', ''CMD'', 0x800A0000, 0x800B0000)]"

definition fifo_tag :: "string \<Rightarrow> string" where
  "fifo_tag name = (case map_of FIFOS name of Some (tag, c, d) \<Rightarrow> tag | None \<Rightarrow> '''')"

text \<open>\<open>UioMap.__init__\<close>: the device file of an address, or the error that ends the poller's thread.\<close>

definition uio_open :: "string list \<Rightarrow> (string \<Rightarrow> string option) \<Rightarrow> int \<Rightarrow> string py_result" where
  "uio_open listdir addr_file addr = bind_result (find_uio listdir addr_file addr) (\<lambda>dev.
     case dev of None \<Rightarrow> Inl RuntimeError | Some path \<Rightarrow> Inr path)"

text \<open>The greeting.\<close>

definition hello_line :: "string set \<Rightarrow> string" where
  "hello_line names =
     ''{'' @ quoted ''hello'' @ '': '' @ quoted ''mktdata_poc fifo_server'' @ '', '' @ quoted ''subscribed'' @ '': [''
     @ join_with '', '' (map quoted (sorted_list_of_set names)) @ '']}'' @ [CHR 10]"

text \<open>A client's thread: where it is, and the lines it has sent.\<close>

datatype phase = Connected | Greeted "string set" | Streaming "string set" | Sending "string set" string | Gone

record client =
  cl_phase :: phase
  cl_sent :: "string list"

record 'd server =
  sv_dev :: 'd
  sv_poll :: "string \<Rightarrow> poll_state"
  sv_broker :: broker
  sv_clients :: "nat \<Rightarrow> client option"
  sv_next :: nat
  sv_stop :: bool
  sv_log :: "(string \<times> fifo_frame) list"

record 'd server_setup =
  su_fifos :: "string list"
  su_ctrl :: "string \<Rightarrow> 'd uio_map"
  su_data :: "string \<Rightarrow> 'd uio_map"

text \<open>Every poller resets its FIFO before its loop.\<close>

definition server_init :: "'d server_setup \<Rightarrow> 'd \<Rightarrow> 'd server" where
  "server_init u d = \<lparr>sv_dev = foldl (\<lambda>d name. snd (poller_start (su_ctrl u name) d)) d (su_fifos u),
     sv_poll = (\<lambda>name. \<lparr>ps_frame = 0, ps_warned = False\<rparr>), sv_broker = broker_init, sv_clients = (\<lambda>q. None),
     sv_next = 0, sv_stop = False, sv_log = []\<rparr>"

definition set_client :: "'d server \<Rightarrow> nat \<Rightarrow> client \<Rightarrow> 'd server" where
  "set_client s q c = s\<lparr>sv_clients := (sv_clients s)(q := Some c)\<rparr>"

definition poll_server :: "'d server_setup \<Rightarrow> string \<Rightarrow> string \<Rightarrow> 'd server \<Rightarrow> 'd server" where
  "poll_server u name now s =
     (let (p, d, out) = poll_round (fifo_tag name) (su_ctrl u name) (su_data u name) now (sv_poll s name) (sv_dev s);
          s1 = s\<lparr>sv_dev := d, sv_poll := (sv_poll s)(name := p)\<rparr>
      in case out of
           None \<Rightarrow> s1
         | Some m \<Rightarrow> s1\<lparr>sv_broker := broker_publish (sv_broker s1) name m, sv_log := sv_log s1 @ [(name, m)]\<rparr>)"

definition leave :: "'d server \<Rightarrow> nat \<Rightarrow> client \<Rightarrow> 'd server" where
  "leave s q c = (set_client s q (c\<lparr>cl_phase := Gone\<rparr>))\<lparr>sv_broker := broker_remove (sv_broker s) q\<rparr>"

inductive server_step :: "'d server_setup \<Rightarrow> 'd server \<Rightarrow> 'd server \<Rightarrow> bool" for u where
  Poll: "\<not> sv_stop s \<Longrightarrow> name \<in> set (su_fifos u) \<Longrightarrow> server_step u s (poll_server u name now s)"
| Accept: "\<not> sv_stop s \<Longrightarrow>
    server_step u s ((set_client s (sv_next s) \<lparr>cl_phase = Connected, cl_sent = []\<rparr>)\<lparr>sv_next := sv_next s + 1\<rparr>)"
| Greet: "sv_clients s q = Some c \<Longrightarrow> cl_phase c = Connected \<Longrightarrow> names = subscription req (su_fifos u) \<Longrightarrow>
    server_step u s (set_client s q (c\<lparr>cl_phase := Greeted names, cl_sent := cl_sent c @ [hello_line names]\<rparr>))"
| Register: "sv_clients s q = Some c \<Longrightarrow> cl_phase c = Greeted names \<Longrightarrow>
    server_step u s ((set_client s q (c\<lparr>cl_phase := Streaming names\<rparr>))\<lparr>sv_broker := broker_add (sv_broker s) names q\<rparr>)"
| Take: "sv_clients s q = Some c \<Longrightarrow> cl_phase c = Streaming names \<Longrightarrow> \<not> sv_stop s \<Longrightarrow>
    client_get (sv_broker s) q = (b, Some line) \<Longrightarrow>
    server_step u s ((set_client s q (c\<lparr>cl_phase := Sending names line\<rparr>))\<lparr>sv_broker := b\<rparr>)"
| Send: "sv_clients s q = Some c \<Longrightarrow> cl_phase c = Sending names line \<Longrightarrow>
    server_step u s (set_client s q (c\<lparr>cl_phase := Streaming names, cl_sent := cl_sent c @ [line]\<rparr>))"
| Fail: "sv_clients s q = Some c \<Longrightarrow> cl_phase c = Connected \<or> cl_phase c = Sending names line \<Longrightarrow>
    server_step u s (leave s q c)"
| Finish: "sv_clients s q = Some c \<Longrightarrow> cl_phase c = Streaming names \<Longrightarrow> sv_stop s \<Longrightarrow> server_step u s (leave s q c)"
| Stop: "server_step u s (s\<lparr>sv_stop := True\<rparr>)"

definition reachable :: "'d server_setup \<Rightarrow> 'd \<Rightarrow> 'd server \<Rightarrow> bool" where
  "reachable u d s \<longleftrightarrow> (server_step u)\<^sup>*\<^sup>* (server_init u d) s"

lemma reachable_induct [consumes 1, case_names init step]:
  assumes "reachable u d s" and "P (server_init u d)"
    and "\<And>s s'. reachable u d s \<Longrightarrow> P s \<Longrightarrow> server_step u s s' \<Longrightarrow> P s'"
  shows "P s"
  using assms(1) unfolding reachable_def
  by (induction rule: rtranclp_induct) (use assms(2,3) in \<open>auto simp: reachable_def\<close>)

section \<open>What the pollers publish\<close>

lemma poll_round_out:
  assumes "poll_round tag ctrl data now s d = (s', d', Some m)"
  shows "ff_fifo m = tag" "ff_frame m = ps_frame s + 1" "ps_frame s' = ps_frame s + 1"
    "\<exists>bs. is_bytes bs \<and> length bs = ff_len m \<and> ff_len m \<le> 4096 \<and> ff_data m = hex_bytes bs"
proof -
  obtain rdfo d1 where r0: "r32 ctrl d FIFO_RDFO = (rdfo, d1)" by (cases "r32 ctrl d FIFO_RDFO")
  obtain rlr d2 where r1: "r32 ctrl d1 FIFO_RLR = (rlr, d2)" by (cases "r32 ctrl d1 FIFO_RLR")
  define len where "len = unat (rlr AND 0x7FFFFFFF)"
  obtain raw d3 where raw: "read_words data ((len + 7) div 8) d2 = (raw, d3)" by (cases "read_words data ((len + 7) div 8) d2")
  have nz: "rdfo \<noteq> 0" "rlr \<noteq> 0" "0 < len" "len \<le> 4096"
    using assms by (auto simp: poll_round_def r0 r1 Let_def raw split: if_splits simp flip: len_def)
  have m: "m = \<lparr>ff_fifo = tag, ff_frame = ps_frame s + 1, ff_ts = now, ff_len = len,
      ff_partial = (drop_bit 31 rlr \<noteq> 0), ff_data = hex_bytes (take len raw)\<rparr>" "ps_frame s' = ps_frame s + 1"
    using assms nz by (auto simp: poll_round_def r0 r1 Let_def raw simp flip: len_def)
  show "ff_fifo m = tag" "ff_frame m = ps_frame s + 1" "ps_frame s' = ps_frame s + 1" using m by simp_all
  have bytes: "is_bytes (fst (read_words data n d)) \<and> length (fst (read_words data n d)) = 8 * n" for n d
    by (induction n arbitrary: d) (simp_all add: split_beta Let_def)
  have "is_bytes raw" "length raw = 8 * ((len + 7) div 8)" using bytes [of "(len + 7) div 8" d2] by (simp_all add: raw)
  then show "\<exists>bs. is_bytes bs \<and> length bs = ff_len m \<and> ff_len m \<le> 4096 \<and> ff_data m = hex_bytes bs"
    using m(1) nz(4) by (intro exI [of _ "take len raw"]) auto
qed

lemma poll_round_quiet:
  assumes "poll_round tag ctrl data now s d = (s', d', None)"
  shows "ps_frame s' = ps_frame s"
  using assms by (auto simp: poll_round_def split_beta Let_def split: if_splits)

text \<open>The log of one FIFO, and its frames as the publishing keeps them.\<close>

definition logged :: "string \<Rightarrow> (string \<times> fifo_frame) list \<Rightarrow> fifo_frame list" where
  "logged name l = map snd (filter (\<lambda>(n, m). n = name) l)"

definition logged_on :: "string set \<Rightarrow> (string \<times> fifo_frame) list \<Rightarrow> fifo_frame list" where
  "logged_on names l = map snd (filter (\<lambda>(n, m). n \<in> names) l)"

definition from_fifo :: "string \<Rightarrow> fifo_frame \<Rightarrow> bool" where
  "from_fifo name m \<longleftrightarrow> ff_fifo m = fifo_tag name \<and>
     (\<exists>bs. is_bytes bs \<and> length bs = ff_len m \<and> ff_len m \<le> 4096 \<and> ff_data m = hex_bytes bs)"

definition log_ok :: "'d server_setup \<Rightarrow> 'd server \<Rightarrow> bool" where
  "log_ok u s \<longleftrightarrow> list_all (\<lambda>(n, m). n \<in> set (su_fifos u) \<and> from_fifo n m) (sv_log s) \<and>
     (\<forall>name. map ff_frame (logged name (sv_log s)) = [1..<Suc (ps_frame (sv_poll s name))])"

lemma poll_server_cases:
  obtains (quiet) p d where "poll_server u name now s = s\<lparr>sv_dev := d, sv_poll := (sv_poll s)(name := p)\<rparr>"
      "ps_frame p = ps_frame (sv_poll s name)"
  | (publish) p d m where "poll_server u name now s = s\<lparr>sv_dev := d, sv_poll := (sv_poll s)(name := p),
      sv_broker := broker_publish (sv_broker s) name m, sv_log := sv_log s @ [(name, m)]\<rparr>"
      "ps_frame p = ps_frame (sv_poll s name) + 1" "ff_frame m = ps_frame (sv_poll s name) + 1" "from_fifo name m"
proof -
  obtain p d out where r: "poll_round (fifo_tag name) (su_ctrl u name) (su_data u name) now (sv_poll s name) (sv_dev s) = (p, d, out)"
    by (cases "poll_round (fifo_tag name) (su_ctrl u name) (su_data u name) now (sv_poll s name) (sv_dev s)") auto
  show thesis
  proof (cases out)
    case None
    then show thesis using r poll_round_quiet [of "fifo_tag name"]
      by (intro quiet [of p d]) (auto simp: poll_server_def)
  next
    case (Some m)
    note out = poll_round_out [OF r [unfolded Some]]
    show thesis using r Some out by (intro publish [where p = p and d = d and m = m]) (auto simp: poll_server_def from_fifo_def)
  qed
qed

lemma log_ok_step:
  assumes "server_step u s s'" "log_ok u s"
  shows "log_ok u s'"
  using assms(1)
proof cases
  case (Poll name now)
  show ?thesis
  proof (cases rule: poll_server_cases [of u name now s])
    case (quiet p d)
    then show ?thesis using assms(2) Poll by (simp add: log_ok_def)
  next
    case (publish p d m)
    then show ?thesis using assms(2) Poll
      by (auto simp: log_ok_def logged_def)
  qed
qed (use assms(2) in \<open>simp_all add: log_ok_def set_client_def leave_def\<close>)

section \<open>What the broker holds for a client\<close>

lemma view_publish_none: "fst (view q b) = [] \<Longrightarrow> view q (broker_publish b name m) = view q b"
  using publish_to_local [of "subs b" name "frame_line m" "queues b" q]
  by (simp add: view_def broker_publish_def)

lemma view_publish_one:
  "view q b = ([(names, q)], l) \<Longrightarrow>
   view q (broker_publish b name m) = ([(names, q)], if name \<in> names \<and> length l < QUEUE_MAX then l @ [frame_line m] else l)"
  using publish_to_local [of "subs b" name "frame_line m" "queues b" q] publish_to_once [of names q name "frame_line m" "queues b"]
  by (simp add: view_def broker_publish_def del: publish_to.simps)

lemma view_add: "view q (broker_add b names q') = (fst (view q b) @ (if q' = q then [(names, q)] else []), snd (view q b))"
  by (simp add: view_def broker_add_def)

lemma view_remove: "view q (broker_remove b q') = (if q' = q then [] else fst (view q b), snd (view q b))"
proof -
  have "filter (\<lambda>(n, sq). sq = q) (filter (\<lambda>(n, sq). sq \<noteq> q') ss) = (if q' = q then [] else filter (\<lambda>(n, sq). sq = q) ss)"
    for ss :: "(string set \<times> nat) list"
    by (induction ss) auto
  then show ?thesis by (simp add: view_def broker_remove_def)
qed

lemma view_get:
  assumes "client_get b q' = (b', Some line)"
  shows "snd (view q' b) = line # snd (view q' b')" "fst (view q b') = fst (view q b)" "q \<noteq> q' \<Longrightarrow> view q b' = view q b"
  using assms by (auto simp: client_get_def view_def split: list.splits)

section \<open>The invariant of a client\<close>

definition lines_on :: "string set \<Rightarrow> (string \<times> fifo_frame) list \<Rightarrow> string list" where
  "lines_on names l = map frame_line (logged_on names l)"

lemma lines_on_snoc: "lines_on names (l @ [(name, m)]) = lines_on names l @ (if name \<in> names then [frame_line m] else [])"
  by (simp add: lines_on_def logged_on_def)

definition sent_ok :: "string list \<Rightarrow> string list \<Rightarrow> (string \<times> fifo_frame) list \<Rightarrow> string set \<Rightarrow> bool" where
  "sent_ok sent pend l names \<longleftrightarrow> (\<exists>ls. sent = hello_line names # ls \<and> subseq (ls @ pend) (lines_on names l))"

definition client_inv ::
    "nat \<Rightarrow> (string \<times> fifo_frame) list \<Rightarrow> (string set \<times> nat) list \<times> string list \<Rightarrow> client option \<Rightarrow> bool" where
  "client_inv q l v co \<longleftrightarrow> length (snd v) \<le> QUEUE_MAX \<and>
     (case co of
        None \<Rightarrow> v = ([], [])
      | Some c \<Rightarrow> (case cl_phase c of
          Connected \<Rightarrow> cl_sent c = [] \<and> v = ([], [])
        | Greeted names \<Rightarrow> cl_sent c = [hello_line names] \<and> v = ([], [])
        | Streaming names \<Rightarrow> fst v = [(names, q)] \<and> sent_ok (cl_sent c) (snd v) l names
        | Sending names line \<Rightarrow> fst v = [(names, q)] \<and> sent_ok (cl_sent c) (line # snd v) l names
        | Gone \<Rightarrow> fst v = [] \<and> (cl_sent c = [] \<or> (\<exists>names. sent_ok (cl_sent c) [] l names))))"

definition clients_ok :: "'d server \<Rightarrow> bool" where
  "clients_ok s \<longleftrightarrow> (\<forall>q. client_inv q (sv_log s) (view q (sv_broker s)) (sv_clients s q)) \<and>
     (\<forall>q \<ge> sv_next s. sv_clients s q = None)"

lemma sent_ok_log: "sent_ok sent pend l names \<Longrightarrow> sent_ok sent pend (l @ [x]) names"
  by (cases x) (auto simp: sent_ok_def lines_on_snoc)

lemma sent_ok_queue:
  "sent_ok sent pend l names \<Longrightarrow> name \<in> names \<Longrightarrow> sent_ok sent (pend @ [frame_line m]) (l @ [(name, m)]) names"
  by (auto simp: sent_ok_def lines_on_snoc simp flip: append_assoc)

lemma sent_ok_drop: "sent_ok sent pend l names \<Longrightarrow> sent_ok sent [] l names"
  by (auto simp: sent_ok_def dest: list_emb_appendD subseq_order.order_trans [rotated])

lemma sent_ok_send: "sent_ok sent (line # pend) l names \<Longrightarrow> sent_ok (sent @ [line]) pend l names"
  by (auto simp: sent_ok_def)

lemma client_inv_publish:
  assumes "client_inv q l (view q b) co"
  shows "client_inv q (l @ [(name, m)]) (view q (broker_publish b name m)) co"
proof (cases "fst (view q b) = []")
  case True
  then show ?thesis using assms view_publish_none [OF True]
    by (auto simp: client_inv_def split: option.splits phase.splits intro: sent_ok_log)
next
  case False
  then obtain c names where c: "co = Some c" "cl_phase c = Streaming names \<or> (\<exists>line. cl_phase c = Sending names line)"
    "fst (view q b) = [(names, q)]"
    using assms by (auto simp: client_inv_def split: option.splits phase.splits)
  obtain v where v: "view q b = ([(names, q)], v)" using c(3) by (cases "view q b") auto
  note pub = view_publish_one [OF v, of name m]
  show ?thesis using assms c(1,2)
    by (auto simp: client_inv_def pub v sent_ok_log sent_ok_queue dest: sent_ok_queue [of _ "_ # _", simplified])
qed

lemma leave_ok:
  assumes "clients_ok s" "sv_clients s q = Some c"
    and "cl_phase c = Connected \<or> cl_phase c = Streaming names \<or> cl_phase c = Sending names line"
  shows "clients_ok (leave s q c)"
proof -
  have inv: "client_inv q (sv_log s) (view q (sv_broker s)) (sv_clients s q)" for q using assms(1) by (simp add: clients_ok_def)
  have "cl_sent c = [] \<or> (\<exists>names. sent_ok (cl_sent c) [] (sv_log s) names)" "length (snd (view q (sv_broker s))) \<le> QUEUE_MAX"
    using inv [of q] assms(2,3) by (auto simp: client_inv_def) (blast dest: sent_ok_drop)+
  then have "client_inv q (sv_log s) (view q (broker_remove (sv_broker s) q)) (Some (c\<lparr>cl_phase := Gone\<rparr>))"
    by (simp add: client_inv_def view_remove)
  moreover have "client_inv q' (sv_log s) (view q' (broker_remove (sv_broker s) q)) (sv_clients s q')" if "q' \<noteq> q" for q'
    using inv [of q'] that by (simp add: view_remove)
  ultimately show ?thesis using assms(1,2) by (auto simp: clients_ok_def leave_def set_client_def)
qed

lemma clients_ok_step:
  assumes "server_step u s s'" "clients_ok s"
  shows "clients_ok s'"
  using assms(1)
proof cases
  case (Poll name now)
  show ?thesis
  proof (cases rule: poll_server_cases [of u name now s])
    case (quiet p d)
    then show ?thesis using assms(2) Poll by (simp add: clients_ok_def)
  next
    case (publish p d m)
    then show ?thesis using assms(2) Poll client_inv_publish by (simp add: clients_ok_def)
  qed
next
  case Accept
  have inv: "client_inv q (sv_log s) (view q (sv_broker s)) (sv_clients s q)" for q using assms(2) by (simp add: clients_ok_def)
  have "sv_clients s (sv_next s) = None" using assms(2) by (simp add: clients_ok_def)
  then show ?thesis using Accept inv inv [of "sv_next s"] assms(2)
    by (auto simp: clients_ok_def set_client_def client_inv_def)
next
  case (Greet q c names req)
  have inv: "client_inv q (sv_log s) (view q (sv_broker s)) (sv_clients s q)" for q using assms(2) by (simp add: clients_ok_def)
  show ?thesis using Greet inv inv [of q] assms(2)
    by (auto simp: clients_ok_def set_client_def client_inv_def)
next
  case (Register q c names)
  have inv: "client_inv q (sv_log s) (view q (sv_broker s)) (sv_clients s q)" for q using assms(2) by (simp add: clients_ok_def)
  have v: "view q (sv_broker s) = ([], [])" "cl_sent c = [hello_line names]"
    using inv [of q] Register by (simp_all add: client_inv_def)
  have "client_inv q (sv_log s) (view q (broker_add (sv_broker s) names q)) (Some (c\<lparr>cl_phase := Streaming names\<rparr>))"
    by (simp add: client_inv_def view_add v sent_ok_def)
  moreover have "client_inv q' (sv_log s) (view q' (broker_add (sv_broker s) names q)) (sv_clients s q')" if "q' \<noteq> q" for q'
    using inv [of q'] that by (simp add: view_add)
  ultimately show ?thesis using Register assms(2) by (auto simp: clients_ok_def set_client_def)
next
  case (Take q c names b line)
  have inv: "client_inv q (sv_log s) (view q (sv_broker s)) (sv_clients s q)" for q using assms(2) by (simp add: clients_ok_def)
  note get = view_get [OF Take(5)]
  have "client_inv q (sv_log s) (view q b) (Some (c\<lparr>cl_phase := Sending names line\<rparr>))"
    using inv [of q] Take(2,3) get(1) get(2) [of q] by (simp add: client_inv_def)
  moreover have "client_inv q' (sv_log s) (view q' b) (sv_clients s q')" if "q' \<noteq> q" for q'
    using inv [of q'] get(3) [OF that] by simp
  ultimately show ?thesis using Take assms(2) by (auto simp: clients_ok_def set_client_def)
next
  case (Send q c names line)
  have inv: "client_inv q (sv_log s) (view q (sv_broker s)) (sv_clients s q)" for q using assms(2) by (simp add: clients_ok_def)
  have "client_inv q (sv_log s) (view q (sv_broker s)) (Some (c\<lparr>cl_phase := Streaming names, cl_sent := cl_sent c @ [line]\<rparr>))"
    using inv [of q] Send by (simp add: client_inv_def sent_ok_send)
  then show ?thesis using Send inv assms(2) by (auto simp: clients_ok_def set_client_def)
next
  case (Fail q c names line)
  then show ?thesis using leave_ok [OF assms(2) Fail(2)] by auto
next
  case (Finish q c names)
  then show ?thesis using leave_ok [OF assms(2) Finish(2)] by auto
next
  case Stop
  then show ?thesis using assms(2) by (simp add: clients_ok_def)
qed

lemma reachable_ok: "reachable u d s \<Longrightarrow> log_ok u s \<and> clients_ok s"
proof (induction rule: reachable_induct)
  case init
  show ?case
    by (simp add: log_ok_def clients_ok_def server_init_def logged_def client_inv_def view_def broker_init_def)
next
  case (step s s')
  then show ?case using log_ok_step clients_ok_step by blast
qed

lemma reachable_inv: "reachable u d s \<Longrightarrow> client_inv q (sv_log s) (view q (sv_broker s)) (sv_clients s q)"
  using reachable_ok [of u d s] by (simp add: clients_ok_def)

lemma reachable_trans: "reachable u d s \<Longrightarrow> (server_step u)\<^sup>*\<^sup>* s s' \<Longrightarrow> reachable u d s'"
  by (simp add: reachable_def)

section \<open>From the FIFOs to the decoder\<close>

lemma subseq_mapD: "subseq xs (map f ys) \<Longrightarrow> \<exists>zs. xs = map f zs \<and> subseq zs ys"
proof (induction ys arbitrary: xs)
  case (Cons y ys)
  show ?case
  proof (cases xs)
    case (Cons x xs')
    then have "x = f y \<and> subseq xs' (map f ys) \<or> subseq xs (map f ys)"
      using Cons.prems by (auto split: if_splits)
    then show ?thesis
    proof
      assume a: "x = f y \<and> subseq xs' (map f ys)"
      then obtain zs where "xs' = map f zs" "subseq zs ys" using Cons.IH by blast
      then show ?thesis using a Cons by (intro exI [of _ "y # zs"]) simp
    next
      assume "subseq xs (map f ys)"
      then obtain zs where "xs = map f zs" "subseq zs ys" using Cons.IH by blast
      then show ?thesis by (intro exI [of _ zs]) auto
    qed
  qed (intro exI [of _ "[]"], simp)
qed (intro exI [of _ "[]"], simp)

lemma sent_messages:
  "sent_ok sent [] l names \<Longrightarrow>
   \<exists>ms. sent = hello_line names # map frame_line ms \<and> subseq ms (logged_on names l)"
  by (auto simp: sent_ok_def lines_on_def dest!: subseq_mapD)

lemma sent_ok_greeted: "sent_ok [hello_line names] [] l names"
  by (simp add: sent_ok_def)

definition known_fifos :: "'d server_setup \<Rightarrow> bool" where
  "known_fifos u \<longleftrightarrow> set (su_fifos u) \<subseteq> fst ` set FIFOS"

lemma from_fifo_bytes: "from_fifo name m \<Longrightarrow> name \<in> fst ` set FIFOS \<Longrightarrow> \<exists>bs. frame_bytes m bs \<and> length bs = ff_len m"
  by (auto simp: from_fifo_def frame_bytes_def FIFOS_def fifo_tag_def)

text \<open>The messages a subscriber gets from such a stream.\<close>

definition stream_of :: "string set \<Rightarrow> fifo_frame list \<Rightarrow> (string \<times> server_msg) list" where
  "stream_of names ms = (hello_line names, Hello (sorted_list_of_set names)) # map (\<lambda>m. (frame_line m, Frame m)) ms"

lemma stream_frames: "frames_among (stream_of names ms) = ms"
proof -
  have "frames_among (map (\<lambda>m. (frame_line m, Frame m)) ms) = ms" by (induction ms) simp_all
  then show ?thesis by (simp add: stream_of_def)
qed

section \<open>Progress\<close>

lemma deliver_one:
  assumes "sv_clients s q = Some c" "cl_phase c = Streaming names" "\<not> sv_stop s" "queues (sv_broker s) q = line # l"
  defines "s2 \<equiv> (set_client s q (c\<lparr>cl_sent := cl_sent c @ [line]\<rparr>))\<lparr>sv_broker := (sv_broker s)\<lparr>queues := (queues (sv_broker s))(q := l)\<rparr>\<rparr>"
  shows "(server_step u)\<^sup>*\<^sup>* s s2"
proof -
  let ?b = "(sv_broker s)\<lparr>queues := (queues (sv_broker s))(q := l)\<rparr>" and ?c = "c\<lparr>cl_phase := Sending names line\<rparr>"
  let ?s1 = "(set_client s q ?c)\<lparr>sv_broker := ?b\<rparr>"
  have "client_get (sv_broker s) q = (?b, Some line)" using assms(4) by (simp add: client_get_def)
  then have "server_step u s ?s1" by (rule Take [OF assms(1-3)])
  moreover have "server_step u ?s1 (set_client ?s1 q (?c\<lparr>cl_phase := Streaming names, cl_sent := cl_sent ?c @ [line]\<rparr>))"
    by (rule Send [where line = line]) (simp_all add: set_client_def)
  moreover have "set_client ?s1 q (?c\<lparr>cl_phase := Streaming names, cl_sent := cl_sent ?c @ [line]\<rparr>) = s2"
    using assms(2) by (cases c) (simp add: s2_def set_client_def)
  ultimately show ?thesis by (metis converse_rtranclp_into_rtranclp r_into_rtranclp)
qed

lemma deliver_all:
  "sv_clients s q = Some c \<Longrightarrow> cl_phase c = Streaming names \<Longrightarrow> \<not> sv_stop s \<Longrightarrow> queues (sv_broker s) q = l \<Longrightarrow>
   \<exists>s'. (server_step u)\<^sup>*\<^sup>* s s' \<and> sv_clients s' = (sv_clients s)(q \<mapsto> c\<lparr>cl_sent := cl_sent c @ l\<rparr>) \<and>
     queues (sv_broker s') = (queues (sv_broker s))(q := []) \<and> subs (sv_broker s') = subs (sv_broker s) \<and> sv_log s' = sv_log s"
proof (induction l arbitrary: s c)
  case Nil
  then show ?case by (intro exI [of _ s]) auto
next
  case (Cons line l)
  let ?s2 = "(set_client s q (c\<lparr>cl_sent := cl_sent c @ [line]\<rparr>))\<lparr>sv_broker := (sv_broker s)\<lparr>queues := (queues (sv_broker s))(q := l)\<rparr>\<rparr>"
  have step: "(server_step u)\<^sup>*\<^sup>* s ?s2" by (rule deliver_one [OF Cons.prems])
  have "\<exists>s'. (server_step u)\<^sup>*\<^sup>* ?s2 s' \<and>
      sv_clients s' = (sv_clients ?s2)(q \<mapsto> (c\<lparr>cl_sent := cl_sent c @ [line]\<rparr>)\<lparr>cl_sent := cl_sent (c\<lparr>cl_sent := cl_sent c @ [line]\<rparr>) @ l\<rparr>) \<and>
      queues (sv_broker s') = (queues (sv_broker ?s2))(q := []) \<and> subs (sv_broker s') = subs (sv_broker ?s2) \<and> sv_log s' = sv_log ?s2"
    by (rule Cons.IH) (use Cons.prems in \<open>simp_all add: set_client_def\<close>)
  then obtain s' where "(server_step u)\<^sup>*\<^sup>* ?s2 s'" "sv_clients s' = (sv_clients s)(q \<mapsto> c\<lparr>cl_sent := cl_sent c @ line # l\<rparr>)"
    "queues (sv_broker s') = (queues (sv_broker s))(q := [])" "subs (sv_broker s') = subs (sv_broker s)" "sv_log s' = sv_log s"
    by (auto simp: set_client_def)
  then show ?case using step by (intro exI [of _ s']) auto
qed

lemma finish_one:
  assumes "sv_stop s"
  shows "\<exists>s'. (server_step u)\<^sup>*\<^sup>* s s' \<and> sv_stop s' \<and> sv_next s' = sv_next s \<and>
    (\<forall>c. sv_clients s' q = Some c \<longrightarrow> cl_phase c = Gone) \<and> (\<forall>q'. q' \<noteq> q \<longrightarrow> sv_clients s' q' = sv_clients s q')"
proof (cases "sv_clients s q")
  case None
  then show ?thesis using assms by (intro exI [of _ s]) auto
next
  case (Some c)
  have gone: "\<exists>s'. (server_step u)\<^sup>*\<^sup>* t s' \<and> sv_stop s' \<and> sv_next s' = sv_next t \<and>
      (\<forall>c. sv_clients s' q = Some c \<longrightarrow> cl_phase c = Gone) \<and> (\<forall>q'. q' \<noteq> q \<longrightarrow> sv_clients s' q' = sv_clients t q')"
    if "sv_stop t" "sv_clients t q = Some e" "cl_phase e = Connected \<or> cl_phase e = Streaming names" for t e names
  proof -
    have "server_step u t (leave t q e)" using that Fail [of t q e] Finish [of t q e] by blast
    then show ?thesis using that(1) by (intro exI [of _ "leave t q e"]) (auto simp: leave_def set_client_def)
  qed
  have via: ?thesis if t: "server_step u s t" "sv_stop t" "sv_next t = sv_next s" "sv_clients t q = Some e"
      "cl_phase e = Streaming names" "\<forall>q'. q' \<noteq> q \<longrightarrow> sv_clients t q' = sv_clients s q'" for t e names
  proof -
    obtain s' where "(server_step u)\<^sup>*\<^sup>* t s'" "sv_stop s'" "sv_next s' = sv_next t"
      "\<forall>c. sv_clients s' q = Some c \<longrightarrow> cl_phase c = Gone" "\<forall>q'. q' \<noteq> q \<longrightarrow> sv_clients s' q' = sv_clients t q'"
      using gone [of t e names] t by blast
    then show ?thesis using t by (intro exI [of _ s']) (auto intro: converse_rtranclp_into_rtranclp)
  qed
  show ?thesis
  proof (cases "cl_phase c")
    case Connected
    then show ?thesis using gone [OF assms Some] by blast
  next
    case (Greeted names)
    then show ?thesis using via [OF Register [OF Some Greeted]] assms by (simp add: set_client_def)
  next
    case (Streaming names)
    then show ?thesis using gone [OF assms Some] by blast
  next
    case (Sending names line)
    then show ?thesis using via [OF Send [OF Some Sending]] assms by (simp add: set_client_def)
  next
    case Gone
    then show ?thesis using assms Some by (intro exI [of _ s]) auto
  qed
qed

lemma finish_below:
  "sv_stop s \<Longrightarrow> \<exists>s'. (server_step u)\<^sup>*\<^sup>* s s' \<and> sv_stop s' \<and> sv_next s' = sv_next s \<and>
     (\<forall>q < n. \<forall>c. sv_clients s' q = Some c \<longrightarrow> cl_phase c = Gone)"
proof (induction n)
  case 0
  then show ?case by (intro exI [of _ s]) simp
next
  case (Suc n)
  then obtain s1 where s1: "(server_step u)\<^sup>*\<^sup>* s s1" "sv_stop s1" "sv_next s1 = sv_next s"
    "\<forall>q < n. \<forall>c. sv_clients s1 q = Some c \<longrightarrow> cl_phase c = Gone" by blast
  from finish_one [OF s1(2), of u n] obtain s2 where s2: "(server_step u)\<^sup>*\<^sup>* s1 s2" "sv_stop s2" "sv_next s2 = sv_next s1"
    "\<forall>c. sv_clients s2 n = Some c \<longrightarrow> cl_phase c = Gone" "\<forall>q'. q' \<noteq> n \<longrightarrow> sv_clients s2 q' = sv_clients s1 q'" by blast
  have "\<forall>c. sv_clients s2 q = Some c \<longrightarrow> cl_phase c = Gone" if "q < Suc n" for q
    using s1(4) s2(4,5) that by (metis less_SucE)
  then show ?case using s1(1-3) s2(1-3) by (intro exI [of _ s2]) auto
qed

section \<open>An example run\<close>

text \<open>One FIFO with one partial frame of three bytes; a client connects, subscribes and gets it.\<close>

definition example_setup :: "32 word list server_setup" where
  "example_setup = \<lparr>su_fifos = [''cmd''], su_ctrl = (\<lambda>name. scripted), su_data = (\<lambda>name. scripted)\<rparr>"

definition example_device :: "32 word list" where
  "example_device = [0, 1, 0x80000003, 0x00030201, 0]"

definition example_message :: fifo_frame where
  "example_message = \<lparr>ff_fifo = ''CMD'', ff_frame = 1, ff_ts = ''1.5'', ff_len = 3, ff_partial = True, ff_data = ''010203''\<rparr>"

definition example_client :: "phase \<Rightarrow> string list \<Rightarrow> nat \<Rightarrow> client option" where
  "example_client p sent = [0 \<mapsto> \<lparr>cl_phase = p, cl_sent = sent\<rparr>]"

text \<open>The states of the run: the client's phase and lines, the subscriptions, its queue, whether the frame is published.\<close>

definition example_state :: "phase \<Rightarrow> string list \<Rightarrow> (string set \<times> nat) list \<Rightarrow> string list \<Rightarrow> bool \<Rightarrow> 32 word list server" where
  "example_state p sent ss ql pub =
     \<lparr>sv_dev = (if pub then [] else tl example_device),
      sv_poll = (\<lambda>name. \<lparr>ps_frame = (if pub \<and> name = ''cmd'' then 1 else 0), ps_warned = False\<rparr>),
      sv_broker = \<lparr>subs = ss, queues = (\<lambda>q. if q = 0 then ql else [])\<rparr>, sv_clients = example_client p sent, sv_next = 1,
      sv_stop = False, sv_log = (if pub then [(''cmd'', example_message)] else [])\<rparr>"

lemma example_subscription: "subscription ''SUBSCRIBE cmd'' [''cmd''] = {''cmd''}"
  by code_simp

lemma example_poll:
  "poll_round ''CMD'' scripted scripted ''1.5'' \<lparr>ps_frame = 0, ps_warned = False\<rparr> (tl example_device) =
     (\<lparr>ps_frame = 1, ps_warned = False\<rparr>, [], Some example_message)"
proof -
  let ?s = "\<lparr>ps_frame = 0, ps_warned = False\<rparr>" and ?d = "[1, 0x80000003, 0x00030201, 0] :: 32 word list"
  have "poll_round ''CMD'' scripted scripted ''1.5'' ?s ?d = (\<lparr>ps_frame = ps_frame ?s + 1, ps_warned = False\<rparr>, [],
    Some \<lparr>ff_fifo = ''CMD'', ff_frame = ps_frame ?s + 1, ff_ts = ''1.5'', ff_len = length [1::int, 2, 3],
          ff_partial = (drop_bit 31 (0x80000003 :: 32 word) \<noteq> 0), ff_data = hex_bytes [1, 2, 3]\<rparr>)"
  proof (rule poll_round_frame)
    show "r32 scripted (snd (r32 scripted ?d FIFO_RDFO)) FIFO_RLR = (0x80000003, [0x00030201, 0])"
      by (simp add: scripted_def r32_def)
    show "(0x80000003 :: 32 word) AND 0x7FFFFFFF = word_of_nat (length [1::int, 2, 3])" by simp
    show "pops scripted (words32 ([1, 2, 3] @ replicate 5 0)) [0x00030201, 0] []"
    proof -
      have "replicate 5 (0::int) = [0, 0, 0, 0, 0]" by (simp add: eval_nat_numeral)
      then show ?thesis by (simp add: scripted_def r32_def)
    qed
  qed (simp_all add: scripted_def r32_def is_byte_def)
  moreover have "hex_bytes [1, 2, 3] = ''010203''" by code_simp
  moreover have "drop_bit 31 (0x80000003 :: 32 word) \<noteq> 0" by simp
  ultimately show ?thesis by (simp add: example_device_def example_message_def)
qed

lemma example_reachable:
  "reachable example_setup example_device (example_state Connected [] [] [] False)"
  "reachable example_setup example_device (example_state (Greeted {''cmd''}) [hello_line {''cmd''}] [] [] False)"
  "reachable example_setup example_device (example_state (Streaming {''cmd''}) [hello_line {''cmd''}] [({''cmd''}, 0)] [] False)"
  "reachable example_setup example_device
     (example_state (Streaming {''cmd''}) [hello_line {''cmd''}] [({''cmd''}, 0)] [frame_line example_message] True)"
  "reachable example_setup example_device
     (example_state (Sending {''cmd''} (frame_line example_message)) [hello_line {''cmd''}] [({''cmd''}, 0)] [] True)"
  "reachable example_setup example_device
     (example_state (Streaming {''cmd''}) [hello_line {''cmd''}, frame_line example_message] [({''cmd''}, 0)] [] True)"
proof -
  let ?u = example_setup and ?r = "reachable example_setup example_device" and ?h = "hello_line {''cmd''}" and ?l = "frame_line example_message"
  have step: "?r s'" if "?r s" "server_step ?u s s1" "s1 = s'" for s s1 s'
    using that by (auto simp: reachable_def)
  have tag: "fifo_tag ''cmd'' = ''CMD''" by (simp add: fifo_tag_def FIFOS_def)
  have "?r (server_init ?u example_device)" by (simp add: reachable_def)
  then show 1: "?r (example_state Connected [] [] [] False)"
    by (rule step [OF _ Accept])
      (simp_all add: server_init_def example_state_def example_setup_def poller_start_def reset_rx_def w32_def r32_def scripted_def
        example_device_def set_client_def broker_init_def example_client_def fun_eq_iff)
  show 2: "?r (example_state (Greeted {''cmd''}) [?h] [] [] False)"
    by (rule step [OF 1 Greet [where q = 0 and c = "\<lparr>cl_phase = Connected, cl_sent = []\<rparr>" and req = "''SUBSCRIBE cmd''"]])
      (simp_all add: example_state_def set_client_def example_client_def example_setup_def example_subscription)
  show 3: "?r (example_state (Streaming {''cmd''}) [?h] [({''cmd''}, 0)] [] False)"
    by (rule step [OF 2 Register [where q = 0 and c = "\<lparr>cl_phase = Greeted {''cmd''}, cl_sent = [?h]\<rparr>"]])
      (simp_all add: example_state_def set_client_def example_client_def broker_add_def)
  show 4: "?r (example_state (Streaming {''cmd''}) [?h] [({''cmd''}, 0)] [?l] True)"
    by (rule step [OF 3 Poll [where name = "''cmd''" and now = "''1.5''"]])
      (auto simp: example_state_def example_setup_def poll_server_def tag example_poll broker_publish_def put_nowait_def QUEUE_MAX_def)
  show 5: "?r (example_state (Sending {''cmd''} ?l) [?h] [({''cmd''}, 0)] [] True)"
    by (rule step [OF 4 Take [where q = 0 and c = "\<lparr>cl_phase = Streaming {''cmd''}, cl_sent = [?h]\<rparr>" and line = ?l]])
      (auto simp: example_state_def set_client_def example_client_def client_get_def)
  show "?r (example_state (Streaming {''cmd''}) [?h, ?l] [({''cmd''}, 0)] [] True)"
    by (rule step [OF 5 Send [where q = 0 and c = "\<lparr>cl_phase = Sending {''cmd''} ?l, cl_sent = [?h]\<rparr>" and line = ?l]])
      (auto simp: example_state_def set_client_def example_client_def)
qed

section \<open>Properties\<close>







text \<open>C31. The server can always be stopped: from every reachable state there is a run to a state in which every
  client's thread has ended and the broker holds no subscription.\<close>
theorem server_stops:
  assumes "reachable u d s"
  shows "\<exists>s'. (server_step u)\<^sup>*\<^sup>* s s' \<and> sv_stop s' \<and>
    (\<forall>q c. sv_clients s' q = Some c \<longrightarrow> cl_phase c = Gone) \<and> subs (sv_broker s') = []"
proof -
  let ?s = "s\<lparr>sv_stop := True\<rparr>"
  have stop: "server_step u s ?s" by (rule Stop)
  obtain s' where s': "(server_step u)\<^sup>*\<^sup>* ?s s'" "sv_stop s'" "sv_next s' = sv_next ?s"
    "\<forall>q < sv_next s. \<forall>c. sv_clients s' q = Some c \<longrightarrow> cl_phase c = Gone"
    using finish_below [of ?s u "sv_next s"] by auto
  have run: "(server_step u)\<^sup>*\<^sup>* s s'" using stop s'(1) by (rule converse_rtranclp_into_rtranclp)
  then have ok: "clients_ok s'" using reachable_ok [OF reachable_trans [OF assms]] by blast
  have gone: "cl_phase c = Gone" if "sv_clients s' q = Some c" for q c
  proof -
    have "q < sv_next s'" using ok that by (metis clients_ok_def linorder_not_less option.distinct(1))
    then show ?thesis using s'(3,4) that by simp
  qed
  have "fst (view q (sv_broker s')) = []" for q
    using ok gone [of q] by (cases "sv_clients s' q") (auto simp: clients_ok_def client_inv_def dest: spec [of _ q])
  then have "filter (\<lambda>(n, sq). sq = q) (subs (sv_broker s')) = []" for q by (simp add: view_def)
  then have none: "(\<lambda>(n, sq). sq = q) x = False" if "x \<in> set (subs (sv_broker s'))" for q x
    using that unfolding filter_empty_conv by blast
  have "subs (sv_broker s') = []"
  proof (rule ccontr)
    assume "subs (sv_broker s') \<noteq> []"
    then obtain n q where "(n, q) \<in> set (subs (sv_broker s'))" by (metis list.set_intros(1) neq_Nil_conv surj_pair)
    then show False using none [of "(n, q)" q] by simp
  qed
  then show ?thesis using run s'(2) gone by blast
qed

theorem server_stops_witness:
  "\<exists>s'. (server_step example_setup)\<^sup>*\<^sup>* (example_state Connected [] [] [] False) s' \<and> subs (sv_broker s') = []"
  using server_stops [OF example_reachable(1)] by blast

text \<open>A greeted client is not subscribed yet: its thread registers with the broker only after it has sent
  the greeting, so a frame published in between never reaches it.\<close>
theorem greeted_not_subscribed:
  assumes "reachable u d s" and "sv_clients s q = Some c" and "cl_phase c = Greeted names"
  shows "cl_sent c = [hello_line names] \<and> view q (sv_broker (poll_server u name now s)) = ([], [])"
proof -
  have inv: "cl_sent c = [hello_line names]" "view q (sv_broker s) = ([], [])"
    using reachable_inv [OF assms(1), of q] assms(2,3) by (simp_all add: client_inv_def)
  show ?thesis
  proof (cases rule: poll_server_cases [of u name now s])
    case (publish p d m)
    then show ?thesis using inv view_publish_none [of q "sv_broker s"] by simp
  qed (use inv in simp)
qed

theorem greeted_not_subscribed_witness:
  "view 0 (sv_broker (poll_server example_setup ''cmd'' ''1.5''
     (example_state (Greeted {''cmd''}) [hello_line {''cmd''}] [] [] False))) = ([], [])"
proof -
  let ?s = "example_state (Greeted {''cmd''}) [hello_line {''cmd''}] [] [] False"
  have "sv_clients ?s 0 = Some \<lparr>cl_phase = Greeted {''cmd''}, cl_sent = [hello_line {''cmd''}]\<rparr>"
    by (simp add: example_state_def example_client_def)
  then show ?thesis using greeted_not_subscribed [OF example_reachable(2), of 0] by auto
qed

section \<open>Requests\<close>

text \<open>The line that \<open>fifo_subscribe.py\<close> sends for the FIFOs named on its command line.\<close>

definition subscribe_request :: "string list \<Rightarrow> string" where
  "subscribe_request fifos = ''SUBSCRIBE '' @ (if fifos \<noteq> [] then join_words fifos else ''*'') @ [CHR 10]"

lemma request_words:
  assumes "list_all is_token fifos"
  shows "py_split (py_strip (subscribe_request fifos)) = ''SUBSCRIBE'' # (if fifos = [] then [''*''] else fifos)"
proof -
  let ?ws = "if fifos = [] then [''*''] else fifos"
  have "subscribe_request fifos = join_words (''SUBSCRIBE'' # ?ws) @ [CHR 10]"
    by (cases fifos) (simp_all add: subscribe_request_def)
  moreover have "list_all is_token (''SUBSCRIBE'' # ?ws)" using assms by (auto simp: is_token_def is_space_def)
  ultimately show ?thesis using py_split_join [of "''SUBSCRIBE'' # ?ws" "CHR 10"] by (simp add: py_split_strip is_space_def)
qed

text \<open>The subscriber's request is what the server understands: without names, with a star, or if no name is
  served, all FIFOs; otherwise exactly the served ones among the names, in any case of letters.\<close>
theorem request_understood:
  assumes "list_all is_token fifos"
  shows "subscription (subscribe_request fifos) available =
    (let names = set (map (map lower_char) fifos) \<inter> set available
     in if fifos = [] \<or> ''*'' \<in> set fifos \<or> names = {} then set available else names)"
proof -
  have "map upper_ascii ''SUBSCRIBE'' = ''SUBSCRIBE''" by code_simp
  then show ?thesis by (auto simp: subscription_def request_words [OF assms] Let_def)
qed

theorem request_understood_witness:
  "subscription (subscribe_request [''CMD'', ''mdebug'', ''x'']) [''cmd'', ''debug'', ''mdebug''] = {''cmd'', ''mdebug''}"
proof -
  have "list_all is_token [''CMD'', ''mdebug'', ''x'']" by code_simp
  moreover have "map (map lower_char) [''CMD'', ''mdebug'', ''x''] = [''cmd'', ''mdebug'', ''x'']" by code_simp
  ultimately show ?thesis using request_understood [of "[''CMD'', ''mdebug'', ''x'']"] by (auto simp: Let_def)
qed

end
