(* ===== verification/Parser_Backlog.thy ===== *)
theory Parser_Backlog
  imports Parser_Frames
begin

text \<open>
  What happens when the parser does not keep pace: short messages wait in the buffer while beats go on
  arriving, more than one word is left behind a message, and \<open>compress_buffer\<close> loses the rest. The
  theory looks into the replay loop after any number of its beats.
\<close>

section \<open>The replay loop up to a beat\<close>

definition replay_beats :: "parser \<Rightarrow> int \<Rightarrow> int list \<Rightarrow> nat \<Rightarrow> parser" where
  "replay_beats p fno payload k =
     foldl (\<lambda>q i. let (off, d, keep, eof) = payload_beat payload (8 * i)
                  in parser_step q fno off d keep eof) p [0..<k]"

lemma replay_beats_all: "replay_payload p fno payload = replay_beats p fno payload ((length payload + 7) div 8)"
  by (simp add: replay_payload_def replay_beats_def)

lemma replay_beats_Suc:
  assumes "payload_beat payload (8 * k) = (off, d, keep, eof)"
  shows "replay_beats p fno payload (Suc k) = parser_step (replay_beats p fno payload k) fno off d keep eof"
  by (simp add: replay_beats_def assms)

abbreviation chunk :: "int list \<Rightarrow> nat \<Rightarrow> int list" where
  "chunk payload i \<equiv> take 8 (drop (8 * i) payload)"

definition spec_beats :: "spec \<Rightarrow> int \<Rightarrow> int list \<Rightarrow> nat \<Rightarrow> spec" where
  "spec_beats s fno payload k =
     foldl (\<lambda>s i. spec_step s fno (int (8 * i)) (chunk payload i) False) s [0..<k]"

lemma spec_beats_0: "spec_beats s fno payload 0 = s"
  by (simp add: spec_beats_def)

lemma spec_beats_Suc:
  "spec_beats s fno payload (Suc k) =
    spec_step (spec_beats s fno payload k) fno (int (8 * k)) (chunk payload k) False"
  by (simp add: spec_beats_def)

lemma beats_refine:
  assumes "is_bytes payload" and "wf_parser p"
    and "\<And>i. i < k \<Longrightarrow> step_fits (spec_beats (abs_parser p) fno payload i) (chunk payload i)"
    and "8 * k < length payload"
  shows "wf_parser (replay_beats p fno payload k) \<and>
    abs_parser (replay_beats p fno payload k) = spec_beats (abs_parser p) fno payload k"
  using assms(3,4)
proof (induction k)
  case 0
  then show ?case using assms(2) by (simp add: replay_beats_def spec_beats_def)
next
  case (Suc k)
  then have IH: "wf_parser (replay_beats p fno payload k)"
    "abs_parser (replay_beats p fno payload k) = spec_beats (abs_parser p) fno payload k" by simp_all
  obtain off d keep eof where b: "payload_beat payload (8 * k) = (off, d, keep, eof)" by (metis surj_pair)
  note beat = payload_beat_enabled [OF assms(1) b]
  have eof: "\<not> eof" using beat(6) Suc.prems(2) by simp
  have "step_fits (abs_parser (replay_beats p fno payload k)) (take (popcount keep) d)"
    unfolding IH(2) beat(5) by (rule Suc.prems(1)) simp
  from parser_step_refines_lemma [OF IH(1) beat(2,3,4) this] show ?case
    unfolding replay_beats_Suc [OF b] spec_beats_Suc beat(1) beat(5) IH(2) using eof by simp
qed

section \<open>A message with seven bytes behind it\<close>

text \<open>
  The payload: a header, a message one byte longer than a multiple of eight (as Add Order expanded and the
  long and short Trade are), a message of six bytes (as Time is), and at least ten more bytes. The beat
  that ends the first message brings seven bytes beyond it.
\<close>

definition behind_seven :: "int list \<Rightarrow> int list \<Rightarrow> int list \<Rightarrow> int list \<Rightarrow> nat \<Rightarrow> bool" where
  "behind_seven hdr a t rest n \<longleftrightarrow> is_bytes (hdr @ a @ t @ rest) \<and> length hdr = 8 \<and>
     from_le (take 2 hdr) = int (length (hdr @ a @ t @ rest)) \<and>
     length a = 8 * n + 1 \<and> 0 < n \<and> n \<le> 8 \<and> hd a = int (length a) \<and>
     length t = 6 \<and> hd t = 6 \<and> 10 \<le> length rest"

lemma chunk_behind:
  "length hdr = 8 \<Longrightarrow> chunk (hdr @ x) (Suc i) = chunk x i"
  by simp

lemma chunk_full: "8 * Suc i \<le> length x \<Longrightarrow> length (chunk x i) = 8"
  by simp

lemma chunk_inside: "8 * Suc i \<le> length a \<Longrightarrow> take (8 * i) a @ chunk (a @ x) i = take (8 * Suc i) a"
  by (simp add: add.commute [of 8] take_add)

lemma fits_waiting:
  assumes "sstate s = MSG" and "spend s @ bs = pend" and "\<not> nat (hd pend) \<le> length pend" and "length pend \<le> 72"
  shows "step_fits s bs"
  using assms by (simp add: step_fits_def consumed_def Let_def)

lemma fits_taking:
  assumes "sstate s = MSG" and "spend s @ bs = m @ x" and "hd m = int (length m)" "m \<noteq> []"
    and "length x \<le> 8" and "length (m @ x) \<le> 72"
  shows "step_fits s bs"
  using assms by (simp add: step_fits_def consumed_def Let_def)

lemma step_taking:
  assumes "sstate s = MSG" and "spend s @ bs = m @ x" and "hd m = int (length m)" "m \<noteq> []"
    and "stotal s + int (length m) < shdr_len s"
  shows "sstate (spec_step s f off bs False) = MSG \<and> spend (spec_step s f off bs False) = x \<and>
    length (sout (spec_step s f off bs False)) = length (sout s) + 1"
  using assms by (simp add: spec_step_def Let_def)

lemma first_message:
  assumes "behind_seven hdr a t rest n"
  shows "length a = 8 * n + 1" "hd a = int (length a)" "a \<noteq> []" "n \<le> 8" "length hdr = 8" "0 < n"
    "length t = 6" "hd t = 6" "t \<noteq> []" "10 \<le> length rest" "is_bytes (hdr @ a @ t @ rest)"
    "from_le (take 2 hdr) = int (length (hdr @ a @ t @ rest))"
  using assms by (auto simp: behind_seven_def)

lemma waiting:
  assumes "behind_seven hdr a t rest n" and "sstate s = HDR" "spend s = []" and "i \<le> n"
  shows "spec_beats s f (hdr @ a @ t @ rest) (Suc i) =
      s\<lparr>spend := take (8 * i) a, shdr_len := int (length (hdr @ a @ t @ rest)), stotal := 8, sstate := MSG\<rparr>"
  using assms(4)
proof (induction i)
  case 0
  then show ?case using assms(2,3) first_message(5,12) [OF assms(1)]
    by (simp add: spec_beats_def spec_step_def Let_def)
next
  case (Suc i)
  note a = first_message [OF assms(1)]
  let ?p = "hdr @ a @ t @ rest"
  let ?s = "s\<lparr>spend := take (8 * i) a, shdr_len := int (length ?p), stotal := 8, sstate := MSG\<rparr>"
  have inside: "8 * Suc i \<le> length a" using Suc.prems a(1) by simp
  have pending: "spend ?s = take (8 * i) a" by simp
  have cut: "spend ?s @ chunk ?p (Suc i) = take (8 * Suc i) a"
    unfolding chunk_behind [OF a(5)] pending by (rule chunk_inside [OF inside])
  have front: "hd (take (8 * Suc i) a) = int (length a)" "take (8 * Suc i) a \<noteq> []" using a(2,3) by (cases a; simp)+
  have "\<not> nat (hd (take (8 * Suc i) a)) \<le> length (take (8 * Suc i) a)"
    unfolding front(1) using Suc.prems a(1) by simp
  from spec_step_partial [OF _ cut front(2) this, of False] Suc.IH Suc.prems show ?case
    by (simp only: spec_beats_Suc [of _ _ _ "Suc i"]) simp
qed

text \<open>Every beat up to the one that ends the first message fits.\<close>

lemma waiting_fits:
  assumes "behind_seven hdr a t rest n" and "sstate s = HDR" "spend s = []" and "i < n"
  shows "step_fits (spec_beats s f (hdr @ a @ t @ rest) (Suc i)) (chunk (hdr @ a @ t @ rest) (Suc i))"
proof -
  note a = first_message [OF assms(1)]
  let ?p = "hdr @ a @ t @ rest"
  have inside: "8 * Suc i \<le> length a" using assms(4) a(1) by simp
  have front: "hd (take (8 * Suc i) a) = int (length a)" using a(2,3) by (cases a) simp_all
  note now = waiting [OF assms(1-3), of i f]
  have pending: "spend (spec_beats s f ?p (Suc i)) = take (8 * i) a" using now assms(4) by simp
  show ?thesis
  proof (rule fits_waiting)
    show "spend (spec_beats s f ?p (Suc i)) @ chunk ?p (Suc i) = take (8 * Suc i) a"
      unfolding chunk_behind [OF a(5)] pending by (rule chunk_inside [OF inside])
    show "\<not> nat (hd (take (8 * Suc i) a)) \<le> length (take (8 * Suc i) a)"
      unfolding front using assms(4) a(1) by simp
    show "length (take (8 * Suc i) a) \<le> 72" using assms(4) a(4) by simp
  qed (use now assms(4) in simp)
qed

text \<open>The beat that ends the first message.\<close>

lemma seven_left:
  assumes "behind_seven hdr a t rest n" and "sstate s = HDR" "spend s = []"
    and s1_def: "s1 = spec_beats s f (hdr @ a @ t @ rest) (n + 2)"
  shows "sstate s1 = MSG \<and> spend s1 = t @ take 1 rest \<and> length (sout s1) = length (sout s) + 1"
    and "step_fits (spec_beats s f (hdr @ a @ t @ rest) (n + 1)) (chunk (hdr @ a @ t @ rest) (n + 1))"
proof -
  note a = first_message [OF assms(1)]
  let ?p = "hdr @ a @ t @ rest" and ?s = "spec_beats s f (hdr @ a @ t @ rest) (Suc n)"
  have "chunk ?p (Suc n) = take 8 (drop (8 * n) a @ t @ rest)"
    unfolding chunk_behind [OF a(5)] using a(1) by simp
  also have "\<dots> = drop (8 * n) a @ t @ take 1 rest" using a(1,7) by simp
  finally have cut: "spend ?s @ chunk ?p (Suc n) = a @ t @ take 1 rest"
    using waiting [OF assms(1-3) order_refl, of f] by simp
  have st: "sstate ?s = MSG" "stotal ?s + int (length a) < shdr_len ?s" "sout ?s = sout s"
    using waiting [OF assms(1-3) order_refl, of f] a(5,7) by simp_all
  have "length (t @ take 1 rest) \<le> 8" "length (a @ t @ take 1 rest) \<le> 72" using a(1,4,7,10) by simp_all
  from fits_taking [OF st(1) cut a(2,3) this]
  show "step_fits (spec_beats s f ?p (n + 1)) (chunk ?p (n + 1))" by simp
  show "sstate s1 = MSG \<and> spend s1 = t @ take 1 rest \<and> length (sout s1) = length (sout s) + 1"
    using step_taking [OF st(1) cut a(2,3) st(2), of f "int (8 * Suc n)"]
    by (simp add: s1_def spec_beats_Suc [of _ _ _ "Suc n", simplified] st(3))
qed

lemma beat_after_seven:
  assumes "wf_parser q" and "pstate q = MSG" and "queue_bytes (pbuf q, pL q) = t @ [b]" "length t = 6" "hd t = 6"
    and "is_bytes d" "length d = 8" "popcount keep = 8"
  shows "pL (parser_step q f off d keep eof) = 9 \<and> byte_at (pbuf (parser_step q f off d keep eof)) 8 = 0 \<and>
    length (pout (parser_step q f off d keep eof)) = length (pout q) + 1"
proof -
  obtain b1 l1 where add: "add_data_to_buffer (pbuf q) (pL q) d keep = (b1, l1)" by fastforce
  have "wf_buf (b1, l1) \<and> queue_bytes (b1, l1) = (t @ [b]) @ d"
    using bq.add_law [OF assms(1) [unfolded wf_parser_def] assms(6,7), of keep] assms(3,4,7,8) by (simp add: add)
  then have b1: "wf_buf (b1, l1)" "queue_bytes (b1, l1) = (t @ [b]) @ d" by simp_all
  have "t \<noteq> []" using assms(4) by auto
  then have reads: "l1 = 15" "byte_at b1 0 = 6"
    using queue_reads(1,2) [OF b1(1)] b1(2) assms(4,5,7) by simp_all
  have lost: "snd (compress_buffer b1 15 (int 6)) = 15 - int 6" "byte_at (fst (compress_buffer b1 15 (int 6))) (int 8) = 0"
    using compress_ninth [of b1 15 6 8] b1(1) reads(1) by simp_all
  show ?thesis using assms(2) reads lost
    by (simp add: parser_step_def add Let_def split_beta)
qed

section \<open>Properties\<close>

text \<open>C17. A byte of the stream is lost behind a short message. In a unit whose first message is one byte
  longer than a multiple of eight (an expanded Add Order, a Trade) and whose second has six bytes (a
  Time), followed by at least ten more bytes, both messages are taken off their beats, but after the
  second one the buffer counts nine bytes and the ninth, the message's byte 8, which lies in the order id,
  reads as zero, whatever the stream said.\<close>
theorem backlog_loses_byte:
  assumes "idle p" and "behind_seven hdr a t rest n"
  shows "let q = replay_beats p f (hdr @ a @ t @ rest) (n + 3)
    in pL q = 9 \<and> byte_at (pbuf q) 8 = 0 \<and> length (pout q) = length (pout p) + 2"
proof -
  let ?p = "hdr @ a @ t @ rest"
  note a = first_message [OF assms(2)]
  have s: "wf_parser p" "sstate (abs_parser p) = HDR" "spend (abs_parser p) = []"
    using assms(1) by (simp_all add: idle_def abs_parser_def)
  have fits: "step_fits (spec_beats (abs_parser p) f ?p i) (chunk ?p i)" if i: "i < n + 2" for i
  proof (cases i)
    case 0
    then show ?thesis using s a(5) by (simp add: spec_beats_def step_fits_def consumed_def Let_def)
  next
    case (Suc j)
    then consider "j < n" | "i = n + 1" using i by linarith
    then show ?thesis using waiting_fits [OF assms(2) s(2,3)] seven_left(2) [OF assms(2) s(2,3) refl] Suc by cases auto
  qed
  have long: "8 * (n + 3) < length ?p" using a(1,5,7,10) by simp
  define q where "q = replay_beats p f ?p (n + 2)"
  have q: "wf_parser q" "abs_parser q = spec_beats (abs_parser p) f ?p (n + 2)"
    using beats_refine [OF a(11) s(1) fits] long by (simp_all add: q_def)
  note left = seven_left(1) [OF assms(2) s(2,3) q(2)]
  obtain b where b: "take 1 rest = [b]" using a(10) by (cases rest) simp_all
  obtain off d keep eof where beat: "payload_beat ?p (8 * (n + 2)) = (off, d, keep, eof)" by (metis surj_pair)
  note facts = payload_beat_enabled [OF a(11) beat]
  have "length (take (popcount keep) d) = 8"
    unfolding facts(5) by (rule chunk_full) (use long in simp)
  then have "popcount keep = 8" using facts(3,4) by simp
  note after = beat_after_seven [OF q(1) _ _ a(7,8) facts(2,3) this, of b f off eof]
  have step: "replay_beats p f ?p (n + 3) = parser_step q f off d keep eof"
    using replay_beats_Suc [OF beat, of p f] by (simp add: q_def eval_nat_numeral)
  show ?thesis unfolding Let_def step using after left b by (simp add: abs_parser_def)
qed

text \<open>An expanded Add Order, a Time, a Delete Order: byte 8 of the last is 0x52.\<close>

theorem backlog_loses_byte_witness:
  "let payload = [69, 0, 3, 1, 5, 0, 0, 0] @ ([41, 47] @ replicate 39 65) @ [6, 32, 152, 133, 0, 0] @
         [14, 41, 224, 171, 0, 0, 79, 82, 0x52, 68, 48, 48, 48, 49];
       q = replay_beats parser_init 0 payload 8
   in length (pout q) = 2 \<and> pL q = 9 \<and> byte_at (pbuf q) 8 = 0 \<and> payload ! (55 + 8) = 0x52"
proof -
  let ?a = "[41, 47] @ replicate 39 65" and ?t = "[6, 32, 152, 133, 0, 0]"
    and ?r = "[14, 41, 224, 171, 0, 0, 79, 82, 0x52, 68, 48, 48, 48, 49]"
  have "behind_seven [69, 0, 3, 1, 5, 0, 0, 0] ?a ?t ?r 5"
    by (simp add: behind_seven_def is_byte_def)
  from backlog_loses_byte [OF idle_init this, of 0] show ?thesis
    by (simp add: Let_def parser_init_def nth_append)
qed

end
