(* ===== verification/Message_Vi.thy ===== *)
theory Message_Vi
  imports Py_Text
begin

text \<open>
  \<open>tools/labview-aixml/gen_message_vi.py\<close>: it writes the XML of a LabVIEW VI that decodes one kind of
  PITCH message into an order-book command. A line of the document is an element of the datatype
  \<open>vi_elem\<close>, with \<open>elem_text\<close> for the line the program formats; the state of a run is the counter of
  unique ids and the lines so far. The second half states when such a document is well formed, with
  each element's parent the element around it and each net driven, with the type expected, before it
  is read, and shows that the generator only writes such documents.
\<close>

section \<open>Tables\<close>

definition ENUM_CHOICES :: "string list" where
  "ENUM_CHOICES = [''Time'', ''AddOrder'', ''OrderExecuted'', ''OrderExecutedAtPrice'', ''ReduceSize'', ''ModifyOrder'',
     ''DeleteOrder'', ''Get.Everything'', ''Get.All.Orders'', ''Get.Top'']"

definition ENUM_EXT :: "string list" where
  "ENUM_EXT = ENUM_CHOICES @ [''Trade'', ''Unsupported'']"

definition CLUSTER_ORDER :: "string list" where
  "CLUSTER_ORDER = [''type'', ''side'', ''orderId '', ''quantity'', ''symbol'', ''price'', ''executed.qty'', ''canceled.qty'',
     ''remaining.qty'', ''seconds'', ''nanoseconds'', ''Add'', ''Edit'', ''Remove'', ''seq no'', ''recv.time'', ''parse.time'']"

definition CLUSTER_TYPES :: "string list" where
  "CLUSTER_TYPES = [''ENUM'', ''uint8'', ''uint64'', ''uint32'', ''uint64'', ''uint64'', ''uint32'', ''uint32'', ''uint32'',
     ''uint64'', ''uint64'', ''bool'', ''bool'', ''bool'', ''uint32'', ''uint64'', ''uint64'']"

text \<open>A conversion: node name, output terminal, result type.\<close>

definition CONV :: "(string \<times> string \<times> string \<times> string) list" where
  "CONV = [(''u8'', ''To Unsigned Byte Integer'', ''unsigned 8bit integer'', ''uint8''),
     (''u16'', ''To Unsigned Word Integer'', ''unsigned 16bit integer'', ''uint16''),
     (''u32'', ''To Unsigned Long Integer'', ''unsigned 32bit integer'', ''uint32''),
     (''u64'', ''To Unsigned Quad Integer'', ''unsigned 64bit integer'', ''uint64'')]"

definition DEF :: string where
  "DEF = ''[0,0,0,0,0,0,0,0,0,0,0,false,false,false,0,0,0]''"

text \<open>A field of a frame: cluster field, start, length, target.\<close>

type_synonym vi_field = "string \<times> nat option \<times> nat option \<times> string"

record vi_frame =
  fr_sel :: string
  fr_default :: bool
  fr_fields :: "vi_field list"
  fr_label :: string

record vi_spec =
  sp_desc :: string
  sp_ext_enum :: bool
  sp_type_value :: "nat option"
  sp_flags :: "(string \<times> bool) list"
  sp_frames :: "vi_frame list"

definition vi_read :: "string \<Rightarrow> nat \<Rightarrow> nat \<Rightarrow> string \<Rightarrow> vi_field" where
  "vi_read field start len target = (field, Some start, Some len, target)"

definition vi_fixed :: "string \<Rightarrow> string \<Rightarrow> vi_field" where
  "vi_fixed field target = (field, None, None, target)"

definition SPEC_ModifyOrder :: vi_spec where
  "SPEC_ModifyOrder = \<lparr>
     sp_desc = ''Cboe PITCH Modify Order (0x27 long, 0x28 short) -> orderbook.command: type ModifyOrder, orderId, new quantity, ''
       @ ''new price, nanoseconds, Edit. Short price keeps 2 implied decimals (as AddOrder short does).'',
     sp_ext_enum = False, sp_type_value = Some 5, sp_flags = [(''Edit'', True)],
     sp_frames = [
       \<lparr>fr_sel = ''39'', fr_default = True, fr_fields = [vi_read ''quantity'' 14 4 ''uint32'', vi_read ''price'' 18 8 ''uint64''],
        fr_label = ''ModifyOrder (long)''\<rparr>,
       \<lparr>fr_sel = ''40'', fr_default = False, fr_fields = [vi_read ''quantity'' 14 2 ''uint32'', vi_read ''price'' 16 2 ''uint64''],
        fr_label = ''ModifyOrder (short)''\<rparr>]\<rparr>"

definition SPEC_DeleteOrder :: vi_spec where
  "SPEC_DeleteOrder = \<lparr>
     sp_desc = ''Cboe PITCH Delete Order (0x29) -> orderbook.command: type DeleteOrder, orderId, nanoseconds, Remove.'',
     sp_ext_enum = False, sp_type_value = Some 6, sp_flags = [(''Remove'', True)], sp_frames = []\<rparr>"

definition SPEC_Trade :: vi_spec where
  "SPEC_Trade = \<lparr>
     sp_desc = ''Cboe PITCH Trade (0x2A long, 0x2B short, 0x30 expanded) -> orderbook.command: type Trade (enum value 10, add ''
       @ ''Trade=10 and Unsupported=11 to orderbook.command.type.ctl), orderId, side, quantity, symbol (8 chars, space padded), ''
       @ ''price, nanoseconds. Short price keeps 2 implied decimals.'',
     sp_ext_enum = True, sp_type_value = Some 10, sp_flags = [],
     sp_frames = [
       \<lparr>fr_sel = ''42'', fr_default = True, fr_fields = [vi_read ''side'' 14 1 ''uint8'', vi_read ''quantity'' 15 4 ''uint32'',
          vi_read ''symbol'' 19 6 ''sym6'', vi_read ''price'' 25 8 ''uint64''], fr_label = ''Trade (long)''\<rparr>,
       \<lparr>fr_sel = ''43'', fr_default = False, fr_fields = [vi_read ''side'' 14 1 ''uint8'', vi_read ''quantity'' 15 2 ''uint32'',
          vi_read ''symbol'' 17 6 ''sym6'', vi_read ''price'' 23 2 ''uint64''], fr_label = ''Trade (short)''\<rparr>,
       \<lparr>fr_sel = ''48'', fr_default = False, fr_fields = [vi_read ''side'' 14 1 ''uint8'', vi_read ''quantity'' 15 4 ''uint32'',
          vi_read ''symbol'' 19 8 ''uint64'', vi_read ''price'' 27 8 ''uint64''], fr_label = ''Trade (expanded)''\<rparr>]\<rparr>"

definition SPEC_OrderExecuted :: vi_spec where
  "SPEC_OrderExecuted = \<lparr>
     sp_desc = ''Cboe PITCH Order Executed (0x23) and Order Executed at Price/Size (0x24) -> orderbook.command: type OrderExecuted ''
       @ ''or OrderExecutedAtPrice, orderId, executed.qty, remaining.qty and price (0x24 only), nanoseconds, Edit.'',
     sp_ext_enum = False, sp_type_value = None, sp_flags = [(''Edit'', True)],
     sp_frames = [
       \<lparr>fr_sel = ''35'', fr_default = True, fr_fields = [vi_fixed ''type'' ''enum:2'', vi_read ''executed.qty'' 14 4 ''uint32'',
          vi_fixed ''remaining.qty'' ''const:uint32:0'', vi_fixed ''price'' ''const:uint64:0''], fr_label = ''OrderExecuted''\<rparr>,
       \<lparr>fr_sel = ''36'', fr_default = False, fr_fields = [vi_fixed ''type'' ''enum:3'', vi_read ''executed.qty'' 14 4 ''uint32'',
          vi_read ''remaining.qty'' 18 4 ''uint32'', vi_read ''price'' 30 8 ''uint64''], fr_label = ''OrderExecutedAtPriceSize''\<rparr>]\<rparr>"

definition SPECS :: "(string \<times> vi_spec) list" where
  "SPECS = [(''ModifyOrder'', SPEC_ModifyOrder), (''DeleteOrder'', SPEC_DeleteOrder), (''Trade'', SPEC_Trade),
     (''OrderExecuted'', SPEC_OrderExecuted)]"

section \<open>The document\<close>

text \<open>A net is the output terminal of the element with a unique id; a parent is an id, or \<open>None\<close> for the root.\<close>

datatype net = Net nat string
datatype tunnel_id = In1 | OutId nat

fun net_text :: "net \<Rightarrow> string" where
  "net_text (Net u t) = to_dec u @ ''.'' @ t"

datatype vi_elem =
  VI_Open string string
| Constant string string string nat "nat option"
| Control nat
| Call net net net string nat "nat option"
| Node string "(string \<times> string) list" "(string \<times> net option) list" "(string \<times> string) list" nat "nat option"
| Case_Open net nat
| Tunnel_In nat tunnel_id net nat "nat option"
| Tunnel_Out nat tunnel_id nat "nat option"
| Frame_Open string nat "nat option"
| Free_Label string nat "nat option"
| Frame_Close
| Case_Close
| Indicator net string nat
| VI_Close

definition attr :: "string \<Rightarrow> string \<Rightarrow> string" where
  "attr name val = '' '' @ name @ ''='' @ [CHR 34] @ val @ [CHR 34]"

definition tag_text :: "nat \<Rightarrow> string \<Rightarrow> (string \<times> string) list \<Rightarrow> string \<Rightarrow> string" where
  "tag_text ind name attrs close =
     replicate ind (CHR '' '') @ ''<'' @ name @ concat (map (\<lambda>(a, v). attr a v) attrs) @ close"

definition parent_text :: "nat option \<Rightarrow> string" where
  "parent_text p = (case p of None \<Rightarrow> ''root'' | Some u \<Rightarrow> to_dec u)"

definition tunnel_text :: "tunnel_id \<Rightarrow> string" where
  "tunnel_text i = (case i of In1 \<Rightarrow> ''In1'' | OutId k \<Rightarrow> ''Out'' @ to_dec k)"

fun elem_text :: "vi_elem \<Rightarrow> string" where
  "elem_text (VI_Open name desc) = tag_text 0 ''VI'' [(''_name'', name @ ''.vi''), (''description'', desc)] ''>''"
| "elem_text (Constant nm typ val u p) = tag_text 2 ''Constant''
     [(''_name'', nm), (''outputs'', ''value:'' @ to_dec u @ ''.value''), (''type'', typ), (''uid'', to_dec u),
      (''uid_parent'', parent_text p), (''value'', val)] ''/>''"
| "elem_text (Control u) = tag_text 2 ''Control''
     [(''_name'', ''buffer.in''), (''conIdx'', ''11''), (''connection'', ''recommended''),
      (''outputs'', ''value:'' @ to_dec u @ ''.value''), (''type'', ''array{uint64.Numeric}''), (''uid'', to_dec u),
      (''uid_parent'', ''root''), (''value'', ''[0,0,0,0,0,0,0,0,0]'')] ''/>''"
| "elem_text (Call b s l stub u p) = tag_text 2 ''Call''
     [(''inputs'', ''buffer (U64):'' @ net_text b @ '',Start.Idx:'' @ net_text s @ '',Length:'' @ net_text l @ '',Big.Endian?:''),
      (''outputs'', ''Out.Value U64:'' @ to_dec u @ ''.Out.Value U64''), (''target'', stub), (''uid'', to_dec u),
      (''uid_parent'', parent_text p)] ''/>''"
| "elem_text (Node nm extra ins outs u p) = tag_text 2 ''Node''
     ((''_name'', nm) # extra @
      [(''inputs'', join_with '','' (map (\<lambda>(l, n). l @ '':'' @ (case n of None \<Rightarrow> '''' | Some x \<Rightarrow> net_text x)) ins)),
       (''outputs'', join_with '','' (map (\<lambda>(l, t). l @ '':'' @ net_text (Net u t)) outs)),
       (''uid'', to_dec u), (''uid_parent'', parent_text p)]) ''/>''"
| "elem_text (Case_Open tb u) = tag_text 2 ''Structure''
     [(''_name'', ''Case Structure''), (''selectin'', net_text tb), (''uid'', to_dec u), (''uid_parent'', ''root'')] ''>''"
| "elem_text (Tunnel_In ind i n u p) = tag_text ind ''Tunnel''
     [(''_id'', tunnel_text i), (''inputs'', ''value:'' @ net_text n), (''uid'', to_dec u), (''uid_parent'', parent_text p)] ''/>''"
| "elem_text (Tunnel_Out ind i u p) = tag_text ind ''Tunnel''
     [(''_id'', tunnel_text i), (''outputs'', ''value:'' @ to_dec u @ ''.value''), (''uid'', to_dec u), (''uid_parent'', parent_text p)] ''/>''"
| "elem_text (Frame_Open sel u p) = tag_text 4 ''CaseFrame''
     [(''selector'', sel), (''selectout'', ''''), (''uid'', to_dec u), (''uid_parent'', parent_text p)] ''>''"
| "elem_text (Free_Label c u p) = tag_text 6 ''FreeLabel''
     [(''comment'', c), (''uid'', to_dec u), (''uid_parent'', parent_text p)] ''/>''"
| "elem_text Frame_Close = ''    </CaseFrame>''"
| "elem_text Case_Close = ''  </Structure>''"
| "elem_text (Indicator n typ u) = tag_text 2 ''Indicator''
     [(''_name'', ''OrderBook.Command''), (''conIdx'', ''3''), (''connection'', ''recommended''), (''inputs'', ''value:'' @ net_text n),
      (''type'', typ), (''uid'', to_dec u), (''uid_parent'', ''root''), (''value'', DEF)] ''/>''"
| "elem_text VI_Close = ''</VI>''"

section \<open>The generator\<close>

text \<open>The state of \<open>main\<close>: the counter and the lines. An operation can raise.\<close>

type_synonym vi_state = "nat \<times> vi_elem list"
type_synonym 'a gen = "vi_state \<Rightarrow> ('a \<times> vi_state) py_result"

definition ret :: "'a \<Rightarrow> 'a gen" where
  "ret x = (\<lambda>s. Inr (x, s))"

definition andThen :: "'a gen \<Rightarrow> ('a \<Rightarrow> 'b gen) \<Rightarrow> 'b gen" where
  "andThen m f = (\<lambda>s. bind_result (m s) (\<lambda>(x, s1). f x s1))"

definition try_result :: "'a py_result \<Rightarrow> 'a gen" where
  "try_result r = (\<lambda>s. bind_result r (\<lambda>x. Inr (x, s)))"

fun fold_gen :: "('a \<Rightarrow> 'i \<Rightarrow> 'a gen) \<Rightarrow> 'a \<Rightarrow> 'i list \<Rightarrow> 'a gen" where
  "fold_gen f a [] = ret a"
| "fold_gen f a (i # is) = andThen (f a i) (\<lambda>b. fold_gen f b is)"

definition py_key :: "('k \<times> 'v) list \<Rightarrow> 'k \<Rightarrow> 'v py_result" where
  "py_key d k = (case map_of d k of None \<Rightarrow> Inl KeyError | Some v \<Rightarrow> Inr v)"

definition nid :: "nat gen" where
  "nid = (\<lambda>(n, L). Inr (n + 1, (n + 1, L)))"

definition put :: "vi_elem \<Rightarrow> unit gen" where
  "put e = (\<lambda>(n, L). Inr ((), (n, L @ [e])))"

text \<open>The helpers \<open>const\<close>, \<open>call\<close>, \<open>conv\<close> and \<open>extract\<close>.\<close>

definition gconst :: "string \<Rightarrow> string \<Rightarrow> string \<Rightarrow> nat option \<Rightarrow> net gen" where
  "gconst nm typ val p = andThen nid (\<lambda>u. andThen (put (Constant nm typ val u p)) (\<lambda>_. ret (Net u ''value'')))"

definition opt_text :: "nat option \<Rightarrow> string" where
  "opt_text v = (case v of None \<Rightarrow> ''None'' | Some n \<Rightarrow> to_dec n)"

definition gcall :: "string \<Rightarrow> net \<Rightarrow> nat option \<Rightarrow> nat option \<Rightarrow> nat option \<Rightarrow> net gen" where
  "gcall stub b start len p =
     andThen (gconst ''Start.Idx'' ''uint8'' (opt_text start) p) (\<lambda>s.
     andThen (gconst ''Length'' ''uint8'' (opt_text len) p) (\<lambda>l.
     andThen nid (\<lambda>u.
     andThen (put (Call b s l stub u p)) (\<lambda>_. ret (Net u ''Out.Value U64'')))))"

definition gconv :: "net \<Rightarrow> string \<Rightarrow> nat option \<Rightarrow> net gen" where
  "gconv n kind p =
     andThen (try_result (py_key CONV kind)) (\<lambda>(nm, out, typ).
     andThen nid (\<lambda>u.
     andThen (put (Node nm [] [(''number'', Some n)] [(out, out)] u p)) (\<lambda>_. ret (Net u out))))"

definition first_conv :: "(nat option \<times> string) list" where
  "first_conv = [(Some 1, ''u8''), (Some 2, ''u16''), (Some 4, ''u32''), (Some 8, ''u64'')]"

definition want_conv :: "(string \<times> string) list" where
  "want_conv = [(''uint8'', ''u8''), (''uint16'', ''u16''), (''uint32'', ''u32''), (''uint64'', ''u64'')]"

definition gextract :: "string \<Rightarrow> net \<Rightarrow> nat option \<Rightarrow> nat option \<Rightarrow> string \<Rightarrow> nat option \<Rightarrow> net gen" where
  "gextract stub b start len target p =
     (if target = ''sym6'' then
        andThen (gcall stub b start (Some 8) p) (\<lambda>raw.
        andThen (gconst ''mask6'' ''uint64'' (to_dec 281474976710655) p) (\<lambda>m1.
        andThen nid (\<lambda>u.
        andThen (put (Node ''And'' [] [(''x'', Some raw), (''y'', Some m1)] [(''x .and. y?'', ''x .and. y?'')] u p)) (\<lambda>_.
        andThen (gconst ''pad'' ''uint64'' (to_dec 2314850208468434944) p) (\<lambda>pad.
        andThen nid (\<lambda>v.
        andThen (put (Node ''Or'' [] [(''x'', Some (Net u ''x .and. y?'')), (''y'', Some pad)]
                        [(''x .or. y?'', ''x .or. y?'')] v p)) (\<lambda>_.
        ret (Net v ''x .or. y?''))))))))
      else
        andThen (gcall stub b start len p) (\<lambda>raw.
        andThen (try_result (py_key first_conv len)) (\<lambda>first.
        andThen (gconv raw first p) (\<lambda>n.
        andThen (try_result (py_key want_conv target)) (\<lambda>want.
        if want \<noteq> first then gconv n want p else ret n)))))"

text \<open>One field of a case frame, stored in \<open>nets\<close>.\<close>

definition frame_field :: "string \<Rightarrow> string \<Rightarrow> net \<Rightarrow> nat \<Rightarrow> (string \<times> net) list \<Rightarrow> vi_field \<Rightarrow> (string \<times> net) list gen" where
  "frame_field stub enum_t fb fr nets f =
     (case f of (field, start, len, target) \<Rightarrow>
        andThen
          (if starts ''enum:'' target then
             andThen (try_result (py_index (split_on (CHR '':'') [] target) 1)) (\<lambda>v. gconst ''type'' enum_t v (Some fr))
           else if starts ''const:'' target then
             (case split_on (CHR '':'') [] target of
                [_, t, v] \<Rightarrow> gconst (map (\<lambda>c. if c = CHR ''.'' then CHR ''_'' else c) field) t v (Some fr)
              | _ \<Rightarrow> try_result (Inl ValueError))
           else gextract stub fb start len target (Some fr))
          (\<lambda>n. ret (AList.update field n nets)))"

text \<open>The output tunnels of a frame, counted from \<open>k\<close>.\<close>

fun frame_outs :: "nat \<Rightarrow> (string \<times> net) list \<Rightarrow> nat \<Rightarrow> string list \<Rightarrow> unit gen" where
  "frame_outs fr nets k [] = ret ()"
| "frame_outs fr nets k (field # outs) =
     andThen nid (\<lambda>tu.
     andThen (try_result (py_key nets field)) (\<lambda>n.
     andThen (put (Tunnel_In 6 (OutId k) n tu (Some fr))) (\<lambda>_. frame_outs fr nets (k + 1) outs)))"

definition case_frame :: "string \<Rightarrow> string \<Rightarrow> string list \<Rightarrow> nat \<Rightarrow> unit \<Rightarrow> vi_frame \<Rightarrow> unit gen" where
  "case_frame stub enum_t outs cs = (\<lambda>_ frame.
     andThen nid (\<lambda>fr.
     andThen (put (Frame_Open (if fr_default frame then fr_sel frame @ [CHR 92] @ ''2C Default'' else fr_sel frame) fr (Some cs))) (\<lambda>_.
     andThen nid (\<lambda>lb.
     andThen (put (Free_Label (fr_label frame) lb (Some fr))) (\<lambda>_.
     andThen nid (\<lambda>tf.
     andThen (put (Tunnel_Out 6 In1 tf (Some fr))) (\<lambda>_.
     andThen (fold_gen (frame_field stub enum_t (Net tf ''value'') fr) [] (fr_fields frame)) (\<lambda>nets.
     andThen (frame_outs fr nets 1 outs) (\<lambda>_. put Frame_Close)))))))))"

text \<open>The output tunnels of the structure: \<open>byname\<close> and \<open>positional\<close> grow. \<open>list.index\<close> can raise.\<close>

definition index_of :: "'a list \<Rightarrow> 'a \<Rightarrow> nat py_result" where
  "index_of xs x = (case List.find (\<lambda>i. xs ! i = x) [0..<length xs] of None \<Rightarrow> Inl ValueError | Some i \<Rightarrow> Inr i)"

type_synonym bundle_nets = "(string \<times> net) list \<times> (nat \<times> net) list"

fun case_outs :: "nat \<Rightarrow> nat \<Rightarrow> bundle_nets \<Rightarrow> string list \<Rightarrow> bundle_nets gen" where
  "case_outs cs k (byname, positional) [] = ret (byname, positional)"
| "case_outs cs k (byname, positional) (field # outs) =
     andThen nid (\<lambda>tu.
     andThen (put (Tunnel_Out 4 (OutId k) tu (Some cs))) (\<lambda>_.
     andThen (if CHR ''.'' \<in> set field
              then andThen (try_result (index_of CLUSTER_ORDER field)) (\<lambda>i.
                     ret (byname, AList.update i (Net tu ''value'') positional))
              else ret (AList.update field (Net tu ''value'') byname, positional))
       (\<lambda>b. case_outs cs (k + 1) b outs)))"

definition case_structure :: "string \<Rightarrow> string \<Rightarrow> net \<Rightarrow> net \<Rightarrow> vi_frame list \<Rightarrow> bundle_nets \<Rightarrow> bundle_nets gen" where
  "case_structure stub enum_t b tb frames bn =
     (case frames of
        [] \<Rightarrow> ret bn
      | frame # _ \<Rightarrow>
          andThen nid (\<lambda>cs.
          andThen nid (\<lambda>tin.
          let outs = map fst (fr_fields frame) in
          andThen (put (Case_Open tb cs)) (\<lambda>_.
          andThen (put (Tunnel_In 4 In1 b tin (Some cs))) (\<lambda>_.
          andThen (fold_gen (case_frame stub enum_t outs cs) () frames) (\<lambda>_.
          andThen (case_outs cs 1 bn outs) (\<lambda>bn.
          andThen (put Case_Close) (\<lambda>_. ret bn))))))))"

text \<open>The bundles that assemble the command.\<close>

definition element_name :: "nat \<Rightarrow> string" where
  "element_name i = ''e'' @ to_dec i"

definition bundle_positions :: "net \<Rightarrow> (nat \<times> net) list \<Rightarrow> net gen" where
  "bundle_positions base positional =
     (if positional = [] then ret base
      else
        andThen nid (\<lambda>ub.
        andThen (put (Node ''Unbundle'' [] [(''cluster'', Some base)] (map (\<lambda>i. (''element'', element_name i)) [0..<17]) ub None)) (\<lambda>_.
        andThen nid (\<lambda>bd.
        andThen (put (Node ''Bundle'' [(''comment'', ''dotted fields by position'')]
          (map (\<lambda>i. (''element'', Some (case map_of positional i of Some n \<Rightarrow> n | None \<Rightarrow> Net ub (element_name i)))) [0..<17]
             @ [(''cluster'', None)])
          [(''output cluster'', ''output cluster'')] bd None)) (\<lambda>_.
        ret (Net bd ''output cluster''))))))"

definition flag_consts :: "(string \<times> net) list \<Rightarrow> string \<times> bool \<Rightarrow> (string \<times> net) list gen" where
  "flag_consts byname fv =
     andThen (gconst (fst fv) ''bool'' (if snd fv then ''true'' else ''false'') None) (\<lambda>n.
     ret (AList.update (fst fv) n byname))"

definition enum_type :: "vi_spec \<Rightarrow> string" where
  "enum_type sp = ''uint8{'' @ join_with '','' (if sp_ext_enum sp then ENUM_EXT else ENUM_CHOICES) @ ''}''"

definition cluster_types :: "vi_spec \<Rightarrow> string list" where
  "cluster_types sp = map (\<lambda>t. if t = ''ENUM'' then enum_type sp else t) CLUSTER_TYPES"

definition cluster_type :: "vi_spec \<Rightarrow> string" where
  "cluster_type sp = ''cluster{'' @ join_with '','' (map2 (\<lambda>t f. t @ ''.'' @ f) (cluster_types sp) CLUSTER_ORDER) @ ''}''"

definition gen_vi :: "string \<Rightarrow> vi_spec \<Rightarrow> string \<Rightarrow> unit gen" where
  "gen_vi name sp stub =
     (let enum_t = enum_type sp; cl_t = cluster_type sp in
      andThen (put (VI_Open name (sp_desc sp))) (\<lambda>_.
      andThen nid (\<lambda>buf.
      andThen (put (Control buf)) (\<lambda>_.
      let b = Net buf ''value'' in
      andThen (gconst ''OrderBook.Command'' cl_t DEF None) (\<lambda>base.
      andThen (case sp_type_value sp of
                 None \<Rightarrow> ret []
               | Some v \<Rightarrow> andThen (gconst ''OrderBook Command'' enum_t (to_dec v) None) (\<lambda>n. ret [(''type'', n)])) (\<lambda>byname.
      andThen (fold_gen flag_consts byname (sp_flags sp)) (\<lambda>byname.
      andThen (andThen (gcall stub b (Some 1) (Some 1) None) (\<lambda>raw. gconv raw ''u8'' None)) (\<lambda>tb.
      andThen (andThen (gcall stub b (Some 2) (Some 4) None) (\<lambda>raw. gconv raw ''u64'' None)) (\<lambda>ns.
      andThen (andThen (gcall stub b (Some 6) (Some 8) None) (\<lambda>raw. gconv raw ''u64'' None)) (\<lambda>oid.
      andThen (case_structure stub enum_t b tb (sp_frames sp)
                 (AList.update ''orderId '' oid (AList.update ''nanoseconds'' ns byname), [])) (\<lambda>(byname, positional).
      andThen (bundle_positions base positional) (\<lambda>cluster_net.
      let order = filter (\<lambda>f. f \<in> fst ` set byname) CLUSTER_ORDER in
      andThen nid (\<lambda>bb.
      andThen (put (Node ''Bundle By Name'' [(''fields'', join_with '','' (map py_strip order))]
          (map (\<lambda>f. (f, map_of byname f)) order @ [(''input cluster'', Some cluster_net)])
          [(''output cluster'', ''output cluster'')] bb None)) (\<lambda>_.
      andThen nid (\<lambda>ind.
      andThen (put (Indicator (Net bb ''output cluster'') cl_t ind)) (\<lambda>_. put VI_Close))))))))))))))))"

text \<open>\<open>main\<close>: the file's contents, with \<open>\n\<close> written as a carriage return and a newline, and the line printed.\<close>

definition crlf :: "string \<Rightarrow> string" where
  "crlf s = concat (map (\<lambda>c. if c = CHR 10 then [CHR 13, CHR 10] else [c]) s)"

definition gen_main :: "string \<Rightarrow> string \<Rightarrow> (string \<times> string) py_result" where
  "gen_main name stub =
     bind_result (py_key SPECS name) (\<lambda>sp.
     bind_result (gen_vi name sp stub (1100, [])) (\<lambda>(_, (n, L)).
     let ls = map elem_text L
     in Inr (crlf (join_with [CHR 10] ls @ [CHR 10]),
             name @ '': '' @ to_dec (length ls) @ '' lines, '' @ to_dec (length (filter (has_sub ''<Call '') ls)) @ '' subVI calls'')))"

section \<open>Well-formed documents\<close>

text \<open>The type of a cluster field, of a tunnel, and of the terminals of the LabVIEW nodes that are used.\<close>

definition field_type :: "vi_spec \<Rightarrow> string \<Rightarrow> string option" where
  "field_type sp f = map_of (zip CLUSTER_ORDER (cluster_types sp)) f"

definition outs_of :: "vi_spec \<Rightarrow> string list" where
  "outs_of sp = (case sp_frames sp of [] \<Rightarrow> [] | frame # _ \<Rightarrow> map fst (fr_fields frame))"

definition array_type :: string where
  "array_type = ''array{uint64.Numeric}''"

definition tunnel_type :: "vi_spec \<Rightarrow> tunnel_id \<Rightarrow> string" where
  "tunnel_type sp i = (case i of In1 \<Rightarrow> array_type | OutId k \<Rightarrow> the (field_type sp (outs_of sp ! (k - 1))))"

definition input_type :: "vi_spec \<Rightarrow> string \<Rightarrow> nat \<Rightarrow> string \<Rightarrow> string option" where
  "input_type sp nm j l =
     (if nm \<in> {''And'', ''Or''} then Some ''uint64''
      else if nm = ''Unbundle'' \<or> l = ''input cluster'' then Some (cluster_type sp)
      else if nm = ''Bundle'' then Some (cluster_types sp ! j)
      else if nm = ''Bundle By Name'' then field_type sp l
      else None)"

definition output_type :: "vi_spec \<Rightarrow> string \<Rightarrow> nat \<Rightarrow> string" where
  "output_type sp nm j =
     (if nm \<in> {''And'', ''Or''} then ''uint64''
      else if nm = ''Unbundle'' then cluster_types sp ! j
      else if nm \<in> {''Bundle'', ''Bundle By Name''} then cluster_type sp
      else snd (the (map_of (map snd CONV) nm)))"

text \<open>What an element reads, with the type expected if there is one, and what it drives.\<close>

fun reads :: "vi_spec \<Rightarrow> vi_elem \<Rightarrow> (net \<times> string option) list" where
  "reads sp (Call b s l stub u p) = [(b, Some array_type), (s, Some ''uint8''), (l, Some ''uint8'')]"
| "reads sp (Node nm extra ins outs u p) =
     concat (map (\<lambda>(j, (l, n)). case n of None \<Rightarrow> [] | Some x \<Rightarrow> [(x, input_type sp nm j l)]) (List.enumerate 0 ins))"
| "reads sp (Case_Open tb u) = [(tb, None)]"
| "reads sp (Tunnel_In ind i n u p) = [(n, Some (tunnel_type sp i))]"
| "reads sp (Indicator n typ u) = [(n, Some typ)]"
| "reads sp _ = []"

fun drives :: "vi_spec \<Rightarrow> vi_elem \<Rightarrow> (net \<times> string) list" where
  "drives sp (Constant nm typ val u p) = [(Net u ''value'', typ)]"
| "drives sp (Control u) = [(Net u ''value'', array_type)]"
| "drives sp (Call b s l stub u p) = [(Net u ''Out.Value U64'', ''uint64'')]"
| "drives sp (Node nm extra ins outs u p) = map (\<lambda>(j, (l, t)). (Net u t, output_type sp nm j)) (List.enumerate 0 outs)"
| "drives sp (Tunnel_Out ind i u p) = [(Net u ''value'', tunnel_type sp i)]"
| "drives sp _ = []"

fun elem_uid :: "vi_elem \<Rightarrow> nat option" where
  "elem_uid (Constant nm typ val u p) = Some u"
| "elem_uid (Control u) = Some u"
| "elem_uid (Call b s l stub u p) = Some u"
| "elem_uid (Node nm extra ins outs u p) = Some u"
| "elem_uid (Case_Open tb u) = Some u"
| "elem_uid (Tunnel_In ind i n u p) = Some u"
| "elem_uid (Tunnel_Out ind i u p) = Some u"
| "elem_uid (Frame_Open sel u p) = Some u"
| "elem_uid (Free_Label c u p) = Some u"
| "elem_uid (Indicator n typ u) = Some u"
| "elem_uid _ = None"

definition uids :: "vi_elem list \<Rightarrow> nat list" where
  "uids L = List.map_filter elem_uid L"

text \<open>The elements around a place, innermost first; the parent and the scope of nets there.\<close>

datatype container = In_VI | In_Case nat | In_Frame nat

fun parent_in :: "container list \<Rightarrow> nat option" where
  "parent_in (In_Case c # st) = Some c"
| "parent_in (In_Frame f # st) = Some f"
| "parent_in _ = None"

fun scope_in :: "container list \<Rightarrow> nat option" where
  "scope_in (In_Case c # st) = scope_in st"
| "scope_in (In_Frame f # st) = Some f"
| "scope_in _ = None"

fun block :: "container list \<Rightarrow> bool" where
  "block [] = False"
| "block (In_Case c # st) = False"
| "block _ = True"

fun elem_ok :: "container list \<Rightarrow> vi_elem \<Rightarrow> bool" where
  "elem_ok st (VI_Open name desc) = (st = [])"
| "elem_ok st (Constant nm typ val u p) = (block st \<and> parent_in st = p)"
| "elem_ok st (Control u) = (block st \<and> parent_in st = None)"
| "elem_ok st (Call b s l stub u p) = (block st \<and> parent_in st = p)"
| "elem_ok st (Node nm extra ins outs u p) = (block st \<and> parent_in st = p)"
| "elem_ok st (Case_Open tb u) = (block st \<and> parent_in st = None)"
| "elem_ok st (Tunnel_In ind i n u p) = (p \<noteq> None \<and> parent_in st = p)"
| "elem_ok st (Tunnel_Out ind i u p) = (p \<noteq> None \<and> parent_in st = p)"
| "elem_ok st (Frame_Open sel u p) = (st \<noteq> [] \<and> \<not> block st \<and> parent_in st = p)"
| "elem_ok st (Free_Label c u p) = (block st \<and> p \<noteq> None \<and> parent_in st = p)"
| "elem_ok st Frame_Close = (block st \<and> parent_in st \<noteq> None)"
| "elem_ok st Case_Close = (st \<noteq> [] \<and> \<not> block st)"
| "elem_ok st (Indicator n typ u) = (block st \<and> parent_in st = None)"
| "elem_ok st VI_Close = (st = [In_VI])"

fun next_in :: "container list \<Rightarrow> vi_elem \<Rightarrow> container list" where
  "next_in st (VI_Open name desc) = In_VI # st"
| "next_in st (Case_Open tb u) = In_Case u # st"
| "next_in st (Frame_Open sel u p) = In_Frame u # st"
| "next_in st Frame_Close = tl st"
| "next_in st Case_Close = tl st"
| "next_in st VI_Close = tl st"
| "next_in st _ = st"

text \<open>The nets known at a place: scope, net and type.\<close>

type_synonym net_env = "(nat option \<times> net \<times> string) list"

definition known :: "net_env \<Rightarrow> nat option \<Rightarrow> net \<times> string option \<Rightarrow> bool" where
  "known A sc r \<longleftrightarrow> list_ex (\<lambda>(s, n, ty). s = sc \<and> n = fst r \<and> (case snd r of None \<Rightarrow> True | Some t \<Rightarrow> t = ty)) A"

definition check_elem :: "vi_spec \<Rightarrow> container list \<times> net_env \<Rightarrow> vi_elem \<Rightarrow> (container list \<times> net_env) option" where
  "check_elem sp s e = (case s of (st, A) \<Rightarrow>
     if elem_ok st e \<and> list_all (known A (scope_in st)) (reads sp e)
     then Some (next_in st e, map (\<lambda>(n, ty). (scope_in st, n, ty)) (drives sp e) @ A) else None)"

fun check_vi :: "vi_spec \<Rightarrow> container list \<times> net_env \<Rightarrow> vi_elem list \<Rightarrow> (container list \<times> net_env) option" where
  "check_vi sp s [] = Some s"
| "check_vi sp s (e # es) = Option.bind (check_elem sp s e) (\<lambda>s1. check_vi sp s1 es)"

definition well_formed_vi :: "vi_spec \<Rightarrow> vi_elem list \<Rightarrow> bool" where
  "well_formed_vi sp L \<longleftrightarrow> (case check_vi sp ([], []) L of Some (st, A) \<Rightarrow> st = [] | None \<Rightarrow> False) \<and> distinct (uids L)"

text \<open>A table that fits the cluster: the flags are Booleans, every frame has a field for each output tunnel,
  and every field arrives with the type its cluster field has.\<close>

definition target_ok :: "vi_spec \<Rightarrow> vi_field \<Rightarrow> bool" where
  "target_ok sp f = (case f of (field, start, len, target) \<Rightarrow>
     field \<in> set CLUSTER_ORDER \<and>
     (if starts ''enum:'' target then field_type sp field = Some (enum_type sp)
      else if starts ''const:'' target then (case split_on (CHR '':'') [] target of
          [_, t, v] \<Rightarrow> field_type sp field = Some t | _ \<Rightarrow> False)
      else if target = ''sym6'' then field_type sp field = Some ''uint64''
      else len \<in> set (map fst first_conv) \<and> target \<in> set (map fst want_conv) \<and> field_type sp field = Some target))"

definition frame_fits :: "vi_spec \<Rightarrow> vi_frame \<Rightarrow> bool" where
  "frame_fits sp frame \<longleftrightarrow> list_all (target_ok sp) (fr_fields frame) \<and>
     set (outs_of sp) \<subseteq> fst ` set (fr_fields frame)"

definition spec_ok :: "vi_spec \<Rightarrow> bool" where
  "spec_ok sp \<longleftrightarrow> list_all (\<lambda>(f, v). field_type sp f = Some ''bool'') (sp_flags sp) \<and> list_all (frame_fits sp) (sp_frames sp)"

section \<open>Every operation of the generator keeps documents well formed\<close>

lemma ret_simps [simp]: "andThen (ret x) f = f x" "andThen (andThen m f) g = andThen m (\<lambda>x. andThen (f x) g)"
  by (auto simp: andThen_def ret_def bind_result_def split: sum.splits)

lemma andThen_ret: "andThen m ret = m"
  by (auto simp: andThen_def ret_def bind_result_def fun_eq_iff split: sum.splits)

lemma andThen_if: "andThen (if b then m else m') f = (if b then andThen m f else andThen m' f)"
  by simp

text \<open>A state between two lines: the ids used and those drawn but not yet used, \<open>us\<close>, are consecutive; the
  document checks so far, in the container \<open>st\<close>, and at least the nets \<open>A\<close> are known.\<close>

definition holds :: "vi_spec \<Rightarrow> container list \<Rightarrow> net_env \<Rightarrow> nat list \<Rightarrow> vi_state \<Rightarrow> bool" where
  "holds sp st A us s \<longleftrightarrow> (case s of (n, L) \<Rightarrow> uids L @ us = [1101..<Suc n] \<and> 1100 \<le> n \<and>
     (\<exists>B. check_vi sp ([], []) L = Some (st, B) \<and> set A \<subseteq> set B))"

definition emits :: "(vi_state \<Rightarrow> bool) \<Rightarrow> 'a gen \<Rightarrow> ('a \<Rightarrow> vi_state \<Rightarrow> bool) \<Rightarrow> bool" where
  "emits P m Q \<longleftrightarrow> (\<forall>s. P s \<longrightarrow> (\<exists>x s'. m s = Inr (x, s') \<and> Q x s'))"

lemma emits_ret: "(\<And>s. P s \<Longrightarrow> Q x s) \<Longrightarrow> emits P (ret x) Q"
  by (simp add: emits_def ret_def)

lemma emits_andThen: "emits P m R \<Longrightarrow> (\<And>x. emits (R x) (f x) Q) \<Longrightarrow> emits P (andThen m f) Q"
  unfolding emits_def andThen_def by fastforce

lemma emits_weaken: "emits P m R \<Longrightarrow> (\<And>x s. R x s \<Longrightarrow> Q x s) \<Longrightarrow> emits P m Q"
  unfolding emits_def by blast

lemma emits_try: "r = Inr x \<Longrightarrow> emits P (f x) Q \<Longrightarrow> emits P (andThen (try_result r) f) Q"
  by (simp add: emits_def andThen_def try_result_def)

lemma emits_nid:
  assumes "\<And>u. emits (holds sp st A (us @ [u])) (f u) Q"
  shows "emits (holds sp st A us) (andThen nid f) Q"
  unfolding emits_def
proof (intro allI impI)
  fix s assume "holds sp st A us s"
  then have "holds sp st A (us @ [fst s + 1]) (fst s + 1, snd s)" by (auto simp: holds_def)
  with assms [of "fst s + 1"] show "\<exists>x s'. andThen nid f s = Inr (x, s') \<and> Q x s'"
    by (cases s) (auto simp: emits_def andThen_def nid_def)
qed

lemmas emits_draw = emits_nid [where us = "[]", unfolded append_Nil]

lemma emits_draw_next:
  "(\<And>u. emits (holds sp st A [v, u]) (f u) Q) \<Longrightarrow> emits (holds sp st A [v]) (andThen nid f) Q"
  by (rule emits_nid) simp

lemma known_mono: "set A \<subseteq> set B \<Longrightarrow> known A sc r \<Longrightarrow> known B sc r"
  by (auto simp: known_def list_ex_iff)

lemma check_vi_append: "check_vi sp s (xs @ ys) = Option.bind (check_vi sp s xs) (\<lambda>s1. check_vi sp s1 ys)"
  by (induction xs arbitrary: s) (auto simp: Option.bind_assoc split: Option.bind_splits)

lemma uids_snoc: "uids (L @ [e]) = uids L @ (case elem_uid e of None \<Rightarrow> [] | Some u \<Rightarrow> [u])"
  by (simp add: uids_def List.map_filter_def split: option.splits)

lemma emits_put:
  assumes "elem_ok st e" "list_all (known A (scope_in st)) (reads sp e)"
    and "us = (case elem_uid e of None \<Rightarrow> [] | Some u \<Rightarrow> [u]) @ vs"
    and "emits (holds sp (next_in st e) (map (\<lambda>(n, ty). (scope_in st, n, ty)) (drives sp e) @ A) vs) (f ()) Q"
  shows "emits (holds sp st A us) (andThen (put e) f) Q"
  unfolding emits_def
proof (intro allI impI)
  fix s assume s: "holds sp st A us s"
  obtain n L where nL: "s = (n, L)" by (cases s)
  from s obtain B where B: "check_vi sp ([], []) L = Some (st, B)" "set A \<subseteq> set B"
    by (auto simp: holds_def nL)
  have "list_all (known B (scope_in st)) (reads sp e)" using assms(2) known_mono [OF B(2)] by (auto simp: list_all_iff)
  then have "check_elem sp (st, B) e = Some (next_in st e, map (\<lambda>(n, ty). (scope_in st, n, ty)) (drives sp e) @ B)"
    using assms(1) by (simp add: check_elem_def)
  then have "holds sp (next_in st e) (map (\<lambda>(n, ty). (scope_in st, n, ty)) (drives sp e) @ A) vs (n, L @ [e])"
    using s B assms(3) by (auto simp: holds_def nL check_vi_append uids_snoc)
  with assms(4) show "\<exists>x s'. andThen (put e) f s = Inr (x, s') \<and> Q x s'"
    by (auto simp: emits_def andThen_def put_def nL)
qed

lemma emits_keep:
  assumes "elem_ok st e" "list_all (known A (scope_in st)) (reads sp e)" "next_in st e = st" "drives sp e = []"
    and "elem_uid e = Some u" and "emits (holds sp st A vs) (f ()) Q"
  shows "emits (holds sp st A (u # vs)) (andThen (put e) f) Q"
  by (rule emits_put [OF assms(1,2), where vs = vs]) (simp_all add: assms(3-6))

lemma emits_mono:
  assumes "emits (holds sp st A us) m Q" and "set A \<subseteq> set B"
  shows "emits (holds sp st B us) m Q"
proof -
  have "holds sp st B us s \<Longrightarrow> holds sp st A us s" for s using assms(2) by (auto simp: holds_def)
  then show ?thesis using assms(1) by (auto simp: emits_def)
qed

lemma emits_gconst:
  assumes "block st" "parent_in st = p"
    and "\<And>n. emits (holds sp st ((scope_in st, n, typ) # A) []) (f n) Q"
  shows "emits (holds sp st A []) (andThen (gconst nm typ val p) f) Q"
  unfolding gconst_def ret_simps using assms by (intro emits_nid emits_put) auto

lemma known_Cons [simp]:
  "known ((s, n, ty) # A) sc (m, t) \<longleftrightarrow> s = sc \<and> n = m \<and> (case t of None \<Rightarrow> True | Some x \<Rightarrow> x = ty) \<or> known A sc (m, t)"
  by (auto simp: known_def)

lemma emits_gcall:
  assumes "block st" "parent_in st = p" and "known A (scope_in st) (b, Some array_type)"
    and "\<And>n. emits (holds sp st ((scope_in st, n, ''uint64'') # A) []) (f n) Q"
  shows "emits (holds sp st A []) (andThen (gcall stub b start len p) f) Q"
  unfolding gcall_def ret_simps using assms(1-3)
  by (intro emits_gconst emits_nid emits_put) (auto intro: emits_mono [OF assms(4)])

lemma emits_node:
  assumes "block st" "parent_in st = p" "list_all (known A (scope_in st)) (reads sp (Node nm extra ins [(l, t)] u p))"
    and "emits (holds sp st ((scope_in st, Net u t, output_type sp nm 0) # A) us) (f ()) Q"
  shows "emits (holds sp st A (u # us)) (andThen (put (Node nm extra ins [(l, t)] u p)) f) Q"
  using assms by (intro emits_put) auto

text \<open>The element that a conversion writes.\<close>

lemma emits_gconv:
  assumes "block st" "parent_in st = p" and "(kind, nm, out, typ) \<in> set CONV" and "known A (scope_in st) (n, None)"
    and "\<And>n. emits (holds sp st ((scope_in st, n, typ) # A) []) (f n) Q"
  shows "emits (holds sp st A []) (andThen (gconv n kind p) f) Q"
proof -
  have key: "py_key CONV kind = Inr (nm, out, typ)" using assms(3) by (auto simp: CONV_def py_key_def)
  have sig: "output_type sp nm 0 = typ" "input_type sp nm 0 ''number'' = None"
    using assms(3) by (auto simp: CONV_def output_type_def input_type_def)
  show ?thesis unfolding gconv_def ret_simps
    using assms(1,2,4) by (intro emits_try [OF key], unfold prod.case ret_simps append_Nil)
      (intro emits_nid, unfold append_Nil, intro emits_node, auto simp: sig intro: assms(5))
qed

lemma emits_gextract:
  assumes "block st" "parent_in st = p" and "known A (scope_in st) (b, Some array_type)"
    and "target = ''sym6'' \<and> ty = ''uint64'' \<or> len \<in> set (map fst first_conv) \<and> target \<in> set (map fst want_conv) \<and> ty = target"
    and "\<And>n. emits (holds sp st ((scope_in st, n, ty) # A) []) (f n) Q"
  shows "emits (holds sp st A []) (andThen (gextract stub b start len target p) f) Q"
proof (cases "target = ''sym6''")
  case True
  then have sig: "ty = ''uint64''" using assms(4) by (auto simp: want_conv_def)
  show ?thesis unfolding gextract_def if_P [OF True] ret_simps
    using assms(1-3) by (intro emits_gcall emits_gconst emits_draw emits_node)
      (auto simp: input_type_def output_type_def intro: emits_mono [OF assms(5) [unfolded sig]])
next
  case False
  then have ok: "len \<in> set (map fst first_conv)" "target \<in> set (map fst want_conv)" "ty = target" using assms(4) by auto
  obtain first where first: "py_key first_conv len = Inr first" "\<exists>nm out t. (first, nm, out, t) \<in> set CONV"
    "first \<in> snd ` set want_conv" "\<forall>nm out t. (first, nm, out, t) \<in> set CONV \<longrightarrow> (t, first) \<in> set want_conv"
    using ok(1) by (auto simp: first_conv_def py_key_def CONV_def want_conv_def)
  obtain want where want: "py_key want_conv target = Inr want" "\<exists>nm out. (want, nm, out, target) \<in> set CONV"
    "\<forall>t. (t, want) \<in> set want_conv \<longrightarrow> t = target"
    using ok(2) by (auto simp: want_conv_def py_key_def CONV_def)
  obtain nm out t where conv: "(first, nm, out, t) \<in> set CONV" using first(2) by blast
  obtain nm' out' where conv': "(want, nm', out', target) \<in> set CONV" using want(2) by blast
  have same: "t = target" if "want = first" using first(4) want(3) conv that by blast
  show ?thesis unfolding gextract_def if_not_P [OF False] ret_simps
  proof (rule emits_gcall [OF assms(1-3)], rule emits_try [OF first(1)], rule emits_gconv [OF assms(1,2) conv],
      simp, rule emits_try [OF want(1)], unfold andThen_if, cases "want = first")
    fix n m
    assume "want = first"
    then show "emits (holds sp st ((scope_in st, m, t) # (scope_in st, n, ''uint64'') # A) [])
        (if want \<noteq> first then andThen (gconv m want p) f else andThen (ret m) f) Q"
      using same ok(3) by (auto intro: emits_mono [OF assms(5)])
  next
    fix n m
    assume "want \<noteq> first"
    show "emits (holds sp st ((scope_in st, m, t) # (scope_in st, n, ''uint64'') # A) [])
        (if want \<noteq> first then andThen (gconv m want p) f else andThen (ret m) f) Q"
      unfolding if_P [OF \<open>want \<noteq> first\<close>] by (rule emits_gconv [OF assms(1,2) conv'])
        (auto simp: ok(3) intro: emits_mono [OF assms(5)])
  qed
qed

lemma split_on_nonempty: "split_on c w s \<noteq> []"
  by (induction c w s rule: split_on.induct) auto

lemma target_type: "target_ok sp (field, start, len, target) \<Longrightarrow> \<exists>ty. field_type sp field = Some ty"
  by (auto simp: target_ok_def split: if_splits list.splits)

text \<open>The nets of a dictionary have the types of their fields.\<close>

definition nets_ok :: "vi_spec \<Rightarrow> nat option \<Rightarrow> net_env \<Rightarrow> (string \<times> net) list \<Rightarrow> bool" where
  "nets_ok sp sc A nets \<longleftrightarrow> list_all (\<lambda>(f, n). \<exists>ty. field_type sp f = Some ty \<and> known A sc (n, Some ty)) nets"

lemma nets_ok_mono: "nets_ok sp sc A nets \<Longrightarrow> set A \<subseteq> set B \<Longrightarrow> nets_ok sp sc B nets"
  using known_mono [of A B] by (fastforce simp: nets_ok_def list_all_iff)

lemma set_update_subset: "set (AList.update k v d) \<subseteq> insert (k, v) (set d)"
  by (induction d) auto

lemma nets_ok_update:
  assumes "nets_ok sp sc A nets" "field_type sp f = Some ty"
  shows "nets_ok sp sc ((sc, n, ty) # A) (AList.update f n nets)"
proof -
  have "nets_ok sp sc ((sc, n, ty) # A) ((f, n) # nets)"
    using assms(2) nets_ok_mono [OF assms(1), of "(sc, n, ty) # A"] by (auto simp: nets_ok_def)
  then show ?thesis using set_update_subset [of f n nets] by (fastforce simp: nets_ok_def list_all_iff)
qed

lemma emits_frame_field:
  assumes "target_ok sp (field, start, len, target)" "field_type sp field = Some ty" "known A (Some fr) (fb, Some array_type)"
    and "\<And>n. emits (holds sp (In_Frame fr # st) ((Some fr, n, ty) # A) []) (g (AList.update field n nets)) Q"
  shows "emits (holds sp (In_Frame fr # st) A []) (andThen (frame_field stub (enum_type sp) fb fr nets (field, start, len, target)) g) Q"
proof (cases "starts ''enum:'' target")
  case True
  then have ty: "ty = enum_type sp" using assms(1,2) by (simp add: target_ok_def)
  have "target = ''enum:'' @ drop (length ''enum:'') target" using True unfolding starts_def by (metis append_take_drop_id)
  then obtain t where "target = ''enum'' @ CHR '':'' # t" by auto
  then obtain v vs where "split_on (CHR '':'') [] target = ''enum'' # v # vs"
    using split_on_append [of "CHR '':''" "''enum''" "[]" t] split_on_nonempty [of "CHR '':''" "[]" t] by (auto simp: neq_Nil_conv)
  then have "py_index (split_on (CHR '':'') [] target) 1 = Inr v" by (simp add: py_index_def)
  then show ?thesis unfolding frame_field_def prod.case if_P [OF True] ret_simps
    using assms(4) by (intro emits_try emits_gconst) (auto simp: ty)
next
  case False
  note frame = frame_field_def prod.case if_not_P [OF False]
  show ?thesis
  proof (cases "starts ''const:'' target")
    case True
    then obtain c t v where "split_on (CHR '':'') [] target = [c, t, v]" "ty = t"
      using assms(1,2) False by (auto simp: target_ok_def split: list.splits)
    moreover from this have "emits (holds sp (In_Frame fr # st) ((Some fr, n, t) # A) []) (g (AList.update field n nets)) Q" for n
      using assms(4) by simp
    ultimately show ?thesis unfolding frame if_P [OF True] by (auto intro!: emits_gconst)
  next
    case const: False
    show ?thesis unfolding frame if_not_P [OF const] ret_simps using assms(1,2,3) False const
      by (intro emits_gextract [where ty = ty]) (auto simp: target_ok_def assms(4) split: if_splits)
  qed
qed

lemma emits_frame_fields:
  assumes "list_all (target_ok sp) fs" "nets_ok sp (Some fr) A nets" "known A (Some fr) (fb, Some array_type)"
    and "\<And>nets' B. nets_ok sp (Some fr) B nets' \<Longrightarrow> fst ` set nets \<union> fst ` set fs \<subseteq> fst ` set nets' \<Longrightarrow> set A \<subseteq> set B \<Longrightarrow>
      emits (holds sp (In_Frame fr # st) B []) (g nets') Q"
  shows "emits (holds sp (In_Frame fr # st) A []) (andThen (fold_gen (frame_field stub (enum_type sp) fb fr) nets fs) g) Q"
  using assms
proof (induction fs arbitrary: nets A)
  case Nil
  then show ?case by simp
next
  case (Cons f fs)
  obtain field start len target where f: "f = (field, start, len, target)" by (cases f)
  then have ok: "target_ok sp (field, start, len, target)" using Cons.prems(1) by simp
  then obtain ty where ty: "field_type sp field = Some ty" using target_type by blast
  show ?case unfolding fold_gen.simps ret_simps f
  proof (rule emits_frame_field [OF ok ty Cons.prems(3)])
    fix n
    show "emits (holds sp (In_Frame fr # st) ((Some fr, n, ty) # A) [])
        (andThen (fold_gen (frame_field stub (enum_type sp) fb fr) (AList.update field n nets) fs) g) Q"
    proof (rule Cons.IH)
      show "nets_ok sp (Some fr) ((Some fr, n, ty) # A) (AList.update field n nets)"
        by (rule nets_ok_update [OF Cons.prems(2) ty])
      fix nets' B
      assume a: "nets_ok sp (Some fr) B nets'" "fst ` set (AList.update field n nets) \<union> fst ` set fs \<subseteq> fst ` set nets'"
        "set ((Some fr, n, ty) # A) \<subseteq> set B"
      have "fst ` set (AList.update field n nets) = insert field (fst ` set nets)" by (simp add: dom_update)
      then show "emits (holds sp (In_Frame fr # st) B []) (g nets') Q" using a by (intro Cons.prems(4)) (auto simp: f)
    qed (use Cons.prems in simp_all)
  qed
qed

lemma drop_ConsD: "drop k xs = y # ys \<Longrightarrow> k < length xs \<and> xs ! k = y \<and> drop (Suc k) xs = ys"
  by (cases "k < length xs") (simp_all add: Cons_nth_drop_Suc [symmetric])

lemma emits_frame_outs:
  assumes "nets_ok sp (Some fr) A nets" "set outs \<subseteq> fst ` set nets" "drop k (outs_of sp) = outs" "k \<le> length (outs_of sp)"
    and "emits (holds sp (In_Frame fr # st) A []) (g ()) Q"
  shows "emits (holds sp (In_Frame fr # st) A []) (andThen (frame_outs fr nets (Suc k) outs) g) Q"
  using assms
proof (induction outs arbitrary: k)
  case Nil
  then show ?case by simp
next
  case (Cons f outs)
  then obtain n where n: "map_of nets f = Some n" by (metis insert_subset list.set(2) map_of_eq_None_iff not_None_eq)
  then have "py_key nets f = Inr n" by (simp add: py_key_def)
  moreover have k: "k < length (outs_of sp)" "outs_of sp ! k = f" "drop (Suc k) (outs_of sp) = outs"
    using drop_ConsD [OF Cons.prems(3)] by simp_all
  moreover have "known A (Some fr) (n, Some (tunnel_type sp (OutId (Suc k))))"
    using Cons.prems(1) map_of_SomeD [OF n] k(2) by (fastforce simp: nets_ok_def list_all_iff tunnel_type_def)
  moreover have "emits (holds sp (In_Frame fr # st) A []) (andThen (frame_outs fr nets (Suc (Suc k)) outs) g) Q"
    using Cons.prems k by (intro Cons.IH) auto
  ultimately show ?case unfolding frame_outs.simps ret_simps Suc_eq_plus1 [symmetric]
    by (intro emits_draw emits_try emits_keep [where vs = "[]"]) auto
qed

lemma emits_case_frame:
  assumes "frame_fits sp frame" and "emits (holds sp (In_Case cs # st) A []) (g ()) Q"
  shows "emits (holds sp (In_Case cs # st) A []) (andThen (case_frame stub (enum_type sp) (outs_of sp) cs x frame) g) Q"
proof -
  have last: "emits (holds sp (In_Frame fr # In_Case cs # st) B []) (andThen (put Frame_Close) g) Q" if "set A \<subseteq> set B" for fr B
    by (rule emits_put [where vs = "[]"]) (auto intro: emits_mono [OF assms(2) that])
  have fields: "emits (holds sp (In_Frame fr # In_Case cs # st) ((Some fr, Net tf ''value'', array_type) # A) [])
      (andThen (fold_gen (frame_field stub (enum_type sp) (Net tf ''value'') fr) [] (fr_fields frame)) (\<lambda>nets.
       andThen (frame_outs fr nets 1 (outs_of sp)) (\<lambda>_. andThen (put Frame_Close) g))) Q" for fr tf
  proof (rule emits_frame_fields)
    fix nets' B
    assume a: "nets_ok sp (Some fr) B nets'" "fst ` set [] \<union> fst ` set (fr_fields frame) \<subseteq> fst ` set nets'"
      "set ((Some fr, Net tf ''value'', array_type) # A) \<subseteq> set B"
    have "emits (holds sp (In_Frame fr # In_Case cs # st) B [])
        (andThen (frame_outs fr nets' (Suc 0) (outs_of sp)) (\<lambda>_. andThen (put Frame_Close) g)) Q"
      using assms(1) a by (intro emits_frame_outs last) (auto simp: frame_fits_def)
    then show "emits (holds sp (In_Frame fr # In_Case cs # st) B [])
        (andThen (frame_outs fr nets' 1 (outs_of sp)) (\<lambda>_. andThen (put Frame_Close) g)) Q" by simp
  qed (use assms(1) in \<open>auto simp: frame_fits_def nets_ok_def\<close>)
  have tunnel: "emits (holds sp (In_Frame fr # In_Case cs # st) A [tf]) (andThen (put (Tunnel_Out 6 In1 tf (Some fr))) (\<lambda>_.
      andThen (fold_gen (frame_field stub (enum_type sp) (Net tf ''value'') fr) [] (fr_fields frame)) (\<lambda>nets.
       andThen (frame_outs fr nets 1 (outs_of sp)) (\<lambda>_. andThen (put Frame_Close) g)))) Q" for fr tf
    by (rule emits_put [where vs = "[]"]) (use fields in \<open>auto simp: tunnel_type_def\<close>)
  have label: "emits (holds sp (In_Frame fr # In_Case cs # st) A [lb]) (andThen (put (Free_Label (fr_label frame) lb (Some fr))) h) Q"
    if "emits (holds sp (In_Frame fr # In_Case cs # st) A []) (h ()) Q" for fr lb h
    using that by (intro emits_keep) auto
  have open_frame: "emits (holds sp (In_Case cs # st) A [fr]) (andThen (put (Frame_Open sel fr (Some cs))) h) Q"
    if "emits (holds sp (In_Frame fr # In_Case cs # st) A []) (h ()) Q" for fr sel h
    by (rule emits_put [where vs = "[]"]) (use that in auto)
  show ?thesis unfolding case_frame_def ret_simps
    by (intro emits_draw open_frame label tunnel)
qed

lemma emits_case_frames:
  assumes "list_all (frame_fits sp) frames" and "emits (holds sp (In_Case cs # st) A []) (g ()) Q"
  shows "emits (holds sp (In_Case cs # st) A []) (andThen (fold_gen (case_frame stub (enum_type sp) (outs_of sp) cs) () frames) g) Q"
  using assms(1)
proof (induction frames)
  case Nil
  then show ?case using assms(2) by simp
next
  case (Cons frame frames)
  then show ?case unfolding fold_gen.simps ret_simps by (intro emits_case_frame) simp_all
qed

text \<open>The nets that the two bundles take.\<close>

definition bundle_ok :: "vi_spec \<Rightarrow> net_env \<Rightarrow> bundle_nets \<Rightarrow> bool" where
  "bundle_ok sp A bn \<longleftrightarrow> nets_ok sp None A (fst bn) \<and>
     list_all (\<lambda>(i, n). i < 17 \<and> known A None (n, Some (cluster_types sp ! i))) (snd bn)"

lemma bundle_ok_mono: "bundle_ok sp A bn \<Longrightarrow> set A \<subseteq> set B \<Longrightarrow> bundle_ok sp B bn"
  using nets_ok_mono [of sp None A "fst bn" B] known_mono [of A B] by (fastforce simp: bundle_ok_def list_all_iff)

lemma bundle_ok_update:
  assumes "bundle_ok sp A (byname, positional)" "field_type sp f = Some ty" "i < 17" "cluster_types sp ! i = ty"
  shows "bundle_ok sp ((None, n, ty) # A) (AList.update f n byname, positional)"
    "bundle_ok sp ((None, n, ty) # A) (byname, AList.update i n positional)"
proof -
  let ?A = "(None, n, ty) # A"
  have mono: "bundle_ok sp ?A (byname, positional)" by (rule bundle_ok_mono [OF assms(1)]) auto
  then show "bundle_ok sp ?A (AList.update f n byname, positional)"
    using assms(1) nets_ok_update [OF _ assms(2), of None A byname n] by (simp add: bundle_ok_def)
  have "bundle_ok sp ?A (byname, (i, n) # positional)" using mono assms(3,4) by (simp add: bundle_ok_def)
  then show "bundle_ok sp ?A (byname, AList.update i n positional)"
    using set_update_subset [of i n positional] unfolding bundle_ok_def list_all_iff snd_conv fst_conv list.simps
    by blast
qed

lemma index_of_field:
  assumes "field_type sp f = Some ty"
  shows "\<exists>i. index_of CLUSTER_ORDER f = Inr i \<and> i < 17 \<and> cluster_types sp ! i = ty"
proof -
  have len: "length CLUSTER_ORDER = 17" "length (cluster_types sp) = 17"
    by (simp_all add: CLUSTER_ORDER_def cluster_types_def CLUSTER_TYPES_def)
  obtain i where i: "i < 17" "CLUSTER_ORDER ! i = f" "cluster_types sp ! i = ty"
    using map_of_SomeD [OF assms [unfolded field_type_def]] by (auto simp: in_set_zip len)
  have "distinct CLUSTER_ORDER" by (simp add: CLUSTER_ORDER_def)
  then have "List.find (\<lambda>i. CLUSTER_ORDER ! i = f) [0..<17] = Some i"
    using i by (auto simp: find_Some_iff len nth_eq_iff_index_eq)
  then show ?thesis using i by (simp add: index_of_def len)
qed

lemma emits_case_outs:
  assumes "list_all (\<lambda>f. field_type sp f \<noteq> None) outs" "bundle_ok sp A bn"
    "drop k (outs_of sp) = outs" "k \<le> length (outs_of sp)" "scope_in st = None"
    and "\<And>bn' B. bundle_ok sp B bn' \<Longrightarrow> set A \<subseteq> set B \<Longrightarrow> emits (holds sp (In_Case cs # st) B []) (g bn') Q"
  shows "emits (holds sp (In_Case cs # st) A []) (andThen (case_outs cs (Suc k) bn outs) g) Q"
  using assms
proof (induction outs arbitrary: k bn A)
  case Nil
  then show ?case by (cases bn) auto
next
  case (Cons f outs)
  obtain byname positional where bn: "bn = (byname, positional)" by (cases bn)
  obtain ty where ty: "field_type sp f = Some ty" using Cons.prems(1) by auto
  obtain i where i: "index_of CLUSTER_ORDER f = Inr i" "i < 17" "cluster_types sp ! i = ty" using index_of_field [OF ty] by blast
  have k: "k < length (outs_of sp)" "outs_of sp ! k = f" "drop (Suc k) (outs_of sp) = outs"
    using drop_ConsD [OF Cons.prems(3)] by simp_all
  have tunnel: "tunnel_type sp (OutId (Suc k)) = ty" by (simp add: tunnel_type_def k ty)
  let ?A = "\<lambda>tu. (None, Net tu ''value'', ty) # A"
  have next_outs: "emits (holds sp (In_Case cs # st) (?A tu) []) (andThen (case_outs cs (Suc (Suc k)) bn' outs) g) Q"
    if "bundle_ok sp (?A tu) bn'" for tu bn'
    using Cons.prems(1,4-6) k that by (intro Cons.IH) auto
  have ok: "bundle_ok sp (?A tu) (AList.update f (Net tu ''value'') byname, positional)"
      "bundle_ok sp (?A tu) (byname, AList.update i (Net tu ''value'') positional)" for tu
    using bundle_ok_update [OF Cons.prems(2) [unfolded bn] ty i(2,3)] by simp_all
  show ?case unfolding bn case_outs.simps ret_simps Suc_eq_plus1 [symmetric] andThen_if
  proof (intro emits_draw, rule emits_put [where vs = "[]"])
    fix tu
    show "emits (holds sp (next_in (In_Case cs # st) (Tunnel_Out 4 (OutId (Suc k)) tu (Some cs)))
        (map (\<lambda>(n, ty). (scope_in (In_Case cs # st), n, ty)) (drives sp (Tunnel_Out 4 (OutId (Suc k)) tu (Some cs))) @ A) [])
      (if CHR ''.'' \<in> set f
       then andThen (try_result (index_of CLUSTER_ORDER f)) (\<lambda>i.
         andThen (case_outs cs (Suc (Suc k)) (byname, AList.update i (Net tu ''value'') positional) outs) g)
       else andThen (case_outs cs (Suc (Suc k)) (AList.update f (Net tu ''value'') byname, positional) outs) g) Q"
      using next_outs [OF ok(1)] next_outs [OF ok(2)] by (auto simp: tunnel Cons.prems(5) intro!: emits_try [OF i(1)])
  qed auto
qed

lemma emits_case_structure:
  assumes "spec_ok sp" "bundle_ok sp A bn" "known A None (tb, None)" "known A None (b, Some array_type)"
    and "\<And>bn' B. bundle_ok sp B bn' \<Longrightarrow> set A \<subseteq> set B \<Longrightarrow> emits (holds sp [In_VI] B []) (g bn') Q"
  shows "emits (holds sp [In_VI] A []) (andThen (case_structure stub (enum_type sp) b tb (sp_frames sp) bn) g) Q"
proof (cases "sp_frames sp")
  case Nil
  then show ?thesis using assms(2,5) by (simp add: case_structure_def)
next
  case (Cons frame frames)
  then have outs: "map fst (fr_fields frame) = outs_of sp" by (simp add: outs_of_def)
  have fits: "list_all (frame_fits sp) (frame # frames)" using assms(1) Cons by (simp add: spec_ok_def)
  then have types: "list_all (\<lambda>f. field_type sp f \<noteq> None) (outs_of sp)"
    using target_type by (fastforce simp: frame_fits_def list_all_iff simp flip: outs)
  have close: "emits (holds sp [In_Case cs, In_VI] B []) (andThen (put Case_Close) (\<lambda>_. g bn')) Q"
    if "bundle_ok sp B bn'" "set A \<subseteq> set B" for cs B bn'
    by (rule emits_put [where vs = "[]"]) (use assms(5) [OF that] in auto)
  have inside: "emits (holds sp [In_Case cs, In_VI] A []) (andThen (fold_gen (case_frame stub (enum_type sp) (outs_of sp) cs) () (frame # frames))
      (\<lambda>_. andThen (case_outs cs (Suc 0) bn (outs_of sp)) (\<lambda>bn'. andThen (put Case_Close) (\<lambda>_. g bn')))) Q" for cs
    by (intro emits_case_frames fits emits_case_outs types assms(2) close) simp_all
  have tunnel: "emits (holds sp [In_Case cs, In_VI] A [tin]) (andThen (put (Tunnel_In 4 In1 b tin (Some cs))) h) Q"
    if "emits (holds sp [In_Case cs, In_VI] A []) (h ()) Q" for cs tin h
    using assms(4) that by (intro emits_keep) (auto simp: tunnel_type_def)
  have open_case: "emits (holds sp [In_VI] A [cs, tin]) (andThen (put (Case_Open tb cs)) h) Q"
    if "emits (holds sp [In_Case cs, In_VI] A [tin]) (h ()) Q" for cs tin h
    by (rule emits_put [where vs = "[tin]"]) (use assms(3) that in auto)
  show ?thesis unfolding case_structure_def Cons list.case ret_simps Let_def outs One_nat_def
    by (intro emits_draw emits_draw_next open_case tunnel inside)
qed

lemma emits_bundle_positions:
  assumes "bundle_ok sp A (byname, positional)" "known A None (base, Some (cluster_type sp))"
    and "\<And>n B. known B None (n, Some (cluster_type sp)) \<Longrightarrow> set A \<subseteq> set B \<Longrightarrow> emits (holds sp [In_VI] B []) (g n) Q"
  shows "emits (holds sp [In_VI] A []) (andThen (bundle_positions base positional) g) Q"
proof (cases "positional = []")
  case True
  then show ?thesis using assms(2,3) by (simp add: bundle_positions_def)
next
  case False
  let ?es = "map (\<lambda>i. (''element'', element_name i)) [0..<17]"
  let ?is = "\<lambda>ub. map (\<lambda>i. (''element'', Some (case map_of positional i of Some n \<Rightarrow> n | None \<Rightarrow> Net ub (element_name i)))) [0..<17]
    @ [(''cluster'', None)]"
  let ?A = "\<lambda>ub. map (\<lambda>i. (None, Net ub (element_name i), cluster_types sp ! i)) [0..<17] @ A"
  have drives_elems: "map (\<lambda>(n, ty). (None, n, ty)) (drives sp (Node ''Unbundle'' [] ins ?es ub None)) =
      map (\<lambda>i. (None, Net ub (element_name i), cluster_types sp ! i)) [0..<17]" for ub ins
    unfolding drives.simps enumerate_map_upt by (simp add: output_type_def)
  have element: "known (?A ub) None (case map_of positional i of Some n \<Rightarrow> n | None \<Rightarrow> Net ub (element_name i), Some (cluster_types sp ! i))"
    if "i < 17" for ub i
  proof (cases "map_of positional i")
    case None
    then show ?thesis using that by (auto simp: known_def list_ex_iff)
  next
    case (Some n)
    have "known A None (n, Some (cluster_types sp ! i))"
      using assms(1) map_of_SomeD [OF Some] by (auto simp: bundle_ok_def list_all_iff)
    then show ?thesis using Some known_mono [of A "?A ub"] by simp
  qed
  have pack: "emits (holds sp [In_VI] (?A ub) [bd]) (andThen (put (Node ''Bundle'' ex (?is ub)
      [(''output cluster'', ''output cluster'')] bd None)) (\<lambda>_. g (Net bd ''output cluster''))) Q" for ub bd ex
  proof (rule emits_node)
    have "reads sp (Node ''Bundle'' ex (?is ub) [(''output cluster'', ''output cluster'')] bd None) =
        map (\<lambda>i. (case map_of positional i of Some n \<Rightarrow> n | None \<Rightarrow> Net ub (element_name i), Some (cluster_types sp ! i))) [0..<17]"
      unfolding reads.simps enumerate_append_eq enumerate_map_upt map_append concat_append
      by (simp add: input_type_def comp_def del: upt_Suc upt.simps)
    then show "list_all (known (?A ub) (scope_in [In_VI])) (reads sp (Node ''Bundle'' ex (?is ub)
        [(''output cluster'', ''output cluster'')] bd None))" using element by (simp add: list_all_iff)
    show "emits (holds sp [In_VI] ((scope_in [In_VI], Net bd ''output cluster'', output_type sp ''Bundle'' 0) # ?A ub) [])
        (g (Net bd ''output cluster'')) Q"
      by (rule assms(3)) (auto simp: output_type_def)
  qed simp_all
  show ?thesis unfolding bundle_positions_def if_not_P [OF False] ret_simps
  proof (intro emits_draw, rule emits_put [where vs = "[]"])
    fix ub
    show "emits (holds sp (next_in [In_VI] (Node ''Unbundle'' [] [(''cluster'', Some base)] ?es ub None))
        (map (\<lambda>(n, ty). (scope_in [In_VI], n, ty)) (drives sp (Node ''Unbundle'' [] [(''cluster'', Some base)] ?es ub None)) @ A) [])
      (andThen nid (\<lambda>bd. andThen (put (Node ''Bundle'' [(''comment'', ''dotted fields by position'')] (?is ub)
        [(''output cluster'', ''output cluster'')] bd None)) (\<lambda>_. g (Net bd ''output cluster'')))) Q"
      unfolding scope_in.simps drives_elems next_in.simps
      by (intro emits_draw pack)
  qed (use assms(2) in \<open>auto simp: input_type_def\<close>)
qed

lemma emits_flags:
  assumes "list_all (\<lambda>(f, v). field_type sp f = Some ''bool'') flags" "nets_ok sp None A byname"
    and "\<And>nets B. nets_ok sp None B nets \<Longrightarrow> set A \<subseteq> set B \<Longrightarrow> emits (holds sp [In_VI] B []) (g nets) Q"
  shows "emits (holds sp [In_VI] A []) (andThen (fold_gen flag_consts byname flags) g) Q"
  using assms
proof (induction flags arbitrary: A byname)
  case Nil
  then show ?case by simp
next
  case (Cons fv flags)
  then have ty: "field_type sp (fst fv) = Some ''bool''" by (cases fv) simp
  have flag: "emits (holds sp [In_VI] A []) (andThen (flag_consts byname fv) h) Q"
    if "\<And>n. emits (holds sp [In_VI] ((None, n, ''bool'') # A) []) (h (AList.update (fst fv) n byname)) Q" for h
    unfolding flag_consts_def ret_simps using that by (intro emits_gconst) auto
  show ?case unfolding fold_gen.simps ret_simps
    using Cons.prems(1,3) by (intro flag Cons.IH nets_ok_update [OF Cons.prems(2) ty]) auto
qed

text \<open>The read of one header field at the root.\<close>

lemma emits_root_read:
  assumes "known A None (b, Some array_type)" "(kind, nm, out, ty) \<in> set CONV"
    and "\<And>n B. known B None (n, Some ty) \<Longrightarrow> set A \<subseteq> set B \<Longrightarrow> emits (holds sp [In_VI] B []) (g n) Q"
  shows "emits (holds sp [In_VI] A []) (andThen (gcall stub b start len None) (\<lambda>raw. andThen (gconv raw kind None) g)) Q"
  by (intro emits_gcall emits_gconv [OF _ _ assms(2)] assms(3)) (auto simp: assms(1))

lemma base_fields: "field_type sp ''orderId '' = Some ''uint64''" "field_type sp ''nanoseconds'' = Some ''uint64''"
    "field_type sp ''type'' = Some (enum_type sp)"
  by (simp_all add: field_type_def CLUSTER_ORDER_def cluster_types_def CLUSTER_TYPES_def)

lemma nets_ok_put:
  assumes "nets_ok sp sc A nets" "field_type sp f = Some ty" "known A sc (n, Some ty)"
  shows "nets_ok sp sc A (AList.update f n nets)"
proof -
  have "nets_ok sp sc A ((f, n) # nets)" using assms by (simp add: nets_ok_def)
  then show ?thesis using set_update_subset [of f n nets] by (fastforce simp: nets_ok_def list_all_iff)
qed

lemma known_inputs:
  assumes "list_all (\<lambda>(l, n). \<forall>j x. n = Some x \<longrightarrow> known A sc (x, input_type sp nm j l)) ins"
  shows "list_all (known A sc) (reads sp (Node nm extra ins outs u p))"
proof -
  have "x \<in> set ins" if "(j, x) \<in> set (List.enumerate 0 ins)" for j x
    using that by (auto simp: in_set_enumerate_eq)
  then show ?thesis using assms by (fastforce simp: list_all_iff split: option.splits)
qed

text \<open>The end of the document, in parts: the node that bundles by name with the indicator behind it, the
  bundling by position before that, and before these the reads of the header fields.\<close>

definition close_part :: "vi_spec \<Rightarrow> (string \<times> net) list \<Rightarrow> net \<Rightarrow> unit gen" where
  "close_part sp byname cn =
     (let order = filter (\<lambda>f. f \<in> fst ` set byname) CLUSTER_ORDER in
      andThen nid (\<lambda>bb.
      andThen (put (Node ''Bundle By Name'' [(''fields'', join_with '','' (map py_strip order))]
          (map (\<lambda>f. (f, map_of byname f)) order @ [(''input cluster'', Some cn)])
          [(''output cluster'', ''output cluster'')] bb None)) (\<lambda>_.
      andThen nid (\<lambda>ind.
      andThen (put (Indicator (Net bb ''output cluster'') (cluster_type sp) ind)) (\<lambda>_. put VI_Close)))))"

definition bundle_part :: "vi_spec \<Rightarrow> net \<Rightarrow> bundle_nets \<Rightarrow> unit gen" where
  "bundle_part sp base = (\<lambda>(byname, positional). andThen (bundle_positions base positional) (close_part sp byname))"

definition read_part :: "vi_spec \<Rightarrow> string \<Rightarrow> net \<Rightarrow> net \<Rightarrow> (string \<times> net) list \<Rightarrow> unit gen" where
  "read_part sp stub b base byname =
     andThen (gcall stub b (Some 1) (Some 1) None) (\<lambda>raw. andThen (gconv raw ''u8'' None) (\<lambda>tb.
     andThen (gcall stub b (Some 2) (Some 4) None) (\<lambda>raw. andThen (gconv raw ''u64'' None) (\<lambda>ns.
     andThen (gcall stub b (Some 6) (Some 8) None) (\<lambda>raw. andThen (gconv raw ''u64'' None) (\<lambda>oid.
     andThen (case_structure stub (enum_type sp) b tb (sp_frames sp)
       (AList.update ''orderId '' oid (AList.update ''nanoseconds'' ns byname), [])) (bundle_part sp base)))))))"

lemma emits_indicator:
  assumes "known A None (n, Some (cluster_type sp))"
  shows "emits (holds sp [In_VI] A [ind]) (andThen (put (Indicator n (cluster_type sp) ind)) (\<lambda>_. put VI_Close))
    (\<lambda>_. holds sp [] [] [])"
proof -
  have "emits (holds sp [In_VI] B []) (put VI_Close) (\<lambda>_. holds sp [] [] [])" for B
    by (subst andThen_ret [symmetric], rule emits_put [where vs = "[]"]) (auto intro!: emits_ret simp: holds_def)
  then show ?thesis using assms by (intro emits_keep) auto
qed

lemma known_by_name:
  assumes "nets_ok sp None A byname" and "known A None (cn, Some (cluster_type sp))"
  shows "list_all (known A None) (reads sp (Node ''Bundle By Name'' ex
    (map (\<lambda>f. (f, map_of byname f)) (filter (\<lambda>f. f \<in> fst ` set byname) CLUSTER_ORDER) @ [(''input cluster'', Some cn)])
    outs bb None))" (is "list_all _ (reads sp (Node _ ex (map ?in ?fs @ _) outs bb None))")
proof (rule known_inputs)
  have "known A None (n, input_type sp ''Bundle By Name'' j f)" if "f \<in> set ?fs" "map_of byname f = Some n" for f n j
  proof -
    have "''input cluster'' \<notin> set CLUSTER_ORDER" by (simp add: CLUSTER_ORDER_def)
    then have "f \<noteq> ''input cluster''" using that(1) by auto
    then show ?thesis using assms(1) map_of_SomeD [OF that(2)] by (auto simp: nets_ok_def list_all_iff input_type_def)
  qed
  then have "list_all (\<lambda>(l, n). \<forall>j x. n = Some x \<longrightarrow> known A None (x, input_type sp ''Bundle By Name'' j l)) (map ?in ?fs)"
    unfolding list.pred_map by (simp only: list_all_iff comp_def prod.case) blast
  then show "list_all (\<lambda>(l, n). \<forall>j x. n = Some x \<longrightarrow> known A None (x, input_type sp ''Bundle By Name'' j l))
      (map ?in ?fs @ [(''input cluster'', Some cn)])"
    using assms(2) by (simp add: input_type_def)
qed

lemma emits_close_part:
  assumes "nets_ok sp None A byname" and "known A None (cn, Some (cluster_type sp))"
  shows "emits (holds sp [In_VI] A []) (close_part sp byname cn) (\<lambda>_. holds sp [] [] [])"
  unfolding close_part_def Let_def
proof (rule emits_draw, rule emits_node)
  fix bb
  show "list_all (known A (scope_in [In_VI])) (reads sp (Node ''Bundle By Name'' [(''fields'', join_with '',''
      (map py_strip (filter (\<lambda>f. f \<in> fst ` set byname) CLUSTER_ORDER)))]
    (map (\<lambda>f. (f, map_of byname f)) (filter (\<lambda>f. f \<in> fst ` set byname) CLUSTER_ORDER) @ [(''input cluster'', Some cn)])
    [(''output cluster'', ''output cluster'')] bb None))"
    unfolding scope_in.simps by (rule known_by_name [OF assms])
  show "emits (holds sp [In_VI] ((scope_in [In_VI], Net bb ''output cluster'', output_type sp ''Bundle By Name'' 0) # A) [])
      (andThen nid (\<lambda>ind. andThen (put (Indicator (Net bb ''output cluster'') (cluster_type sp) ind)) (\<lambda>_. put VI_Close)))
      (\<lambda>_. holds sp [] [] [])"
    by (intro emits_draw emits_indicator) (simp add: output_type_def)
qed simp_all

lemma emits_bundle_part:
  assumes "bundle_ok sp A bn" and "known A None (base, Some (cluster_type sp))"
  shows "emits (holds sp [In_VI] A []) (bundle_part sp base bn) (\<lambda>_. holds sp [] [] [])"
proof (cases bn)
  case (Pair byname positional)
  have "nets_ok sp None B byname" if "set A \<subseteq> set B" for B
    using assms(1) nets_ok_mono [OF _ that] by (simp add: bundle_ok_def Pair)
  then show ?thesis unfolding Pair bundle_part_def prod.case using assms unfolding Pair
    by (intro emits_bundle_positions emits_close_part) auto
qed

lemma emits_read_part:
  assumes "spec_ok sp" and ok: "nets_ok sp None A byname" "known A None (b, Some array_type)"
    "known A None (base, Some (cluster_type sp))"
  shows "emits (holds sp [In_VI] A []) (read_part sp stub b base byname) (\<lambda>_. holds sp [] [] [])"
  unfolding read_part_def
proof (rule emits_root_read [where ty = "''uint8''"], rule ok, simp add: CONV_def,
    rule emits_root_read [where ty = "''uint64''"], erule known_mono, rule ok, simp add: CONV_def,
    rule emits_root_read [where ty = "''uint64''"], rule known_mono [OF subset_trans ok(2)], assumption, assumption,
    simp add: CONV_def)
  fix tb B1 ns B2 oid B3
  assume B1: "known B1 None (tb, Some ''uint8'')" "set A \<subseteq> set B1"
    and B2: "known B2 None (ns, Some ''uint64'')" "set B1 \<subseteq> set B2"
    and B3: "known B3 None (oid, Some ''uint64'')" "set B2 \<subseteq> set B3"
  have sub: "set A \<subseteq> set B3" "set B1 \<subseteq> set B3" using B1(2) B2(2) B3(2) by simp_all
  have bn: "bundle_ok sp B3 (AList.update ''orderId '' oid (AList.update ''nanoseconds'' ns byname), [])"
    using nets_ok_put [OF nets_ok_put [OF nets_ok_mono [OF ok(1) sub(1)] base_fields(2) known_mono [OF B3(2) B2(1)]] base_fields(1) B3(1)]
    by (simp add: bundle_ok_def)
  show "emits (holds sp [In_VI] B3 []) (andThen (case_structure stub (enum_type sp) b tb (sp_frames sp)
      (AList.update ''orderId '' oid (AList.update ''nanoseconds'' ns byname), [])) (bundle_part sp base)) (\<lambda>_. holds sp [] [] [])"
  proof (rule emits_case_structure [OF assms(1) bn])
    from known_mono [OF sub(2) B1(1)] show "known B3 None (tb, None)" by (auto simp: known_def list_ex_iff)
    show "known B3 None (b, Some array_type)" by (rule known_mono [OF sub(1) ok(2)])
  qed (intro emits_bundle_part, simp, meson ok(3) known_mono sub(1) subset_trans)
qed

text \<open>The beginning: the enumeration's constant, if the message kind is fixed, and the flags.\<close>

lemma emits_type_part:
  assumes "spec_ok sp" and "known A None (b, Some array_type)" "known A None (base, Some (cluster_type sp))"
  shows "emits (holds sp [In_VI] A []) (andThen (case sp_type_value sp of None \<Rightarrow> ret []
      | Some v \<Rightarrow> andThen (gconst ''OrderBook Command'' (enum_type sp) (to_dec v) None) (\<lambda>n. ret [(''type'', n)]))
      (\<lambda>byname. andThen (fold_gen flag_consts byname (sp_flags sp)) (read_part sp stub b base))) (\<lambda>_. holds sp [] [] [])"
proof -
  have flags: "emits (holds sp [In_VI] B []) (andThen (fold_gen flag_consts byname (sp_flags sp)) (read_part sp stub b base))
      (\<lambda>_. holds sp [] [] [])"
    if "nets_ok sp None B byname" "known B None (b, Some array_type)" "known B None (base, Some (cluster_type sp))" for B byname
    using that assms(1) by (intro emits_flags emits_read_part) (auto simp: spec_ok_def intro: known_mono)
  show ?thesis
  proof (cases "sp_type_value sp")
    case None
    show ?thesis unfolding None option.case ret_simps by (rule flags) (simp_all add: nets_ok_def assms)
  next
    case (Some v)
    show ?thesis unfolding Some option.case ret_simps
      by (intro emits_gconst flags) (simp_all add: nets_ok_def base_fields assms)
  qed
qed

lemma emits_gen_vi:
  assumes "spec_ok sp"
  shows "emits (holds sp [] [] []) (gen_vi name sp stub) (\<lambda>_. holds sp [] [] [])"
proof -
  let ?Q = "\<lambda>_ :: unit. holds sp [] [] []"
  note parts = emits_type_part [OF assms, unfolded read_part_def bundle_part_def close_part_def Let_def]
  have control: "emits (holds sp [In_VI] [] [buf]) (andThen (put (Control buf)) h) ?Q"
    if "emits (holds sp [In_VI] [(None, Net buf ''value'', array_type)] []) (h ()) ?Q" for buf h
    by (rule emits_put [where vs = "[]"]) (use that in auto)
  have vi_open: "emits (holds sp [] [] []) (andThen (put (VI_Open name (sp_desc sp))) h) ?Q"
    if "emits (holds sp [In_VI] [] []) (h ()) ?Q" for h
    by (rule emits_put [where vs = "[]"]) (use that in auto)
  show ?thesis unfolding gen_vi_def Let_def ret_simps
    by (intro vi_open emits_draw control emits_gconst parts) simp_all
qed

lemma gen_vi_well_formed:
  assumes "spec_ok sp"
  shows "\<exists>n L. gen_vi name sp stub (1100, []) = Inr ((), (n, L)) \<and> uids L = [1101..<Suc n] \<and> well_formed_vi sp L"
proof -
  have "holds sp [] [] [] (1100, [])" by (simp add: holds_def uids_def List.map_filter_def)
  then obtain s' where s': "gen_vi name sp stub (1100, []) = Inr ((), s')" "holds sp [] [] [] s'"
    using emits_gen_vi [OF assms, of name stub] unfolding emits_def by (metis old.unit.exhaust)
  then show ?thesis by (cases s') (auto simp: holds_def well_formed_vi_def split: option.splits)
qed

text \<open>Every table of the program fits the cluster, with the order enum it declares.\<close>

lemma SPECS_ok: "list_all (\<lambda>(name, sp). spec_ok sp) SPECS"
  by code_simp

section \<open>Properties\<close>

text \<open>C14. What gen_message_vi.py writes can be wired: for each of its message names \<open>main\<close> writes a document
  whose elements stand inside the element they name as parent, whose ids are all different, and in
  which every net is driven in its scope before it is read, with the type the reader expects: the
  cluster field's type at the bundles, the same type from every case at a case's output tunnels. For
  any other name it raises KeyError.\<close>
theorem generated_vi_wired:
  "if name \<in> fst ` set SPECS
   then \<exists>sp L msg. (name, sp) \<in> set SPECS \<and>
     gen_main name stub = Inr (crlf (join_with [CHR 10] (map elem_text L) @ [CHR 10]), msg) \<and> well_formed_vi sp L
   else gen_main name stub = Inl KeyError"
proof (cases "map_of SPECS name")
  case None
  then have "name \<notin> fst ` set SPECS" by (simp add: map_of_eq_None_iff)
  with None show ?thesis by (simp add: gen_main_def py_key_def)
next
  case (Some sp)
  then have sp: "(name, sp) \<in> set SPECS" by (rule map_of_SomeD)
  then have "spec_ok sp" using SPECS_ok by (auto simp: list_all_iff)
  then obtain n L where "gen_vi name sp stub (1100, []) = Inr ((), (n, L))" "well_formed_vi sp L"
    using gen_vi_well_formed by blast
  then show ?thesis using sp Some by (force simp: gen_main_def py_key_def Let_def)
qed

end
