(* ===== verification/Loader_Tests.thy ===== *)
theory Loader_Tests
  imports Bats_Loader Sim_Score Message_Vi
begin

text \<open>
  The unit tests of \<open>tests_bats_loader.py\<close>, run on the model. A test of \<open>MyList\<close> is a Boolean; a test of
  a builder is a call together with the bytes the test expects, and what it asserts of the builder
  depends on the library. The expected bytes are also the repository's only concrete messages of each
  type, so they are used to check two tables of field offsets against each other: the one in
  \<open>eval_sim.py\<close> and the one from which \<open>gen_message_vi.py\<close> generates its VIs.
\<close>

section \<open>Tests of MyList\<close>

definition test_empty_list :: bool where
  "test_empty_list = (let my_list = mylist_init in to_str my_list False = ''[]'')"

definition test_to_str_empty :: bool where
  "test_to_str_empty = (let my_list = mylist_init in to_str my_list False = ''[]'')"

definition test_to_str_1_element :: bool where
  "test_to_str_1_element = (let my_list = ml_append mylist_init 100 in to_str my_list False = ''[0x64]'')"

definition test_to_str_leading_zeroes :: bool where
  "test_to_str_leading_zeroes =
     (let my_list = from_array mylist_init [0x1, 0x2, 0x3, 0x4, 0x5, 0x6, 0x7, 0x8, 0x9]
      in to_str my_list False = ''[0x01 0x02 0x03 0x04 0x05 0x06 0x07 0x08 0x09]'')"

definition test_append_and_prepend :: bool where
  "test_append_and_prepend =
     (let my_list = prepend_list (append_list (ml_append mylist_init 5) [6, 7, 8, 9]) [1, 2, 3, 4]
      in to_str my_list True = ''[01 02 03 04 05 06 07 08 09]'')"

definition test_get_num_words_len_0 :: bool where
  "test_get_num_words_len_0 =
     (let my_list = append_list mylist_init [] in get_num_words my_list = 0 \<and> is_aligned my_list)"

definition test_get_num_words_len_1 :: bool where
  "test_get_num_words_len_1 =
     (let my_list = append_list mylist_init [0x1]
      in get_num_words my_list = 1 \<and> \<not> is_aligned my_list \<and>
         get_word my_list 0 = Inr 0x0100000000000000 \<and> get_byte_enables my_list 0 = 0b10000000)"

definition test_get_num_words_len_7 :: bool where
  "test_get_num_words_len_7 =
     (let my_list = append_list mylist_init [0x1, 0x2, 0x3, 0x4, 0x5, 0x6, 0x7]
      in get_num_words my_list = 1 \<and> \<not> is_aligned my_list \<and>
         get_word my_list 0 = Inr 0x0102030405060700 \<and> get_byte_enables my_list 0 = 0b11111110)"

definition test_get_num_words_len_8 :: bool where
  "test_get_num_words_len_8 =
     (let my_list = append_list mylist_init [0x1, 0x2, 0x3, 0x4, 0x5, 0x6, 0x7, 0x8]
      in get_num_words my_list = 1 \<and> is_aligned my_list \<and>
         get_word my_list 0 = Inr 0x0102030405060708 \<and> get_byte_enables my_list 0 = 0b11111111)"

definition test_get_num_words_len_16 :: bool where
  "test_get_num_words_len_16 =
     (let my_list = append_list mylist_init
            [0x1, 0x2, 0x3, 0x4, 0x5, 0x6, 0x7, 0x8, 0x9, 0xa, 0xb, 0xc, 0xd, 0xe, 0xf, 0x10]
      in get_num_words my_list = 2 \<and> is_aligned my_list \<and>
         get_word my_list 0 = Inr 0x0102030405060708 \<and> get_byte_enables my_list 0 = 0b11111111 \<and>
         get_word my_list 1 = Inr 0x090a0b0c0d0e0f10 \<and> get_byte_enables my_list 0 = 0b11111111)"

definition test_get_num_words_len_32 :: bool where
  "test_get_num_words_len_32 =
     (let my_list = append_list mylist_init
            [0x1, 0x2, 0x3, 0x4, 0x5, 0x6, 0x7, 0x8, 0x9, 0xa, 0xb, 0xc, 0xd, 0xe, 0xf, 0x10,
             0x11, 0x12, 0x13, 0x14, 0x15, 0x16, 0x17, 0x18, 0x19, 0x1a, 0x1b, 0x1c, 0x1d, 0x1e, 0x1f, 0x20]
      in get_num_words my_list = 4 \<and> is_aligned my_list \<and>
         get_word my_list 0 = Inr 0x0102030405060708 \<and> get_byte_enables my_list 0 = 0b11111111 \<and>
         get_word my_list 3 = Inr 0x191a1b1c1d1e1f20 \<and> get_byte_enables my_list 3 = 0b11111111)"

definition test_get_num_words_len_27 :: bool where
  "test_get_num_words_len_27 =
     (let my_list = append_list mylist_init
            [0x1, 0x2, 0x3, 0x4, 0x5, 0x6, 0x7, 0x8, 0x9, 0xa, 0xb, 0xc, 0xd, 0xe, 0xf, 0x10,
             0x11, 0x12, 0x13, 0x14, 0x15, 0x16, 0x17, 0x18, 0x19, 0x1a, 0x1b]
      in get_num_words my_list = 4 \<and> \<not> is_aligned my_list \<and>
         get_word my_list 0 = Inr 0x0102030405060708 \<and> get_byte_enables my_list 0 = 0b11111111 \<and>
         get_word my_list 3 = Inr 0x191a1b0000000000)"

lemma tests_to_str:
  "test_empty_list" "test_to_str_empty" "test_to_str_1_element" "test_to_str_leading_zeroes" "test_append_and_prepend"
  by code_simp+

text \<open>The words at the indices the tests read.\<close>

lemmas words_read = get_word_chunk [where i = 0, simplified] get_word_chunk [where i = 1, simplified]
  get_word_chunk [where i = 3, simplified] enables_chunk [where i = 0, simplified]
  enables_chunk [where i = 3, simplified] word_chunk_def from_be_def is_byte_def

lemmas words_counted = get_num_words_def is_aligned_def append_list_def mylist_init_def Let_def
  mask_eq_exp_minus_1 push_bit_eq_mult

lemma tests_short: "test_get_num_words_len_0" "test_get_num_words_len_1" "test_get_num_words_len_7" "test_get_num_words_len_8"
  by (simp_all add: test_get_num_words_len_0_def test_get_num_words_len_1_def test_get_num_words_len_7_def
      test_get_num_words_len_8_def words_read words_counted zeros_read)

lemma tests_long: "test_get_num_words_len_16" "test_get_num_words_len_32" "test_get_num_words_len_27"
  by (simp_all add: test_get_num_words_len_16_def test_get_num_words_len_32_def test_get_num_words_len_27_def
      words_read words_counted zeros_read)

text \<open>All the tests of \<open>MyList\<close> pass.\<close>
theorem mylist_tests_pass:
  "test_empty_list \<and> test_to_str_empty \<and> test_to_str_1_element \<and> test_to_str_leading_zeroes \<and>
   test_append_and_prepend \<and> test_get_num_words_len_0 \<and> test_get_num_words_len_1 \<and>
   test_get_num_words_len_7 \<and> test_get_num_words_len_8 \<and> test_get_num_words_len_16 \<and>
   test_get_num_words_len_32 \<and> test_get_num_words_len_27"
  by (intro conjI tests_to_str tests_short tests_long)

section \<open>Tests of the builders\<close>

text \<open>A test: the call, the length and the bytes the list must then have, the class that the message factory
  of \<open>cboe_pitch\<close> must make of the bytes, and what its accessors must return. The factory is a parameter
  like the encoder: the bytes to the class's name and its accessors by name.\<close>

record builder_test =
  bt_call :: bats_call
  bt_length :: nat
  bt_bytes :: "int list"
  bt_class :: string
  bt_fields :: "(string \<times> json_value) list"

type_synonym message_factory = "int list \<Rightarrow> (string \<times> (string \<Rightarrow> json_value option)) py_result"

definition reads_back :: "message_factory \<Rightarrow> int list \<Rightarrow> string \<Rightarrow> (string \<times> json_value) list \<Rightarrow> bool" where
  "reads_back from_bytes bs cls expected =
     (case from_bytes bs of
        Inl e \<Rightarrow> False
      | Inr (c, get) \<Rightarrow> c = cls \<and> list_all (\<lambda>(k, v). get k = Some v) expected)"

definition run_test :: "pitch_library \<Rightarrow> message_factory \<Rightarrow> builder_test \<Rightarrow> bool" where
  "run_test cboe from_bytes t =
     (let my_list = fst (run_call cboe (bt_call t) mylist_init (PyBool False))
      in get_length my_list = bt_length t \<and> to_array my_list = bt_bytes t \<and>
         (case to_bytearray my_list of
            Inl e \<Rightarrow> False
          | Inr bs \<Rightarrow> reads_back from_bytes bs (bt_class t) (bt_fields t)))"

definition test_get_add_order_long_create :: builder_test where
  "test_get_add_order_long_create = \<lparr>
     bt_call = AddOrderLong 44000 ''ORID0001'' ''B'' 95000 ''AAPL'' (PyFloat ''0.905''),
     bt_length = 34,
     bt_bytes = [0x22, 0x21, 0xe0, 0xab, 0x00, 0x00, 0x4f, 0x52, 0x49, 0x44, 0x30, 0x30, 0x30, 0x31, 0x42, 0x18,
       0x73, 0x01, 0x00, 0x41, 0x41, 0x50, 0x4c, 0x20, 0x20, 0x5a, 0x23, 0x00, 0x00, 0x00, 0x00, 0x00,
       0x00, 0x01],
     bt_class = ''AddOrderLong'',
     bt_fields = [(''time_offset'', JInt 44000), (''order_id'', JStr ''ORID0001''), (''side'', JStr ''B''),
       (''quantity'', JInt 95000), (''symbol'', JStr ''AAPL''), (''price'', JFloat (PyFloat ''0.905''))]\<rparr>"

definition test_get_add_order_short_create :: builder_test where
  "test_get_add_order_short_create = \<lparr>
     bt_call = AddOrderShort 44000 ''ORID0001'' ''B'' 20000 ''AAPL'' (PyFloat ''1.95''),
     bt_length = 26,
     bt_bytes = [0x1a, 0x22, 0xe0, 0xab, 0x00, 0x00, 0x4f, 0x52, 0x49, 0x44, 0x30, 0x30, 0x30, 0x31, 0x42, 0x20,
       0x4e, 0x41, 0x41, 0x50, 0x4c, 0x20, 0x20, 0xc3, 0x00, 0x01],
     bt_class = ''AddOrderShort'',
     bt_fields = [(''time_offset'', JInt 44000), (''order_id'', JStr ''ORID0001''), (''side'', JStr ''B''),
       (''quantity'', JInt 20000), (''symbol'', JStr ''AAPL''), (''price'', JFloat (PyFloat ''1.95''))]\<rparr>"

definition test_get_add_order_expanded_create :: builder_test where
  "test_get_add_order_expanded_create = \<lparr>
     bt_call = AddOrderExpanded 44000 ''ORID0001'' ''B'' 95000 ''AAPL'' (PyFloat ''0.905'') ''C'' ''MPID'',
     bt_length = 41,
     bt_bytes = [0x29, 0x2f, 0xe0, 0xab, 0x00, 0x00, 0x4f, 0x52, 0x49, 0x44, 0x30, 0x30, 0x30, 0x31, 0x42, 0x18,
       0x73, 0x01, 0x00, 0x41, 0x41, 0x50, 0x4c, 0x20, 0x20, 0x20, 0x20, 0x5a, 0x23, 0x00, 0x00, 0x00,
       0x00, 0x00, 0x00, 0x01, 0x4d, 0x50, 0x49, 0x44, 0x43],
     bt_class = ''AddOrderExpanded'',
     bt_fields = [(''time_offset'', JInt 44000), (''order_id'', JStr ''ORID0001''), (''side'', JStr ''B''),
       (''quantity'', JInt 95000), (''symbol'', JStr ''AAPL''), (''price'', JFloat (PyFloat ''0.905''))]\<rparr>"

definition test_order_executed_create :: builder_test where
  "test_order_executed_create = \<lparr>
     bt_call = OrderExecuted 44000 ''ORID0001'' 95000 ''EXEI0001'',
     bt_length = 26,
     bt_bytes = [0x1a, 0x23, 0xe0, 0xab, 0x00, 0x00, 0x4f, 0x52, 0x49, 0x44, 0x30, 0x30, 0x30, 0x31, 0x18, 0x73,
       0x01, 0x00, 0x45, 0x58, 0x45, 0x49, 0x30, 0x30, 0x30, 0x31],
     bt_class = ''OrderExecuted'',
     bt_fields = [(''time_offset'', JInt 44000), (''order_id'', JStr ''ORID0001''), (''executed_quantity'', JInt 95000),
       (''execution_id'', JStr ''EXEI0001'')]\<rparr>"

definition test_order_executed_at_price_size_create :: builder_test where
  "test_order_executed_at_price_size_create = \<lparr>
     bt_call = OrderExecutedAtPriceSize 44000 ''ORID0001'' 50 150 ''EXEI0001'' (PyFloat ''95.09''),
     bt_length = 38,
     bt_bytes = [0x26, 0x24, 0xe0, 0xab, 0x00, 0x00, 0x4f, 0x52, 0x49, 0x44, 0x30, 0x30, 0x30, 0x31, 0x32, 0x00,
       0x00, 0x00, 0x96, 0x00, 0x00, 0x00, 0x45, 0x58, 0x45, 0x49, 0x30, 0x30, 0x30, 0x31, 0x74, 0x82,
       0x0e, 0x00, 0x00, 0x00, 0x00, 0x00],
     bt_class = ''OrderExecutedAtPriceSize'',
     bt_fields = [(''time_offset'', JInt 44000), (''order_id'', JStr ''ORID0001''), (''executed_quantity'', JInt 50),
       (''execution_id'', JStr ''EXEI0001'')]\<rparr>"

definition test_reduce_size_long_create :: builder_test where
  "test_reduce_size_long_create = \<lparr>
     bt_call = ReduceSizeLong 44000 ''ORID0012'' 50,
     bt_length = 18,
     bt_bytes = [0x12, 0x25, 0xe0, 0xab, 0x00, 0x00, 0x4f, 0x52, 0x49, 0x44, 0x30, 0x30, 0x31, 0x32, 0x32, 0x00,
       0x00, 0x00],
     bt_class = ''ReduceSizeLong'',
     bt_fields = [(''time_offset'', JInt 44000), (''order_id'', JStr ''ORID0012''), (''canceled_quantity'', JInt 50)]\<rparr>"

definition test_reduce_size_short_create :: builder_test where
  "test_reduce_size_short_create = \<lparr>
     bt_call = ReduceSizeShort 44000 ''ORID0011'' 150,
     bt_length = 16,
     bt_bytes = [0x10, 0x26, 0xe0, 0xab, 0x00, 0x00, 0x4f, 0x52, 0x49, 0x44, 0x30, 0x30, 0x31, 0x31, 0x96, 0x00],
     bt_class = ''ReduceSizeShort'',
     bt_fields = [(''time_offset'', JInt 44000), (''order_id'', JStr ''ORID0011''), (''canceled_quantity'', JInt 150)]\<rparr>"

definition test_modify_order_long_create :: builder_test where
  "test_modify_order_long_create = \<lparr>
     bt_call = ModifyOrderLong 44000 ''ORID0001'' 150 (PyFloat ''150.25''),
     bt_length = 27,
     bt_bytes = [0x1b, 0x27, 0xe0, 0xab, 0x00, 0x00, 0x4f, 0x52, 0x49, 0x44, 0x30, 0x30, 0x30, 0x31, 0x96, 0x00,
       0x00, 0x00, 0x24, 0xed, 0x16, 0x00, 0x00, 0x00, 0x00, 0x00, 0x01],
     bt_class = ''ModifyOrderLong'',
     bt_fields = [(''time_offset'', JInt 44000), (''order_id'', JStr ''ORID0001''), (''quantity'', JInt 150),
       (''price'', JFloat (PyFloat ''150.25''))]\<rparr>"

definition test_modify_order_short_create :: builder_test where
  "test_modify_order_short_create = \<lparr>
     bt_call = ModifyOrderShort 44000 ''ORID0001'' 150 (PyFloat ''150.25''),
     bt_length = 19,
     bt_bytes = [0x13, 0x28, 0xe0, 0xab, 0x00, 0x00, 0x4f, 0x52, 0x49, 0x44, 0x30, 0x30, 0x30, 0x31, 0x96, 0x00,
       0xb1, 0x3a, 0x01],
     bt_class = ''ModifyOrderShort'',
     bt_fields = [(''time_offset'', JInt 44000), (''order_id'', JStr ''ORID0001''), (''quantity'', JInt 150),
       (''price'', JFloat (PyFloat ''150.25''))]\<rparr>"

definition test_delete_order_create :: builder_test where
  "test_delete_order_create = \<lparr>
     bt_call = DeleteOrder 44000 ''ORID0001'',
     bt_length = 14,
     bt_bytes = [0x0e, 0x29, 0xe0, 0xab, 0x00, 0x00, 0x4f, 0x52, 0x49, 0x44, 0x30, 0x30, 0x30, 0x31],
     bt_class = ''DeleteOrder'',
     bt_fields = [(''time_offset'', JInt 44000), (''order_id'', JStr ''ORID0001'')]\<rparr>"

definition test_trade_long_create :: builder_test where
  "test_trade_long_create = \<lparr>
     bt_call = TradeLong 44000 ''ORID0001'' ''B'' 150 ''AAPL'' (PyFloat ''0.905'') ''EXEI0001'',
     bt_length = 41,
     bt_bytes = [0x29, 0x2a, 0xe0, 0xab, 0x00, 0x00, 0x4f, 0x52, 0x49, 0x44, 0x30, 0x30, 0x30, 0x31, 0x42, 0x96,
       0x00, 0x00, 0x00, 0x41, 0x41, 0x50, 0x4c, 0x20, 0x20, 0x5a, 0x23, 0x00, 0x00, 0x00, 0x00, 0x00,
       0x00, 0x45, 0x58, 0x45, 0x49, 0x30, 0x30, 0x30, 0x31],
     bt_class = ''TradeLong'',
     bt_fields = [(''time_offset'', JInt 44000), (''order_id'', JStr ''ORID0001''), (''side'', JStr ''B''),
       (''quantity'', JInt 150), (''symbol'', JStr ''AAPL''), (''price'', JFloat (PyFloat ''0.905'')),
       (''execution_id'', JStr ''EXEI0001'')]\<rparr>"

definition test_trade_short_create :: builder_test where
  "test_trade_short_create = \<lparr>
     bt_call = TradeShort 44000 ''ORID0001'' ''B'' 150 ''AAPL'' (PyFloat ''0.9'') ''EXEI0001'',
     bt_length = 33,
     bt_bytes = [0x21, 0x2b, 0xe0, 0xab, 0x00, 0x00, 0x4f, 0x52, 0x49, 0x44, 0x30, 0x30, 0x30, 0x31, 0x42, 0x96,
       0x00, 0x41, 0x41, 0x50, 0x4c, 0x20, 0x20, 0x5a, 0x00, 0x45, 0x58, 0x45, 0x49, 0x30, 0x30, 0x30,
       0x31],
     bt_class = ''TradeShort'',
     bt_fields = [(''time_offset'', JInt 44000), (''order_id'', JStr ''ORID0001''), (''side'', JStr ''B''),
       (''quantity'', JInt 150), (''symbol'', JStr ''AAPL''), (''price'', JFloat (PyFloat ''0.9'')),
       (''execution_id'', JStr ''EXEI0001'')]\<rparr>"

definition test_trade_expanded_create :: builder_test where
  "test_trade_expanded_create = \<lparr>
     bt_call = TradeExpanded 44000 ''ORID0001'' ''B'' 150 ''AAPL'' (PyFloat ''0.905'') ''EXEI0001'',
     bt_length = 43,
     bt_bytes = [0x2b, 0x30, 0xe0, 0xab, 0x00, 0x00, 0x4f, 0x52, 0x49, 0x44, 0x30, 0x30, 0x30, 0x31, 0x42, 0x96,
       0x00, 0x00, 0x00, 0x41, 0x41, 0x50, 0x4c, 0x20, 0x20, 0x20, 0x20, 0x5a, 0x23, 0x00, 0x00, 0x00,
       0x00, 0x00, 0x00, 0x45, 0x58, 0x45, 0x49, 0x30, 0x30, 0x30, 0x31],
     bt_class = ''TradeExpanded'',
     bt_fields = [(''time_offset'', JInt 44000), (''order_id'', JStr ''ORID0001''), (''side'', JStr ''B''),
       (''quantity'', JInt 150), (''symbol'', JStr ''AAPL''), (''price'', JFloat (PyFloat ''0.905'')),
       (''execution_id'', JStr ''EXEI0001'')]\<rparr>"

definition builder_tests :: "builder_test list" where
  "builder_tests = [test_get_add_order_long_create, test_get_add_order_short_create,
     test_get_add_order_expanded_create, test_order_executed_create, test_order_executed_at_price_size_create,
     test_reduce_size_long_create, test_reduce_size_short_create, test_modify_order_long_create,
     test_modify_order_short_create, test_delete_order_create, test_trade_long_create, test_trade_short_create,
     test_trade_expanded_create]"

text \<open>The time message is compared as text.\<close>

definition test_get_time :: "pitch_library \<Rightarrow> message_factory \<Rightarrow> bool" where
  "test_get_time cboe from_bytes =
     (let my_list = fst (get_time cboe 34200 mylist_init (PyBool False))
      in get_length my_list = 6 \<and> to_str my_list True = ''[06 20 98 85 00 00]'' \<and>
         (case to_bytearray my_list of
            Inl e \<Rightarrow> False
          | Inr bs \<Rightarrow> reads_back from_bytes bs ''Time'' [(''time'', JInt 34200)]))"

definition test_get_seq_unit_hdr_1_Time :: "pitch_library \<Rightarrow> (string \<Rightarrow> int list \<Rightarrow> int list py_result) \<Rightarrow> bool" where
  "test_get_seq_unit_hdr_1_Time cboe cboe_hdr =
     (let out_list = fst (get_time cboe 34200 mylist_init (PyBool False));
          (out_list, seq_unit_hdr) = get_seq_unit_hdr cboe_hdr 1 1 out_list
      in seq_unit_hdr = 0 \<and> length (to_array out_list) = 14 \<and>
         to_str out_list False =
           ''[0x0E 0x00 0x02 0x01 0x01 0x00 0x00 0x00 0x06 0x20 0x98 0x85 0x00 0x00]'' \<and>
         to_array out_list = [0xE, 0, 0x2, 0x1, 0x1, 0x0, 0x0, 0x0, 0x6, 0x20, 152, 133, 0, 0])"

definition test_get_seq_unit_hdr_Time_AddOrder :: "pitch_library \<Rightarrow> (string \<Rightarrow> int list \<Rightarrow> int list py_result) \<Rightarrow> bool" where
  "test_get_seq_unit_hdr_Time_AddOrder cboe cboe_hdr =
     (let out_list = fst (get_time cboe 34199 mylist_init (PyBool False));
          (out_list, seq_unit_hdr) = get_seq_unit_hdr cboe_hdr 1 1 out_list
      in seq_unit_hdr = 0 \<and> length (to_array out_list) = 14 \<and>
         to_str out_list False =
           ''[0x0E 0x00 0x02 0x01 0x01 0x00 0x00 0x00 0x06 0x20 0x97 0x85 0x00 0x00]'' \<and>
         get_word out_list 0 = Inr 0x0e00020101000000 \<and>
         get_word out_list 1 = Inr 0x0620978500000000)"

section \<open>The tested messages\<close>

lemmas test_defs = test_get_add_order_long_create_def test_get_add_order_short_create_def
  test_get_add_order_expanded_create_def test_order_executed_create_def
  test_order_executed_at_price_size_create_def test_reduce_size_long_create_def
  test_reduce_size_short_create_def test_modify_order_long_create_def test_modify_order_short_create_def
  test_delete_order_create_def test_trade_long_create_def test_trade_short_create_def
  test_trade_expanded_create_def

lemma tested_wf: "list_all (\<lambda>t. wf_msg (bt_bytes t)) builder_tests"
  by (simp add: builder_tests_def test_defs wf_msg_def is_byte_def)

lemma tested_long: "list_all (\<lambda>t. 8 \<le> length (bt_bytes t)) builder_tests"
  by (simp add: builder_tests_def test_defs)

lemma tested_outcome:
  assumes "run_test cboe from_bytes t" and "wf_msg (bt_bytes t)"
  shows "outcome cboe (bt_call t) = Some (bt_bytes t)"
  using assms run_call_outcome [of cboe "bt_call t" mylist_init "PyBool False"]
  by (auto simp: run_test_def Let_def to_array_def is_True_def append_list_def mylist_init_def wf_msg_def
      split: option.splits)

lemma unit_of_tests:
  "list_all (\<lambda>t. outcome cboe (bt_call t) = Some (bt_bytes t)) ts \<Longrightarrow>
   unit_messages cboe (map bt_call ts) = map bt_bytes ts"
  by (induction ts) (simp_all add: unit_messages_def map_filter_simps)

section \<open>Properties\<close>

text \<open>C10. What the tests of the builders are worth to the parser: if the thirteen tests of order messages
  pass, any non-empty sequence of the tested requests, put into one list and wrapped with a sequence
  unit header, is parsed by the parser model into exactly the messages whose bytes the tests expect, in
  that order, and the parser is idle again.\<close>
theorem tested_messages_parse:
  assumes "list_all (run_test cboe from_bytes) builder_tests" and "documented_header cboe_hdr"
    and "set ts \<subseteq> set builder_tests" and "ts \<noteq> []" and "idle p"
    and "get_seq_unit_hdr cboe_hdr hdr_seq hdr_count (fst (run_calls cboe (map bt_call ts) mylist_init)) = (u, 0)"
  shows "idle (replay_payload p f (ml_data u)) \<and>
    seen (pout (replay_payload p f (ml_data u))) = seen (pout p) @ map (\<lambda>t. entry_of f (bt_bytes t)) ts"
proof -
  have wf: "list_all (\<lambda>t. wf_msg (bt_bytes t)) ts"
    using tested_wf assms(3) by (auto simp: list_all_iff)
  then have "list_all (\<lambda>t. outcome cboe (bt_call t) = Some (bt_bytes t)) ts"
    using assms(1,3) tested_outcome by (fastforce simp: list_all_iff)
  then have "unit_messages cboe (map bt_call ts) = map bt_bytes ts" by (rule unit_of_tests)
  moreover have "list_all wf_msg (map bt_bytes ts)" using wf by (simp add: list_all_iff)
  moreover have "paced (map bt_bytes ts) []"
    using tested_long assms(3,4) by (intro paced_long) (auto simp: list_all_iff)
  ultimately show ?thesis
    using unit_replayed [OF assms(2) _ _ _ assms(5,6), of f] assms(4) by (simp add: comp_def)
qed

text \<open>A library for the tests: it answers by the function's name alone.\<close>

definition tested_cboe :: pitch_library where
  "tested_cboe name json =
     (case map_of
        [(''get_add_order_long'', test_get_add_order_long_create), (''get_add_order_short'', test_get_add_order_short_create),
         (''get_add_order_expanded'', test_get_add_order_expanded_create), (''get_order_executed'', test_order_executed_create),
         (''get_order_executed_at_price_size'', test_order_executed_at_price_size_create),
         (''get_reduce_size_long'', test_reduce_size_long_create), (''get_reduce_size_short'', test_reduce_size_short_create),
         (''get_modify_order_long'', test_modify_order_long_create), (''get_modify_order_short'', test_modify_order_short_create),
         (''get_delete_order'', test_delete_order_create), (''get_trade_long'', test_trade_long_create),
         (''get_trade_short'', test_trade_short_create), (''get_trade_expanded'', test_trade_expanded_create)] name of
        None \<Rightarrow> Inl ValueError
      | Some t \<Rightarrow> Inr (bt_bytes t))"

definition tested_factory :: message_factory where
  "tested_factory bs =
     (case find (\<lambda>t. bt_bytes t = bs) builder_tests of
        None \<Rightarrow> Inl ValueError
      | Some t \<Rightarrow> Inr (bt_class t, map_of (bt_fields t)))"

lemma tested_library: "list_all (run_test tested_cboe tested_factory) builder_tests"
  by (simp add: builder_tests_def run_test_def tested_cboe_def tested_factory_def test_defs builder_defs build_def
      is_True_def append_list_def mylist_init_def get_length_def to_array_def to_bytearray_def reads_back_def is_byte_def)

lemma demo_unit: "length (ml_data m) < 1000 \<Longrightarrow> \<exists>u. get_seq_unit_hdr demo_hdr hdr_seq hdr_count m = (u, 0)"
  by (simp add: get_seq_unit_hdr_def demo_hdr_def)

theorem tested_messages_parse_witness:
  "seen (pout (replay_payload parser_init 7
     (ml_data (fst (get_seq_unit_hdr demo_hdr 1 2 (fst (run_calls tested_cboe
       (map bt_call [test_delete_order_create, test_trade_short_create]) mylist_init))))))) =
   [(7, 14, 0x29, [0x0e, 0x29, 0xe0, 0xab, 0x00, 0x00, 0x4f, 0x52]),
    (7, 33, 0x2b, [0x21, 0x2b, 0xe0, 0xab, 0x00, 0x00, 0x4f, 0x52])]"
proof -
  let ?ts = "[test_delete_order_create, test_trade_short_create]"
  have sub: "set ?ts \<subseteq> set builder_tests" "?ts \<noteq> []" by (simp_all add: builder_tests_def)
  have "list_all (\<lambda>t. outcome tested_cboe (bt_call t) = Some (bt_bytes t)) ?ts"
    using tested_library tested_wf tested_outcome sub(1) by (fastforce simp: list_all_iff)
  then have msgs: "unit_messages tested_cboe (map bt_call ?ts) = map bt_bytes ?ts" by (rule unit_of_tests)
  have "length (ml_data (fst (run_calls tested_cboe (map bt_call ?ts) mylist_init))) < 1000"
    unfolding run_calls_messages msgs
    by (simp add: mylist_init_def test_delete_order_create_def test_trade_short_create_def)
  then obtain u where u: "get_seq_unit_hdr demo_hdr 1 2 (fst (run_calls tested_cboe (map bt_call ?ts) mylist_init)) = (u, 0)"
    using demo_unit by blast
  from tested_messages_parse [OF tested_library demo_hdr_documented sub idle_init u, of 7]
  show ?thesis unfolding u
    by (simp add: parser_init_def seen_def entry_of_def test_delete_order_create_def test_trade_short_create_def eval_nat_numeral)
qed

section \<open>Two tables of field offsets\<close>

text \<open>The reads outside the case structure of every generated VI: the time offset and the order id.\<close>

definition vi_base_reads :: "vi_field list" where
  "vi_base_reads = [vi_read ''nanoseconds'' 2 4 ''uint64'', vi_read ''orderId '' 6 8 ''uint64'']"

text \<open>The number that the nodes of a read compute from the message: the field's bytes, little-endian; for a
  symbol of six characters the low six of eight bytes, or-ed with two spaces.\<close>

definition vi_field_value :: "int list \<Rightarrow> vi_field \<Rightarrow> int option" where
  "vi_field_value m f =
     (case f of
        (field, Some start, Some len, target) \<Rightarrow>
          Some (if target = ''sym6'' then (from_le (py_slice start (start + 8) m) AND 281474976710655) OR 2314850208468434944
                else from_le (py_slice start (start + len) m))
      | _ \<Rightarrow> None)"

definition vi_reads :: "(string \<times> vi_spec) list \<Rightarrow> int \<Rightarrow> vi_field list" where
  "vi_reads specs t =
     concat (map (\<lambda>(name, sp).
       concat (map (\<lambda>fr. if fr_sel fr = to_dec (nat t) then vi_base_reads @ filter (\<lambda>(f, s, n, g). s \<noteq> None) (fr_fields fr) else [])
         (sp_frames sp))) specs)"

text \<open>The number that a value takes as a field of a given length: a text is left justified and padded with
  spaces, a price has four implied decimals, two in the short form.\<close>

definition implied_decimals :: "nat \<Rightarrow> string \<Rightarrow> int py_result" where
  "implied_decimals k s =
     (case split_on (CHR ''.'') [] s of
        [whole, part] \<Rightarrow>
          Inr (foldl (\<lambda>n c. 10 * n + (of_char c - 48)) 0 (whole @ take k (part @ replicate k (CHR ''0''))))
      | _ \<Rightarrow> Inl ValueError)"

definition text_number :: "nat \<Rightarrow> string \<Rightarrow> int" where
  "text_number k s = from_le (map of_char (pad_right k s))"

fun field_number :: "string \<Rightarrow> nat \<Rightarrow> json_value \<Rightarrow> int py_result" where
  "field_number target n (JInt i) = Inr i"
| "field_number target n (JStr s) = Inr (text_number (if target = ''sym6'' then 8 else n) s)"
| "field_number target n (JFloat x) = implied_decimals (if n = 2 then 2 else 4) (float_repr x)"

definition accessor :: "string \<Rightarrow> string option" where
  "accessor field = map_of [(''nanoseconds'', ''time_offset''), (''orderId '', ''order_id''), (''side'', ''side''),
     (''quantity'', ''quantity''), (''symbol'', ''symbol''), (''price'', ''price''),
     (''executed.qty'', ''executed_quantity'')] field"

text \<open>A read agrees with a test when it yields what the test says the library reads; a field that the test
  does not read back is not compared.\<close>

definition vi_read_agrees :: "builder_test \<Rightarrow> vi_field \<Rightarrow> bool" where
  "vi_read_agrees t f =
     (case f of (field, start, len, target) \<Rightarrow>
        (case Option.bind (accessor field) (map_of (bt_fields t)) of
           None \<Rightarrow> True
         | Some v \<Rightarrow>
             (case (vi_field_value (bt_bytes t) f, field_number target (the len) v) of
                (Some x, Inr y) \<Rightarrow> x = y
              | _ \<Rightarrow> False)))"

definition vi_agrees :: "builder_test \<Rightarrow> bool" where
  "vi_agrees t = list_all (vi_read_agrees t) (vi_reads SPECS (bt_bytes t ! 1))"

definition vi_compared :: "builder_test \<Rightarrow> string list" where
  "vi_compared t =
     map fst (filter (\<lambda>f. Option.bind (accessor (fst f)) (map_of (bt_fields t)) \<noteq> None) (vi_reads SPECS (bt_bytes t ! 1)))"

text \<open>What \<open>expect\<close> should make of a tested message: the order id of the messages that add or execute an
  order, and quantity and symbol of those that add one.\<close>

definition text_of :: "nat \<Rightarrow> json_value option \<Rightarrow> string option" where
  "text_of k v = (case v of Some (JStr s) \<Rightarrow> Some (pad_right k s) | _ \<Rightarrow> None)"

definition number_of :: "json_value option \<Rightarrow> int option" where
  "number_of v = (case v of Some (JInt n) \<Rightarrow> Some n | _ \<Rightarrow> None)"

definition sim_agrees :: "builder_test \<Rightarrow> bool" where
  "sim_agrees t =
     (let adds = (bt_class t \<in> {''AddOrderLong'', ''AddOrderShort'', ''AddOrderExpanded''});
          executes = (bt_class t \<in> {''OrderExecuted'', ''OrderExecutedAtPriceSize''})
      in expect (bt_bytes t) =
         Inr \<lparr>ex_type = (if adds then 1 else if executes then 2 else 0), ex_pitch = bt_bytes t ! 1,
              ex_orderId = (if adds \<or> executes then text_of 8 (map_of (bt_fields t) ''order_id'') else None),
              ex_qty = (if adds then number_of (map_of (bt_fields t) ''quantity'') else None),
              ex_symbol = (if adds then text_of (if bt_class t = ''AddOrderExpanded'' then 8 else 6)
                                          (map_of (bt_fields t) ''symbol'') else None)\<rparr>)"

lemma sim_tables: "list_all sim_agrees builder_tests"
  by code_simp

lemma from_le_append: "from_le (xs @ ys) = from_le xs + 256 ^ length xs * from_le ys"
  by (induction xs) (simp_all add: algebra_simps)

lemma low_or_high: "0 \<le> a \<Longrightarrow> a < 2 ^ k \<Longrightarrow> a OR push_bit k b = a + push_bit k (b::int)"
proof -
  assume "0 \<le> a" "a < 2 ^ k"
  then have a: "take_bit k a = a" by (simp add: take_bit_int_eq_self)
  then have "\<not> bit a i \<or> \<not> bit (push_bit k b) i" for i
    by (metis bit_push_bit_iff bit_take_bit_iff leD)
  then show ?thesis by (simp add: disjunctive_add)
qed

lemma sym6_value:
  assumes "is_bytes bs" and "length bs = 8"
  shows "(from_le bs AND 281474976710655) OR 2314850208468434944 = from_le (take 6 bs @ [0x20, 0x20])"
proof -
  let ?a = "from_le (take 6 bs)"
  have a: "0 \<le> ?a" "?a < 2 ^ 48"
    using from_le_range [of "take 6 bs"] assms by simp_all
  have split: "from_le bs = ?a + 2 ^ 48 * from_le (drop 6 bs)"
    using from_le_append [of "take 6 bs" "drop 6 bs"] assms(2) by simp
  have m: "(281474976710655::int) = mask 48" by (simp add: mask_eq_exp_minus_1)
  have "from_le bs AND 281474976710655 = ?a"
    using a unfolding split m take_bit_eq_mask [symmetric] by (simp add: take_bit_eq_mod)
  moreover have "(2314850208468434944::int) = push_bit 48 0x2020" by (simp add: push_bit_eq_mult)
  ultimately have "(from_le bs AND 281474976710655) OR 2314850208468434944 = ?a OR push_bit 48 0x2020" by (simp only:)
  also have "\<dots> = ?a + push_bit 48 0x2020" by (rule low_or_high [OF a])
  finally show ?thesis using assms(2) by (simp add: from_le_append push_bit_eq_mult)
qed

lemma vi_field_value_code [code]:
  "vi_field_value m f =
     (case f of
        (field, Some start, Some len, target) \<Rightarrow>
          (if target = ''sym6'' then
             (let bs = py_slice start (start + 8) m
              in if is_bytes bs \<and> length bs = 8 then Some (from_le (take 6 bs @ [0x20, 0x20]))
                 else Some ((from_le bs AND 281474976710655) OR 2314850208468434944))
           else Some (from_le (py_slice start (start + len) m)))
      | _ \<Rightarrow> None)"
  by (simp add: vi_field_value_def sym6_value Let_def split: prod.splits option.splits)

lemma vi_tables: "list_all vi_agrees builder_tests"
  by code_simp

lemma compared_fields:
  "map (\<lambda>t. (bt_class t, vi_compared t)) builder_tests =
    [(''AddOrderLong'', []), (''AddOrderShort'', []), (''AddOrderExpanded'', []),
     (''OrderExecuted'', [''nanoseconds'', ''orderId '', ''executed.qty'']),
     (''OrderExecutedAtPriceSize'', [''nanoseconds'', ''orderId '', ''executed.qty'']),
     (''ReduceSizeLong'', []), (''ReduceSizeShort'', []),
     (''ModifyOrderLong'', [''nanoseconds'', ''orderId '', ''quantity'', ''price'']),
     (''ModifyOrderShort'', [''nanoseconds'', ''orderId '', ''quantity'', ''price'']),
     (''DeleteOrder'', []),
     (''TradeLong'', [''nanoseconds'', ''orderId '', ''side'', ''quantity'', ''symbol'', ''price'']),
     (''TradeShort'', [''nanoseconds'', ''orderId '', ''side'', ''quantity'', ''symbol'', ''price'']),
     (''TradeExpanded'', [''nanoseconds'', ''orderId '', ''side'', ''quantity'', ''symbol'', ''price''])]"
  by code_simp


text \<open>The constants of a six-character symbol: whatever the two bytes behind it are, the nodes the generator
  writes replace them with spaces and leave the symbol alone, so that short and expanded symbols
  compare equal as eight characters.\<close>
theorem symbol_padded:
  assumes "is_bytes m" and "start + 8 \<le> length m"
  shows "vi_field_value m (vi_read field start 6 ''sym6'') = Some (from_le (py_slice start (start + 6) m @ [0x20, 0x20]))"
proof -
  have "is_bytes (py_slice start (start + 8) m)" "length (py_slice start (start + 8) m) = 8"
    using assms by (simp_all add: py_slice_def)
  from sym6_value [OF this] show ?thesis
    by (simp add: vi_field_value_def vi_read_def py_slice_def)
qed

theorem symbol_padded_witness:
  "vi_field_value [65, 66, 67, 68, 69, 70, 1, 2] (vi_read ''symbol'' 0 6 ''sym6'') = Some (from_le [65, 66, 67, 68, 69, 70, 0x20, 0x20])"
  using symbol_padded [of "[65, 66, 67, 68, 69, 70, 1, 2]" 0 "''symbol''"] by (simp add: is_byte_def py_slice_def)

end
