(* ===== verification/Filter_Text.thy ===== *)
theory Filter_Text
  imports Filter_Bench
begin

text \<open>
  The text output of \<open>filter_msg_gen.py\<close>, \<open>OBCommand.to_str\<close> and \<open>FilterBench.print_header\<close>, the
  bench's plain accessors, and the unit tests of \<open>tests_filter_msg_gen.py\<close> run on the model. A
  configuration file is given by its parsed document. How a price prints with four decimals is
  Python's; it is a parameter, since floats are represented by their \<open>repr\<close>.
\<close>

section \<open>Commands as text\<close>

definition str_or_None :: "string option \<Rightarrow> string" where
  "str_or_None v = (case v of None \<Rightarrow> ''None'' | Some s \<Rightarrow> s)"

definition in_quotes :: "string \<Rightarrow> string" where
  "in_quotes s = [CHR 39] @ s @ [CHR 39]"

definition cmd_to_str :: "(cell \<Rightarrow> string py_result) \<Rightarrow> field_converter \<Rightarrow> ob_command \<Rightarrow> string py_result" where
  "cmd_to_str fixed4 fc c =
     bind_result (fixed4 (cmd_price c)) (\<lambda>price. Inr (
       ''['' @ in_quotes (str_or_None (cmd_type_str c) @ '','') @ in_quotes (cmd_side_str c @ '','')
       @ in_quotes (cmd_orderid_str fc c @ '','') @ cell_str (cmd_quantity c) @ '',''
       @ in_quotes (cmd_symbol_str fc c) @ '','' @ price @ '','' @ cell_str (cmd_executed_qty c) @ '',''
       @ cell_str (cmd_canceled_qty c) @ '','' @ cell_str (cmd_remaining_qty c) @ '',''
       @ cell_str (cmd_seconds c) @ '','' @ cell_str (cmd_nanoseconds c) @ '',''
       @ in_quotes (str_or_None (cmd_op_str c)) @ '','' @ cmd_seq_no_str c @ '','' @ '']''))"

section \<open>The bench as text\<close>

definition bench_name :: "bench \<Rightarrow> string py_result" where
  "bench_name b = attribute (fb_name b)"

definition bench_description :: "bench \<Rightarrow> string py_result" where
  "bench_description b = attribute (fb_description b)"

definition bench_watch_list :: "bench \<Rightarrow> string list py_result" where
  "bench_watch_list b = attribute (fb_watch_list b)"

definition bench_number_of_messages :: "bench \<Rightarrow> int py_result" where
  "bench_number_of_messages b = attribute (fb_number_of_messages b)"

text \<open>\<open>str\<close> of the dictionary of a security.\<close>

definition sec_text :: "sec_gen \<Rightarrow> string" where
  "sec_text g = ''{'' @ join_with '', '' (map (\<lambda>(k, v). py_repr k @ '': '' @ cell_repr v)
     [(''symbol'', sg_symbol g), (''weight'', sg_weight g), (''book_size_range'', sg_book_size_range g),
      (''price_range'', sg_price_range g), (''size_range'', sg_size_range g)]) @ ''}''"

definition rule :: string where
  "rule = ''+'' @ replicate 76 CHR ''-'' @ ''+''"

definition print_header :: "bench \<Rightarrow> string py_result" where
  "print_header b =
     bind_result (bench_watch_list b) (\<lambda>wl.
     bind_result (attribute (fb_securities_gen b)) (\<lambda>secs.
     bind_result (bench_name b) (\<lambda>name.
     bind_result (bench_description b) (\<lambda>descr.
     bind_result (bench_number_of_messages b) (\<lambda>n.
       Inr (join_with [CHR 10]
         [rule, name, ''--'', descr, ''--'', ''Watchlist:'', join_with [CHR 10] (map (\<lambda>x. ''  - '' @ x) wl),
          ''--'', ''Generator Options:'', ''# of messages: '' @ int_repr n, ''--'', ''Generator.Securities:'',
          join_with [CHR 10] (map sec_text secs), rule]))))))"

section \<open>Tests\<close>

definition csv_header :: "cell list" where
  "csv_header = map CStr [''Type'', ''Side'', ''OrderId'', ''Quantity'', ''Symbol'', ''Price'',
     ''Exe Quantity'', ''Can Quantity'', ''Rem Quantity'', ''Seconds'', ''Nanoseconds'', ''Op'', ''SeqNo'']"

text \<open>A row of the message tables: the columns that the tables leave at zero are fixed.\<close>

definition csv_row :: "string \<Rightarrow> string \<Rightarrow> int \<Rightarrow> string \<Rightarrow> string \<Rightarrow> int \<Rightarrow> string \<Rightarrow> int \<Rightarrow> cell list" where
  "csv_row ty oid qty symb price secs op seq =
     [CStr ty, CStr ''B'', CStr oid, CInt qty, CStr symb, CFloat (PyFloat price), CInt 0, CInt 0, CInt 0,
      CInt secs, CInt 0, CStr op, CInt seq]"

definition TSLA :: security where
  "TSLA = \<lparr>sec_symbol = Some (CStr ''TSLA''), sec_weight = Some (CFloat (PyFloat ''0.25'')),
     sec_book_size_range = Some (CList [CInt 5, CInt 10]),
     sec_price_range = Some (CList [CFloat (PyFloat ''75.0''), CFloat (PyFloat ''125.0'')]),
     sec_size_range = Some (CList [CInt 25, CInt 200])\<rparr>"

definition bench_1_rows :: "cell list list" where
  "bench_1_rows = [
     csv_row ''AddOrder'' ''ORID0001'' 150 ''AAPL'' ''172.75'' 0 ''add'' 1,
     csv_row ''AddOrder'' ''ORID0002'' 50 ''AAPL'' ''404.52'' 0 ''add'' 2,
     csv_row ''AddOrder'' ''ORID0003'' 250 ''AAPL'' ''172.76'' 0 ''add'' 3,
     csv_row ''ModifyOrder'' ''ORID0002'' 150 '''' ''404.53'' 0 ''edit'' 4,
     csv_row ''AddOrder'' ''ORID0004'' 150 ''MSFT'' ''404.53'' 0 ''add'' 5,
     csv_row ''AddOrder'' ''ORID0006'' 150 ''TSLA'' ''404.53'' 0 ''add'' 6,
     csv_row ''ModifyOrder'' ''ORID0006'' 150 '''' ''404.53'' 0 ''add'' 7,
     csv_row ''AddOrder'' ''ORID0008'' 150 ''AAPL'' ''404.53'' 0 ''add'' 8,
     csv_row ''AddOrder'' ''ORID0009'' 250 ''AAPL'' ''404.52'' 0 ''add'' 9,
     csv_row ''AddOrder'' ''ORID0010'' 250 ''AAPL'' ''404.51'' 0 ''add'' 10,
     csv_row ''AddOrder'' ''ORID0011'' 250 ''AAPL'' ''404.5'' 0 ''add'' 11,
     csv_row ''AddOrder'' ''ORID0012'' 250 ''AAPL'' ''404.49'' 0 ''add'' 12]"

text \<open>\<open>sim/bench_1.cfg\<close>.\<close>

definition bench_1 :: config where
  "bench_1 = \<lparr>cfg_name = Some ''Benchmark #1'',
     cfg_description = Some (''This is my description for Benchmark #1'' @ [CHR 10] @ ''for one string''),
     cfg_watchlist = Some [''GE'', ''A'', ''XOM'', ''MSFT'', ''AAPL'', ''CRSR''],
     cfg_number_of_messages = Some 100,
     cfg_security = Some [TSLA, \<lparr>sec_symbol = Some (CStr ''MSFT''), sec_weight = Some (CFloat (PyFloat ''0.5'')),
       sec_book_size_range = None, sec_price_range = None, sec_size_range = None\<rparr>],
     cfg_messages = Some (Some (csv_header # bench_1_rows))\<rparr>"

definition test_rows :: "cell list list" where
  "test_rows = [
     csv_row ''AddOrder'' ''ORID0001'' 150 ''AAPL'' ''172.75'' 100 ''add'' 1,
     csv_row ''AddOrder'' ''ORID0002'' 50 ''MSFT'' ''404.52'' 100 ''add'' 2,
     csv_row ''AddOrder'' ''ORID0003'' 250 ''AAPL'' ''172.76'' 100 ''add'' 3,
     csv_row ''AddOrder'' ''ORID0004'' 150 ''MSFT'' ''404.53'' 100 ''add'' 4]"

text \<open>The configuration string of the second test.\<close>

definition test_config :: config where
  "test_config = \<lparr>cfg_name = Some ''Test 1 Security'',
     cfg_description = Some (''benchmark_name'' @ [CHR 10] @ ''Test how long it takes'' @ [CHR 10] @ ''for one string'' @ [CHR 10]),
     cfg_watchlist = Some [''MSFT'', ''AAPL''],
     cfg_number_of_messages = Some 500,
     cfg_security = Some [TSLA, \<lparr>sec_symbol = Some (CStr ''MSFT''), sec_weight = None,
       sec_book_size_range = None, sec_price_range = None, sec_size_range = None\<rparr>],
     cfg_messages = Some (Some (csv_header # test_rows))\<rparr>"

definition holds_of :: "'a py_result \<Rightarrow> ('a \<Rightarrow> bool) \<Rightarrow> bool" where
  "holds_of r P = (case r of Inl e \<Rightarrow> False | Inr x \<Rightarrow> P x)"

definition test_basic_config_from_file :: "field_converter \<Rightarrow> bool" where
  "test_basic_config_from_file fc =
     holds_of (bench_init fc (Some bench_1)) (\<lambda>filter_bench.
       has_more_commands filter_bench \<and>
       bench_name filter_bench = Inr ''Benchmark #1'' \<and>
       holds_of (bench_description filter_bench) (starts ''This is my description'') \<and>
       holds_of (bench_watch_list filter_bench) (\<lambda>w. length w = 2) \<and>
       bench_number_of_messages filter_bench = Inr 100)"

definition test_basic_config_from_string_watchlist :: "field_converter \<Rightarrow> bool" where
  "test_basic_config_from_string_watchlist fc =
     holds_of (bench_init fc (Some test_config)) (\<lambda>filter_bench.
       has_more_commands filter_bench \<and>
       bench_name filter_bench = Inr ''Test 1 Security'' \<and>
       holds_of (bench_description filter_bench) (starts (''benchmark_name'' @ [CHR 10] @ ''Test how long'')) \<and>
       holds_of (bench_watch_list filter_bench) (\<lambda>w. length w = 2) \<and>
       holds_of (print_header filter_bench) (has_sub ''benchmark_name'') \<and>
       bench_number_of_messages filter_bench = Inr 500)"

text \<open>\<open>for i in range(n): words.append(...)\<close>, up to the first exception.\<close>

fun watchlist_words :: "bench \<Rightarrow> nat list \<Rightarrow> int list py_result" where
  "watchlist_words b [] = Inr []"
| "watchlist_words b (i # is) =
     bind_result (watchlist_get_item b (int i)) (\<lambda>w. bind_result (watchlist_words b is) (\<lambda>ws. Inr (w # ws)))"

definition test_get_single_watchlist :: "field_converter \<Rightarrow> bool" where
  "test_get_single_watchlist fc =
     holds_of (bench_init fc (Some bench_1)) (\<lambda>filter_bench.
     holds_of (watchlist_get_size filter_bench) (\<lambda>n.
     holds_of (watchlist_words filter_bench [0..<n]) (\<lambda>words.
       n = 2 \<and> length words = 2 \<and> words ! 0 = 0x4d53465420202020 \<and> words ! 1 = 0x4141504c20202020)))"

section \<open>Properties\<close>

text \<open>What the converter of \<open>cboe_pitch\<close> is used for: order ids and symbols of at most eight characters.\<close>

definition converts :: "field_converter \<Rightarrow> bool" where
  "converts fc \<longleftrightarrow> (\<forall>s. length s \<le> 8 \<longrightarrow>
     (\<exists>n. orderid_to_u64 fc (CStr s) = Inr n) \<and> (\<exists>n. symbol_to_u64 fc (CStr s) = Inr n))"

lemma convertsD:
  assumes "converts fc" and "length s \<le> 8"
  obtains n k where "orderid_to_u64 fc (CStr s) = Inr n" and "symbol_to_u64 fc (CStr s) = Inr k"
  using assms unfolding converts_def by blast

lemma header_fields:
  "field_map csv_header (CStr ''Type'') = Some 0" "field_map csv_header (CStr ''Side'') = Some 1"
  "field_map csv_header (CStr ''OrderId'') = Some 2" "field_map csv_header (CStr ''Quantity'') = Some 3"
  "field_map csv_header (CStr ''Symbol'') = Some 4" "field_map csv_header (CStr ''Price'') = Some 5"
  "field_map csv_header (CStr ''Exe Quantity'') = Some 6" "field_map csv_header (CStr ''Can Quantity'') = Some 7"
  "field_map csv_header (CStr ''Rem Quantity'') = Some 8" "field_map csv_header (CStr ''Seconds'') = Some 9"
  "field_map csv_header (CStr ''Op'') = Some 11" "field_map csv_header (CStr ''SeqNo'') = Some 12"
  by (simp_all add: field_map_def csv_header_def upt_rec)

lemma csv_row_command:
  assumes "converts fc" and "length oid \<le> 8" and "length symb \<le> 8" and "enum_value cmd_types 0 (CStr ty) = Inr t"
  shows "\<exists>c. row_command fc (field_map csv_header) (csv_row ty oid qty symb price secs op seq) = Inr c"
proof -
  obtain n where "orderid_to_u64 fc (CStr oid) = Inr n" using convertsD [OF assms(1,2)] by blast
  moreover obtain k where "symbol_to_u64 fc (CStr symb) = Inr k" using convertsD [OF assms(1,3)] by blast
  ultimately show ?thesis
    by (simp add: row_command_def get_field_def header_fields csv_row_def py_index_def gen_cmd_def assms(4))
qed

lemma enum_values:
  "enum_value cmd_types 0 (CStr ''AddOrder'') = Inr 1" "enum_value cmd_types 0 (CStr ''ModifyOrder'') = Inr 5"
  by (simp_all add: cmd_types_def)

lemma row_commands_exist:
  "list_all (\<lambda>row. \<exists>c. row_command fc fm row = Inr c) rows \<Longrightarrow> \<exists>cs. row_commands fc fm rows = Inr cs \<and> length cs = length rows"
  by (induction rows) (auto simp: bind_result_Inr)

lemma test_config_bench:
  assumes "converts fc"
  shows "\<exists>cs. row_commands fc (field_map csv_header) test_rows = Inr cs \<and> length cs = 4"
proof -
  have "list_all (\<lambda>row. \<exists>c. row_command fc (field_map csv_header) row = Inr c) test_rows"
    by (simp add: test_rows_def csv_row_command [OF assms _ _ enum_values(1)])
  moreover have "length test_rows = 4" by (simp add: test_rows_def)
  ultimately show ?thesis using row_commands_exist by metis
qed

lemma has_sub_right: "has_sub p s \<Longrightarrow> has_sub p (s @ w)"
proof (induction s)
  case Nil
  then show ?case by (cases w) simp_all
next
  case (Cons a s)
  show ?case
  proof (cases "take (length p) (a # s) = p")
    case True
    then obtain t where "a # s = p @ t" by (metis append_take_drop_id)
    then have "(a # s) @ w = p @ t @ w" by simp
    then have "take (length p) ((a # s) @ w) = p" by simp
    then show ?thesis by simp
  next
    case False
    then show ?thesis using Cons by simp
  qed
qed

lemma has_sub_left: "has_sub p s \<Longrightarrow> has_sub p (u @ s)"
  by (induction u) simp_all

text \<open>The header is thirteen parts on lines of their own; the description is the fourth.\<close>

lemma header_describes:
  assumes "print_header b = Inr out" and "fb_description b = Some d" and "has_sub p d"
  shows "has_sub p out"
proof -
  obtain name parts where out: "out = join_with [CHR 10] (rule # name # ''--'' # d # parts)" "parts \<noteq> []"
    using assms(1,2)
    by (auto simp: print_header_def bench_description_def attribute_def bind_result_Inr simp del: join_with.simps)
  have "join_with [CHR 10] (rule # name # ''--'' # d # parts) =
      (rule @ [CHR 10] @ name @ [CHR 10] @ ''--'' @ [CHR 10]) @ d @ [CHR 10] @ join_with [CHR 10] parts"
    using out(2) by (cases parts) simp_all
  then show ?thesis unfolding out(1) using has_sub_left [OF has_sub_right [OF assms(3)]] by metis
qed

text \<open>What the constructor leaves: up to the first missing key, and the commands in any case.\<close>

lemma read_securities_keeps:
  "fb_name (read_securities ss b) = fb_name b" "fb_description (read_securities ss b) = fb_description b"
  "fb_watch_list (read_securities ss b) = fb_watch_list b"
  "fb_number_of_messages (read_securities ss b) = fb_number_of_messages b"
  "fb_securities_gen (read_securities ss b) = None \<longleftrightarrow> fb_securities_gen b = None"
  by (induction ss arbitrary: b) (simp_all split: option.splits)

lemma read_securities_some:
  "fb_securities_gen b = Some g \<Longrightarrow> \<exists>y. fb_securities_gen (read_securities ss b) = Some y"
  using read_securities_keeps(5) [of ss b] by (cases "fb_securities_gen (read_securities ss b)") simp_all

lemma read_securities_ids:
  "fb_orderids (read_securities ss b) =
    (case ss of [] \<Rightarrow> fb_orderids b | s # _ \<Rightarrow> if sec_symbol s = None then fb_orderids b else Some {})"
  by (induction ss arbitrary: b) (auto split: option.splits list.splits)

definition header_keys :: "config \<Rightarrow> bool" where
  "header_keys cfg \<longleftrightarrow> cfg_name cfg \<noteq> None \<and> cfg_description cfg \<noteq> None \<and> cfg_watchlist cfg \<noteq> None \<and>
     cfg_number_of_messages cfg \<noteq> None"

definition first_symbol :: "config \<Rightarrow> bool" where
  "first_symbol cfg \<longleftrightarrow> (case cfg_security cfg of Some (s # ss) \<Rightarrow> sec_symbol s \<noteq> None | _ \<Rightarrow> False)"

lemma bench_init_fields:
  assumes "bench_init fc (Some cfg) = Inr b" and "header_keys cfg"
  shows "fb_name b = cfg_name cfg" and "fb_description b = cfg_description cfg" and "fb_watch_list b = cfg_watchlist cfg"
    and "fb_number_of_messages b = cfg_number_of_messages cfg" and "fb_securities_gen b \<noteq> None"
    and "fb_orderids b = (if first_symbol cfg then Some {} else None)"
  using assms
  by (auto simp: bench_init_def read_config_def header_keys_def first_symbol_def bind_result_Inr Let_def
      read_securities_keeps read_securities_some read_securities_ids split: option.splits list.splits)

lemma bench_init_missing:
  assumes "bench_init fc (Some cfg) = Inr b" and "\<not> header_keys cfg"
  shows "fb_number_of_messages b = None" and "fb_orderids b = None"
  using assms
  by (auto simp: bench_init_def read_config_def header_keys_def bind_result_Inr Let_def split: option.splits)

lemma print_header_raises:
  "fb_number_of_messages b = None \<Longrightarrow> print_header b = Inl AttributeError"
  by (simp add: print_header_def bench_name_def bench_description_def bench_watch_list_def
      bench_number_of_messages_def attribute_def bind_result_def split: option.splits)

text \<open>The bench's unit tests on the model, for any field converter that handles order ids and symbols of
  up to eight characters: the test of the configuration string passes, while the two tests of
  \<open>sim/bench_1.cfg\<close> fail, because they expect a watch list of two symbols and the file lists six.\<close>
theorem filter_bench_tests:
  assumes "converts fc"
  shows "test_basic_config_from_string_watchlist fc \<and> \<not> test_basic_config_from_file fc \<and> \<not> test_get_single_watchlist fc"
proof (intro conjI)
  obtain cs where cs: "row_commands fc (field_map csv_header) test_rows = Inr cs" "length cs = 4"
    using test_config_bench [OF assms] by blast
  then obtain b where b: "bench_init fc (Some test_config) = Inr b"
    by (simp add: bench_init_def gen_messages_def test_config_def py_index_def)
  have "header_keys test_config" by (simp add: header_keys_def test_config_def)
  note fields = bench_init_fields [OF b this]
  obtain secs where secs: "fb_securities_gen b = Some secs" using fields(5) by blast
  obtain out where out: "print_header b = Inr out"
    by (simp add: print_header_def bench_name_def bench_description_def bench_watch_list_def bench_number_of_messages_def
        attribute_def fields secs test_config_def)
  have "has_sub ''benchmark_name'' (the (cfg_description test_config))" by (simp add: test_config_def)
  from header_describes [OF out _ this] have sub: "has_sub ''benchmark_name'' out"
    by (simp add: fields test_config_def)
  have "fb_commands b \<noteq> []"
    using bench_init_commands [OF b] cs by (auto simp: gen_messages_def test_config_def py_index_def)
  then show "test_basic_config_from_string_watchlist fc"
    using b out sub cs
    by (simp add: test_basic_config_from_string_watchlist_def holds_of_def has_more_commands_def bench_name_def
        bench_description_def bench_watch_list_def bench_number_of_messages_def attribute_def fields test_config_def
        starts_def)
  show "\<not> test_basic_config_from_file fc"
    by (auto simp: test_basic_config_from_file_def holds_of_def bench_init_def bench_watch_list_def read_config_def
        bench_1_def TSLA_def attribute_def bind_result_Inr Let_def split: sum.splits)
  show "\<not> test_get_single_watchlist fc"
    by (auto simp: test_get_single_watchlist_def holds_of_def bench_init_def watchlist_get_size_def read_config_def
        bench_1_def TSLA_def attribute_def bind_result_Inr Let_def split: sum.splits)
qed



theorem filter_bench_tests_witness:
  "test_basic_config_from_string_watchlist demo_converter \<and> \<not> test_get_single_watchlist demo_converter"
  using filter_bench_tests [of demo_converter] by (simp add: converts_def demo_converter_def)

end
