(* ===== verification/Repo_Capture.thy ===== *)
theory Repo_Capture
  imports Replay_Check NI_Parser Eth_Frame
begin

text \<open>
  The repository's capture \<open>tests/data/generated_2025_05_02.pcap\<close>, one frame with ten messages, two of
  them six-byte Time messages: the tests of \<open>tests_poc_ip.py\<close> on it, and its way through the models of
  the parser and of the receive path.
\<close>

section \<open>The file\<close>

definition generated_header :: "int list" where
  "generated_header = [0x02, 0x00, 0x04, 0x00, 0x00, 0x00, 0x00, 0x00, 0x00, 0x00, 0x00, 0x00, 0xff, 0xff, 0x00, 0x00, 0x01, 0x00, 0x00, 0x00]"

definition generated_stamp :: "int list" where
  "generated_stamp = [0x44, 0x40, 0x15, 0x68, 0x3a, 0x9c, 0x0d, 0x00]"

definition generated_unit :: capture where
  "generated_unit = (
    [0x00, 0x0a, 0x35, 0x18, 0x3c, 0x1f, 0x00, 0x15, 0x5d, 0x45, 0x26, 0x7d, 0x08, 0x00, 0x45, 0x00, 0x01, 0x25, 0x00, 0x01,
     0x00, 0x00, 0x40, 0x11, 0x76, 0xf6, 0xac, 0x16, 0x4b, 0xad, 0x0a, 0x00, 0x01, 0x0e, 0x00, 0x35, 0x1f, 0x40, 0x01, 0x11,
     0x85, 0x88],
    [0x09, 0x01, 0x0a, 0x01, 0x01, 0x00, 0x00, 0x00],
    [[0x06, 0x20, 0x05, 0xfd, 0x00, 0x00],
     [0x1a, 0x22, 0x00, 0x00, 0x00, 0x00, 0x4f, 0x52, 0x49, 0x44, 0x30, 0x30, 0x30, 0x31, 0x53, 0xaf, 0x00, 0x47, 0x45, 0x20,
      0x20, 0x20, 0x20, 0x0a, 0x14, 0x01],
     [0x22, 0x21, 0x00, 0xc2, 0xeb, 0x0b, 0x4f, 0x52, 0x49, 0x44, 0x30, 0x30, 0x30, 0x32, 0x42, 0x1e, 0x00, 0x00, 0x00, 0x4d,
      0x53, 0x46, 0x54, 0x20, 0x20, 0xe8, 0x61, 0x33, 0x00, 0x00, 0x00, 0x00, 0x00, 0x01],
     [0x22, 0x21, 0x00, 0x84, 0xd7, 0x17, 0x4f, 0x52, 0x49, 0x44, 0x30, 0x30, 0x30, 0x33, 0x53, 0x05, 0x00, 0x00, 0x00, 0x4d,
      0x53, 0x46, 0x54, 0x20, 0x20, 0x10, 0xaa, 0x31, 0x00, 0x00, 0x00, 0x00, 0x00, 0x01],
     [0x29, 0x2f, 0x00, 0x46, 0xc3, 0x23, 0x4f, 0x52, 0x49, 0x44, 0x30, 0x30, 0x30, 0x34, 0x53, 0x05, 0x00, 0x00, 0x00, 0x4d,
      0x53, 0x46, 0x54, 0x20, 0x20, 0x20, 0x20, 0xa4, 0xf3, 0x30, 0x00, 0x00, 0x00, 0x00, 0x00, 0x01, 0x4d, 0x50, 0x49, 0x44,
      0x43],
     [0x1a, 0x22, 0x00, 0x08, 0xaf, 0x2f, 0x4f, 0x52, 0x49, 0x44, 0x30, 0x30, 0x30, 0x35, 0x42, 0x1e, 0x00, 0x4d, 0x53, 0x46,
      0x54, 0x20, 0x20, 0x8b, 0x84, 0x01],
     [0x06, 0x20, 0x06, 0xfd, 0x00, 0x00],
     [0x29, 0x2f, 0x00, 0x00, 0x00, 0x00, 0x4f, 0x52, 0x49, 0x44, 0x30, 0x30, 0x30, 0x36, 0x53, 0xc8, 0x00, 0x00, 0x00, 0x47,
      0x45, 0x20, 0x20, 0x20, 0x20, 0x20, 0x20, 0xe8, 0xcd, 0x08, 0x00, 0x00, 0x00, 0x00, 0x00, 0x01, 0x4d, 0x50, 0x49, 0x44,
      0x43],
     [0x10, 0x26, 0x00, 0xc2, 0xeb, 0x0b, 0x4f, 0x52, 0x49, 0x44, 0x30, 0x30, 0x30, 0x36, 0xaf, 0x00],
     [0x1b, 0x27, 0x00, 0x84, 0xd7, 0x17, 0x4f, 0x52, 0x49, 0x44, 0x30, 0x30, 0x30, 0x36, 0xc8, 0x00, 0x00, 0x00, 0xc8, 0x4d,
      0x08, 0x00, 0x00, 0x00, 0x00, 0x00, 0x01]])"

definition generated_2025_05_02 :: "int list" where
  "generated_2025_05_02 = pcap_file generated_header [(generated_stamp, frame_of generated_unit)]"

section \<open>The tests of the frame classes\<close>

text \<open>scapy's \<open>rdpcap\<close> is a parameter: the packets of a file.\<close>

definition test_smoke :: "(int list \<Rightarrow> packet list) \<Rightarrow> bool" where
  "test_smoke rdpcap =
     (case pcap_init True (Inr (rdpcap generated_2025_05_02)) of
        Inl e \<Rightarrow> False
      | Inr pcap \<Rightarrow> pcap_get_frame_count pcap = 1)"

definition test_packet_data :: "(int list \<Rightarrow> packet list) \<Rightarrow> bool" where
  "test_packet_data rdpcap =
     (case bind_result (pcap_init True (Inr (rdpcap generated_2025_05_02))) (\<lambda>pcap.
             bind_result (pcap_get_frame pcap eth_frame_init 0) (\<lambda>eth_frame. Inr (pcap, eth_frame))) of
           Inl e \<Rightarrow> False
         | Inr (pcap, eth_frame) \<Rightarrow>
             pcap_get_frame_count pcap = 1 \<and>
             get_length_bytes eth_frame = Inr 307 \<and>
             get_short eth_frame = ''DST: MAC=00:0a:35:18:3c:1f, IP=10.0.1.14, DPort=8000'' \<and>
             get_number_of_words eth_frame = Inr 39 \<and>
             eth_get_word eth_frame 0 0 = 0x000a35183c1f0015 \<and>
             get_word_tkeep eth_frame 0 0 = Inr 0b11111111 \<and>
             eth_get_word eth_frame 37 0 = 0x0000c84d08000000 \<and>
             eth_get_word eth_frame 38 0 = 0x0000010000000000 \<and>
             get_word_tkeep eth_frame 38 0 = Inr 0b11100000 \<and>
             eth_get_word eth_frame 0 1 = 0x15001f3c18350a00 \<and>
             get_word_tkeep eth_frame 0 1 = Inr 0b11111111 \<and>
             eth_get_word eth_frame 37 1 = 0x000000084dc80000 \<and>
             eth_get_word eth_frame 38 1 = 0x0000000000010000 \<and>
             get_word_tkeep eth_frame 38 1 = Inr 0b00000111)"

text \<open>What scapy documents: the bytes of the packets are the frames, and of a UDP datagram in an IPv4 packet
  without options it shows the destination addresses, the MAC address as six hexadecimal bytes with
  colons, the IP address with dots, the port in decimal.\<close>

definition destination :: "int list \<Rightarrow> string \<times> string \<times> string" where
  "destination b =
     (join_with '':'' (map (\<lambda>x. to_hex 2 (nat x)) (take 6 b)),
      join_with ''.'' (map (\<lambda>x. to_dec (nat x)) (py_slice 30 34 b)),
      to_dec (nat (from_be (py_slice 36 38 b))))"

definition udp_in_ipv4 :: "int list \<Rightarrow> bool" where
  "udp_in_ipv4 b \<longleftrightarrow> py_slice 12 15 b = [0x08, 0x00, 0x45] \<and> py_slice 20 24 b = [0x00, 0x00, 0x40, 0x11]"

definition reads_frames :: "(int list \<Rightarrow> packet list) \<Rightarrow> bool" where
  "reads_frames rdpcap \<longleftrightarrow>
     (\<forall>d. map pkt_bytes (rdpcap d) = pcap_frames d \<and>
          (\<forall>p \<in> set (rdpcap d). udp_in_ipv4 (pkt_bytes p) \<longrightarrow> pkt_short p = Inr (destination (pkt_bytes p))))"

section \<open>The capture as a unit\<close>

lemma generated_wf: "wf_capture generated_unit"
  by (simp add: generated_unit_def wf_capture_def wf_unit_def wf_msg_def is_byte_def paced_def keeps_pace.simps)

lemma generated_size: "length generated_header = 20" "length generated_stamp = 8" "length (frame_of generated_unit) = 307"
  by (simp_all add: generated_header_def generated_stamp_def generated_unit_def frame_of_def)

lemma generated_frames: "pcap_frames generated_2025_05_02 = [frame_of generated_unit]"
proof -
  have "wf_pcap generated_header [(generated_stamp, frame_of generated_unit)]"
    by (simp add: wf_pcap_def generated_size)
  from pcap_file_frames [OF this, of "[]"] show ?thesis by (simp add: generated_2025_05_02_def)
qed

lemma generated_bytes: "is_bytes generated_2025_05_02"
proof -
  have "is_bytes generated_header" "is_bytes generated_stamp" "is_bytes (frame_of generated_unit)"
    by (simp_all add: generated_header_def generated_stamp_def generated_unit_def frame_of_def is_byte_def)
  then show ?thesis
    by (simp add: generated_2025_05_02_def pcap_file_def pcap_record_def generated_size is_byte_def)
qed

lemma generated_accepted: "path_accepts (frame_of generated_unit)"
  by code_simp

lemma generated_truth:
  "truth_of generated_unit = (265, [(8, 6, 0x20), (14, 26, 0x22), (40, 34, 0x21), (74, 34, 0x21), (108, 41, 0x2f),
     (149, 26, 0x22), (175, 6, 0x20), (181, 41, 0x2f), (222, 16, 0x26), (238, 27, 0x27)])"
  by (simp add: generated_unit_def truth_of_def payload_of_def)

section \<open>Properties\<close>

lemma init_bytes: "raw_bytes (eth_init f p) = Some (pkt_bytes p)"
  by (simp add: eth_init_def Let_def split: option.splits)

lemma generated_words:
  "take 8 (frame_of generated_unit) = [0x00, 0x0a, 0x35, 0x18, 0x3c, 0x1f, 0x00, 0x15]"
  "py_slice 296 304 (frame_of generated_unit) = [0x00, 0x00, 0xc8, 0x4d, 0x08, 0x00, 0x00, 0x00]"
  "py_slice 304 307 (frame_of generated_unit) = [0x00, 0x00, 0x01]"
  by (simp_all add: py_slice_def generated_unit_def frame_of_def)

lemma init_packet: "eth_packet (eth_init f p) = Some p"
  by (simp add: eth_init_def Let_def split: option.splits)

lemma destination_bytes:
  "take 6 (frame_of generated_unit) = [0x00, 0x0a, 0x35, 0x18, 0x3c, 0x1f]"
  "py_slice 30 34 (frame_of generated_unit) = [10, 0, 1, 14]"
  "py_slice 36 38 (frame_of generated_unit) = [0x1f, 0x40]"
  by (simp_all add: py_slice_def generated_unit_def frame_of_def)

lemma generated_destination:
  "destination (frame_of generated_unit) = (''00:0a:35:18:3c:1f'', ''10.0.1.14'', ''8000'')"
  by (simp add: destination_def destination_bytes from_be_def to_hex_def to_dec_def pad_zeros_def digit_char_def nat_digits.simps char_of_def bit_0)

text \<open>The tests of \<open>tests_poc_ip.py\<close> pass on the model, for any reader of captures that returns the frames'
  bytes and their addresses: one packet of 307 bytes for the board, and the words and byte enables the tests expect in both byte orders,
  the short last word included.\<close>
theorem capture_tests_pass:
  assumes "reads_frames rdpcap"
  shows "test_smoke rdpcap \<and> test_packet_data rdpcap"
proof -
  have "map pkt_bytes (rdpcap generated_2025_05_02) = [frame_of generated_unit]"
    using assms by (simp add: reads_frames_def generated_frames)
  then obtain p where p: "rdpcap generated_2025_05_02 = [p]" "pkt_bytes p = frame_of generated_unit" by auto
  have "udp_in_ipv4 (frame_of generated_unit)" by code_simp
  moreover have "p \<in> set (rdpcap generated_2025_05_02)" by (simp add: p(1))
  ultimately have "pkt_short p = Inr (destination (pkt_bytes p))"
    using assms unfolding reads_frames_def p(2) [symmetric] by blast
  then have short: "pkt_short p = Inr (''00:0a:35:18:3c:1f'', ''10.0.1.14'', ''8000'')"
    by (simp only: p(2) generated_destination)
  let ?f = "eth_init eth_frame_init p"
  have f: "raw_bytes ?f = Some (frame_of generated_unit)" by (simp add: init_bytes p(2))
  then have n: "get_number_of_words ?f = Inr 39" by (simp add: get_number_of_words_def generated_size)
  show ?thesis
    by (simp add: test_smoke_def test_packet_data_def p(1) pcap_get_frame_def py_index_def pcap_get_frame_count_def n
        pcap_init_def get_short_def init_packet short get_length_bytes_def f generated_size eth_get_word_def get_word_tkeep_def generated_words zeros_read from_be_def push_bit_eq_mult)
qed

theorem capture_tests_pass_witness:
  "test_packet_data (\<lambda>d. map (\<lambda>f. \<lparr>pkt_bytes = f, pkt_udp = Some (drop 42 f), pkt_short = Inr (destination f)\<rparr>) (pcap_frames d))"
  using capture_tests_pass [of "\<lambda>d. map (\<lambda>f. \<lparr>pkt_bytes = f, pkt_udp = Some (drop 42 f), pkt_short = Inr (destination f)\<rparr>) (pcap_frames d)"]
  by (auto simp: reads_frames_def comp_def)

text \<open>The repository's own capture satisfies what the theorems on captures ask for, Time messages
  included: \<open>pcap_msgs\<close> finds its ten messages, the replay check reports its frame OK, and the receive path
  carries its unit to the parser in one burst, with one header record and a message record per further word.\<close>
theorem repository_capture_received:
  "let d = generated_2025_05_02
   in pcap_msgs d = Some (Inr [truth_of generated_unit]) \<and> length (snd (truth_of generated_unit)) = 10 \<and>
      main_verdicts (four_columns (rows_from 0 (pcap_frames d))) [truth_of generated_unit] = Inr [True] \<and>
      (\<exists>els B. ni_run 64 (gen_frames_text [d]) = Inr (els, unit_records B) \<and> map (\<lambda>(fno, cyc, w). w) els = B \<and>
        carries B (payload_of generated_unit))"
proof -
  let ?d = generated_2025_05_02
  have us: "list_all (\<lambda>(stamp, u). wf_capture u \<and> length stamp = 8 \<and> length (frame_of u) < 2 ^ 32)
      [(generated_stamp, generated_unit)]"
    by (simp add: generated_wf generated_size)
  have "?d = pcap_file generated_header (map (\<lambda>(stamp, u). (stamp, frame_of u)) [(generated_stamp, generated_unit)]) @ []"
    by (simp add: generated_2025_05_02_def)
  from replay_main_lemma [OF us generated_size(1) _ this]
  have main: "pcap_msgs ?d = Some (Inr [truth_of generated_unit])"
    "main_verdicts (four_columns (rows_from 0 (pcap_frames ?d))) [truth_of generated_unit] = Inr [True]" by simp_all
  have "list_all is_bytes [?d]" "concat (map pcap_frames [?d]) = map frame_of [generated_unit]"
    "list_all wf_capture [generated_unit]" "list_all (path_accepts \<circ> frame_of) [generated_unit]"
    by (simp_all add: generated_bytes generated_frames generated_wf generated_accepted)
  from receive_path_lemma [OF this, of 64] obtain els Bs where
    "ni_run 64 (gen_frames_text [?d]) = Inr (els, concat (map unit_records Bs))"
    "map (\<lambda>(fno, cyc, w). w) els = concat Bs" "list_all2 carries Bs [payload_of generated_unit]" by auto
  then have "\<exists>els B. ni_run 64 (gen_frames_text [?d]) = Inr (els, unit_records B) \<and> map (\<lambda>(fno, cyc, w). w) els = B \<and>
      carries B (payload_of generated_unit)"
    by (auto simp: list_all2_Cons2)
  then show ?thesis using main by (simp add: Let_def generated_truth)
qed

end
