(* ===== verification/Raw_Dump.thy ===== *)
theory Raw_Dump
  imports Py_Text Py_Bytes
begin

text \<open>
  \<open>s_parse.py\<close>: it collects the frames that the board's console log prints row by row and appends those
  for the FPGA to a capture file. Scapy's dissection of a frame is a parameter, the log's text an
  input; the packets written and the lines printed are the result.
\<close>

section \<open>The code\<close>

text \<open>\<open>re.findall(r"\[([^\]]*)\]", line)\<close>: the texts between brackets.\<close>

function bracketed :: "string \<Rightarrow> string list" where
  "bracketed [] = []"
| "bracketed (c # cs) =
     (if c = CHR ''['' then
        (case dropWhile (\<lambda>d. d \<noteq> CHR '']'') cs of
           [] \<Rightarrow> bracketed cs
         | _ # rest \<Rightarrow> takeWhile (\<lambda>d. d \<noteq> CHR '']'') cs # bracketed rest)
      else bracketed cs)"
  by pat_completeness auto
termination
proof (relation "measure length")
  fix c cs d rest assume "dropWhile (\<lambda>d. d \<noteq> CHR '']'') cs = d # rest"
  then have "length (d # rest) \<le> length cs" by (metis length_dropWhile_le)
  then show "(rest, c # cs) \<in> measure length" by simp
qed simp_all

text \<open>\<open>re.findall(r"\[.*\](.*)$", line)\<close>: what follows the last closing bracket, if one is opened before it.\<close>

definition after_brackets :: "string \<Rightarrow> string list" where
  "after_brackets line = (case last_at '']'' line of
     None \<Rightarrow> [] | Some j \<Rightarrow> if CHR ''['' \<in> set (take j line) then [drop (j + 1) line] else [])"

text \<open>A row of the log: its frame number and its bytes.\<close>

definition raw_row :: "string \<Rightarrow> (int \<times> int list) py_result" where
  "raw_row line =
     (let ms = bracketed line in
      bind_result (bind_result (py_index ms 1) (py_int 10)) (\<lambda>bd_set_num.
      bind_result (bind_result (py_index ms 2) (py_int 10)) (\<lambda>bd_num.
      bind_result (bind_result (py_index ms 3) (\<lambda>m. bind_result (py_index (split_on (CHR ''='') [] m) 1) (py_int 10))) (\<lambda>frame_num.
      bind_result (py_index (after_brackets line) 0) (\<lambda>rest.
      bind_result (run_result (\<lambda>u x. bind_result (py_int 16 (py_strip x)) (\<lambda>v. Inr (u, v))) () (py_split (py_strip rest))) (\<lambda>(_, bytes).
      Inr (frame_num, bytes)))))))"

text \<open>What scapy makes of a frame: nothing (an exception), or the addresses the script prints.\<close>

datatype packet_kind =
  Malformed | Arp string string | Udp_packet string string string string string | Tcp_packet | Other_packet

text \<open>What the script does with it. \<open>breakpoint()\<close> stops in the debugger.\<close>

datatype raw_event = Print string | Write "int list" | Breakpoint

definition dst_ip :: string where "dst_ip = ''10.0.1.14''"

definition flush_frame :: "(int list \<Rightarrow> packet_kind) \<Rightarrow> int list \<Rightarrow> int \<Rightarrow> raw_event list" where
  "flush_frame dissect frame_data frame_num =
     (case (if list_all (\<lambda>b. 0 \<le> b \<and> b < 256) frame_data then dissect frame_data else Malformed) of
        Malformed \<Rightarrow> [Print (''Error parsing frame #: '' @ to_sdec frame_num)]
      | Arp psrc pdst \<Rightarrow> [Print (''ARP: PSRC='' @ psrc @ '', PDST='' @ pdst)]
      | Udp_packet src dst sport dport udp \<Rightarrow>
          if dst = dst_ip
          then [Print (''UDP: SRC='' @ src @ '', DST='' @ dst), Print (''     SPORT='' @ sport @ '', DPORT='' @ dport),
                Print (''     PAYLOAD='' @ udp), Write frame_data]
          else []
      | Tcp_packet \<Rightarrow> [Breakpoint]
      | Other_packet \<Rightarrow> [])"

record raw_state =
  rw_prev :: "int option"
  rw_frames :: "int list"
  rw_data :: "int list"

definition raw_init :: raw_state where
  "raw_init = \<lparr>rw_prev = None, rw_frames = [], rw_data = []\<rparr>"

definition raw_step :: "(int list \<Rightarrow> packet_kind) \<Rightarrow> raw_state \<Rightarrow> string \<Rightarrow> (raw_state \<times> raw_event list) py_result" where
  "raw_step dissect s line =
     (if has_sub ''PAYLOAD_DATA'' line then
        bind_result (raw_row line) (\<lambda>(frame_num, bytes).
          Inr (case rw_prev s of
                 None \<Rightarrow> (s\<lparr>rw_data := rw_data s @ bytes, rw_prev := Some frame_num\<rparr>, [])
               | Some prev \<Rightarrow>
                   if prev \<noteq> frame_num then
                     (s\<lparr>rw_prev := Some frame_num, rw_frames := rw_frames s @ rw_data s, rw_data := bytes\<rparr>,
                      flush_frame dissect (rw_data s) frame_num)
                   else (s\<lparr>rw_data := rw_data s @ bytes\<rparr>, [])))
      else Inr (s, []))"

definition raw_main :: "(int list \<Rightarrow> packet_kind) \<Rightarrow> string \<Rightarrow> (raw_state \<times> raw_event list) py_result" where
  "raw_main dissect text =
     bind_result (run_result (raw_step dissect) raw_init (py_splitlines text)) (\<lambda>(s, evs). Inr (s, concat evs))"

section \<open>Logs\<close>

text \<open>A row as the board prints it: set, descriptor and frame number in decimal, the bytes in two groups.\<close>

definition byte_text :: "int \<Rightarrow> string" where
  "byte_text b = '' 0x'' @ to_hex 2 (nat b)"

definition row_text :: "nat \<Rightarrow> nat \<Rightarrow> nat \<Rightarrow> int list \<Rightarrow> string" where
  "row_text bd_set bd num bs =
     ''[PAYLOAD_DATA]['' @ pad_zeros 2 (to_dec bd_set) @ ''][''  @ pad_zeros 2 (to_dec bd) @ ''][FRAME_NUM=''
     @ pad_zeros 2 (to_dec num) @ '']'' @ concat (map byte_text (take 4 bs)) @ ''  '' @ concat (map byte_text (drop 4 bs))"

datatype log_line = Row nat nat nat "int list" | Note string

fun log_text :: "log_line \<Rightarrow> string" where
  "log_text (Row bd_set bd num bs) = row_text bd_set bd num bs"
| "log_text (Note s) = s"

fun log_ok :: "log_line \<Rightarrow> bool" where
  "log_ok (Row bd_set bd num bs) = is_bytes bs"
| "log_ok (Note s) = (one_line s \<and> \<not> has_sub ''PAYLOAD_DATA'' s)"

definition log_rows :: "log_line list \<Rightarrow> (int \<times> int list) list" where
  "log_rows ls = List.map_filter (\<lambda>l. case l of Row bd_set bd num bs \<Rightarrow> Some (int num, bs) | Note s \<Rightarrow> None) ls"

text \<open>The frames of a log: neighbouring rows with the same number joined.\<close>

fun log_frames :: "(int \<times> int list) list \<Rightarrow> (int \<times> int list) list" where
  "log_frames [] = []"
| "log_frames [r] = [r]"
| "log_frames ((n, bs) # (m, cs) # rs) =
     (if n = m then log_frames ((n, bs @ cs) # rs) else (n, bs) # log_frames ((m, cs) # rs))"

section \<open>Reading a row\<close>

lemma bracketed_group: "CHR '']'' \<notin> set s \<Longrightarrow> bracketed (CHR ''['' # s @ CHR '']'' # t) = s # bracketed t"
  by (simp add: dropWhile_append takeWhile_append takeWhile_eq_all_conv [THEN iffD2] dropWhile_eq_Nil_conv [THEN iffD2])

lemma bracketed_none: "CHR ''['' \<notin> set s \<Longrightarrow> bracketed s = []"
  by (induction s) auto

lemma split_words_spaced:
  assumes "list_all is_token ts" "s = [] \<or> is_space (hd s)"
  shows "split_words [] (concat (map (\<lambda>t. CHR '' '' # t) ts) @ s) = ts @ split_words [] s"
  using assms(1)
proof (induction ts)
  case (Cons t ts)
  let ?r = "concat (map (\<lambda>t. CHR '' '' # t) ts) @ s"
  have t: "t \<noteq> []" "list_all (\<lambda>c. \<not> is_space c) t" using Cons.prems by (simp_all add: is_token_def)
  have sp: "is_space (CHR '' '')" by (simp add: is_space_def)
  have "?r = [] \<or> is_space (hd ?r)" using assms(2) sp by (cases ts) auto
  then have "split_words t ?r = t # split_words [] ?r"
    using t(1) by (cases ?r) (auto split: if_splits)
  then show ?case using Cons sp split_words_token [OF t(2), of "[]" ?r] by simp
qed simp

lemma byte_token: "is_byte b \<Longrightarrow> is_token (''0x'' @ to_hex 2 (nat b))"
  using to_hex_facts(1) [of 2 "nat b"] by (auto simp: is_token_def is_space_def)

lemma row_bytes:
  assumes "is_bytes bs"
  shows "py_split (py_strip (concat (map byte_text (take 4 bs)) @ ''  '' @ concat (map byte_text (drop 4 bs)))) =
    map (\<lambda>b. ''0x'' @ to_hex 2 (nat b)) bs"
proof -
  let ?t = "\<lambda>b. ''0x'' @ to_hex 2 (nat b)"
  have spaced: "map byte_text xs = map (\<lambda>t. CHR '' '' # t) (map ?t xs)" for xs by (simp add: byte_text_def)
  have tok: "list_all is_token (map ?t xs)" for xs
    using to_hex_facts(1) by (auto simp: list_all_iff is_token_def is_space_def)
  have "split_words [] (concat (map byte_text (take 4 bs)) @ ''  '' @ concat (map byte_text (drop 4 bs))) =
      map ?t (take 4 bs) @ split_words [] (''  '' @ concat (map byte_text (drop 4 bs)))"
    unfolding spaced by (rule split_words_spaced [OF tok]) (simp add: is_space_def)
  also have "split_words [] (''  '' @ concat (map byte_text (drop 4 bs))) = split_words [] (concat (map byte_text (drop 4 bs)) @ [])"
    by (simp add: is_space_def)
  also have "\<dots> = map ?t (drop 4 bs)" unfolding spaced by (subst split_words_spaced [OF tok]) simp_all
  finally show ?thesis unfolding py_split_strip unfolding py_split_def by (simp flip: map_append)
qed

lemma run_bytes:
  assumes "is_bytes bs"
  shows "run_result (\<lambda>u x. bind_result (py_int 16 (py_strip x)) (\<lambda>v. Inr ((), v))) () (map (\<lambda>b. ''0x'' @ to_hex 2 (nat b)) bs) = Inr ((), bs)"
  using assms
proof (induction bs)
  case (Cons b bs)
  have "is_token (''0x'' @ to_hex 2 (nat b))" using to_hex_facts(1) by (auto simp: is_token_def is_space_def)
  then have "py_int 16 (py_strip (''0x'' @ to_hex 2 (nat b))) = Inr b"
    using Cons.prems py_int_prefixed [of 2 "nat b"] by (simp add: py_strip_token is_byte_def)
  then show ?case using Cons by simp
qed simp

lemma after_brackets_split:
  assumes "CHR '']'' \<notin> set b" "CHR ''['' \<in> set w"
  shows "after_brackets (w @ CHR '']'' # b) = [b]"
proof -
  have "last_at '']'' (CHR '']'' # b) = Some 0" using last_at_none [OF assms(1)] by simp
  then have "last_at '']'' (w @ CHR '']'' # b) = Some (length w + 0)"
    by (rule last_at_append)
  then show ?thesis using assms(2) by (simp add: after_brackets_def)
qed

lemma digits_plain:
  assumes "digit_string base s" "base \<le> 16"
  shows "CHR ''['' \<notin> set s" "CHR '']'' \<notin> set s" "CHR ''='' \<notin> set s"
proof -
  have code: "(of_char c :: nat) \<in> {48..57} \<union> {97..102}" if "c \<in> set s" for c
  proof -
    have "\<forall>c \<in> set s. \<exists>d < base. c = digit_char d" using assms(1) by (simp add: digit_string_def list_all_iff)
    from bspec [OF this that] obtain d where "d < base" "c = digit_char d" by (elim exE conjE)
    then show ?thesis using assms(2) by (simp add: digit_char_code)
  qed
  show "CHR ''['' \<notin> set s" "CHR '']'' \<notin> set s" "CHR ''='' \<notin> set s" using code by force+
qed

lemma raw_row_text:
  assumes "is_bytes bs"
  shows "raw_row (row_text bd_set bd num bs) = Inr (int num, bs)"
proof -
  let ?n = "\<lambda>k. pad_zeros 2 (to_dec k)"
  define rest where "rest = concat (map byte_text (take 4 bs)) @ ''  '' @ concat (map byte_text (drop 4 bs))"
  have bytes: "py_split (py_strip rest) = map (\<lambda>b. ''0x'' @ to_hex 2 (nat b)) bs"
    unfolding rest_def by (rule row_bytes [OF assms])
  have n: "CHR ''['' \<notin> set (?n k)" "CHR '']'' \<notin> set (?n k)" "CHR ''='' \<notin> set (?n k)" for k
    by (rule digits_plain [OF pad_digit_string [OF _ to_dec_string]], simp_all)+
  have h: "CHR ''['' \<notin> set (to_hex 2 k)" "CHR '']'' \<notin> set (to_hex 2 k)" for k
    by (rule digits_plain [OF to_hex_string], simp)+
  have b: "CHR ''['' \<notin> set rest" "CHR '']'' \<notin> set rest" using h by (auto simp: rest_def byte_text_def)
  have row: "row_text bd_set bd num bs =
      CHR ''['' # ''PAYLOAD_DATA'' @ CHR '']'' # CHR ''['' # ?n bd_set @ CHR '']'' # CHR ''['' # ?n bd @ CHR '']'' #
      CHR ''['' # (''FRAME_NUM='' @ ?n num) @ CHR '']'' # rest"
    by (simp add: row_text_def rest_def)
  have "bracketed (row_text bd_set bd num bs) = [''PAYLOAD_DATA'', ?n bd_set, ?n bd, ''FRAME_NUM='' @ ?n num]"
    unfolding row using n b(1) by (subst bracketed_group, simp)+ (simp add: bracketed_none)
  moreover have "after_brackets (row_text bd_set bd num bs) = [rest]"
  proof -
    let ?w = "''[PAYLOAD_DATA]['' @ ?n bd_set @ '']['' @ ?n bd @ ''][FRAME_NUM='' @ ?n num"
    have "row_text bd_set bd num bs = ?w @ CHR '']'' # rest" by (simp add: row_text_def rest_def)
    then show ?thesis using after_brackets_split [OF b(2), of ?w] by simp
  qed
  moreover have "split_on (CHR ''='') [] (''FRAME_NUM='' @ ?n num) = [''FRAME_NUM'', ?n num]"
    using split_on_append [of "CHR ''=''" "''FRAME_NUM''" "[]" "?n num"] n by (simp add: split_on_none)
  ultimately show ?thesis
    unfolding raw_row_def Let_def by (simp add: py_index_def py_int_padded bytes run_bytes [OF assms] del: append.simps)
qed

lemma row_has_tag: "has_sub ''PAYLOAD_DATA'' (row_text bd_set bd num bs)"
  by (simp add: row_text_def)

lemma row_one_line: "one_line (row_text bd_set bd num bs)"
proof -
  have "one_line (pad_zeros 2 (to_dec k))" for k
    by (rule digit_string_one_line [OF pad_digit_string [OF _ to_dec_string]]) simp_all
  moreover have "one_line (to_hex 2 k)" for k by (rule digit_string_one_line [OF to_hex_string]) simp
  then have "one_line (concat (map byte_text xs))" for xs
    by (induction xs) (simp_all add: byte_text_def line_end_def)
  ultimately show ?thesis by (simp add: row_text_def line_end_def)
qed

section \<open>Grouping\<close>

text \<open>From a state inside a frame: the frames flushed are those that a later row ends, with that row's number.\<close>

fun flushes :: "(int \<times> int list) list \<Rightarrow> (int list \<times> int) list" where
  "flushes [] = []"
| "flushes [r] = []"
| "flushes ((n, bs) # (m, cs) # rs) =
     (if n = m then flushes ((n, bs @ cs) # rs) else (bs, m) # flushes ((m, cs) # rs))"

lemma log_frames_nonempty [simp]: "log_frames (r # l) \<noteq> []"
  by (induction "r # l" arbitrary: r l rule: log_frames.induct) auto

lemma flushes_frames: "map fst (flushes rs) = map snd (butlast (log_frames rs))"
proof (induction rs rule: log_frames.induct)
  case (3 n bs m cs rs)
  then show ?case by auto
qed simp_all

lemma raw_steps:
  assumes "list_all log_ok ls" "rw_prev s = Some n"
  shows "\<exists>s'. run_result (raw_step dissect) s (map log_text ls) = Inr s' \<and>
    concat (snd s') = concat (map (\<lambda>(bs, m). flush_frame dissect bs m) (flushes ((n, rw_data s) # log_rows ls))) \<and>
    rw_data (fst s') = snd (last (log_frames ((n, rw_data s) # log_rows ls)))"
  using assms
proof (induction ls arbitrary: s n)
  case Nil
  then show ?case by (simp add: log_rows_def List.map_filter_simps)
next
  case (Cons l ls)
  show ?case
  proof (cases l)
    case (Note t)
    then have step: "raw_step dissect s (log_text l) = Inr (s, [])" using Cons.prems(1) by (simp add: raw_step_def)
    obtain s' where "run_result (raw_step dissect) s (map log_text ls) = Inr s'"
      "concat (snd s') = concat (map (\<lambda>(bs, m). flush_frame dissect bs m) (flushes ((n, rw_data s) # log_rows ls)))"
      "rw_data (fst s') = snd (last (log_frames ((n, rw_data s) # log_rows ls)))"
      using Cons.IH [of s n] Cons.prems by auto
    then show ?thesis using step Note by (cases s') (simp add: log_rows_def List.map_filter_simps)
  next
    case (Row bd_set bd num bs)
    let ?s = "if n \<noteq> int num then s\<lparr>rw_prev := Some (int num), rw_frames := rw_frames s @ rw_data s, rw_data := bs\<rparr>
      else s\<lparr>rw_data := rw_data s @ bs\<rparr>"
    let ?e = "if n \<noteq> int num then flush_frame dissect (rw_data s) (int num) else []"
    have step: "raw_step dissect s (log_text l) = Inr (?s, ?e)"
      using Cons.prems by (auto simp: Row raw_step_def row_has_tag raw_row_text)
    have "rw_prev ?s = Some (int num)" using Cons.prems(2) by simp
    then obtain s' where "run_result (raw_step dissect) ?s (map log_text ls) = Inr s'"
      "concat (snd s') = concat (map (\<lambda>(bs, m). flush_frame dissect bs m) (flushes ((int num, rw_data ?s) # log_rows ls)))"
      "rw_data (fst s') = snd (last (log_frames ((int num, rw_data ?s) # log_rows ls)))"
      using Cons.IH [of ?s "int num"] Cons.prems(1) by auto
    then show ?thesis using step Row
      by (cases s') (auto simp: log_rows_def List.map_filter_simps)
  qed
qed

section \<open>Properties\<close>

lemma raw_start:
  assumes "list_all log_ok ls"
  shows "\<exists>s. run_result (raw_step dissect) raw_init (map log_text ls) = Inr s \<and>
    concat (snd s) = concat (map (\<lambda>(bs, m). flush_frame dissect bs m) (flushes (log_rows ls))) \<and>
    (log_rows ls \<noteq> [] \<longrightarrow> rw_data (fst s) = snd (last (log_frames (log_rows ls))))"
  using assms
proof (induction ls)
  case Nil
  then show ?case by (simp add: log_rows_def List.map_filter_simps)
next
  case (Cons l ls)
  show ?case
  proof (cases l)
    case (Note t)
    then have step: "raw_step dissect raw_init (log_text l) = Inr (raw_init, [])" using Cons.prems by (simp add: raw_step_def)
    then show ?thesis using Cons Note by (auto simp: log_rows_def List.map_filter_simps)
  next
    case (Row bd_set bd num bs)
    let ?s = "\<lparr>rw_prev = Some (int num), rw_frames = [], rw_data = bs\<rparr>"
    have step: "raw_step dissect raw_init (log_text l) = Inr (?s, [])"
      using Cons.prems by (simp add: Row raw_step_def row_has_tag raw_row_text raw_init_def)
    obtain s' where "run_result (raw_step dissect) ?s (map log_text ls) = Inr s'"
      "concat (snd s') = concat (map (\<lambda>(bs, m). flush_frame dissect bs m) (flushes ((int num, rw_data ?s) # log_rows ls)))"
      "rw_data (fst s') = snd (last (log_frames ((int num, rw_data ?s) # log_rows ls)))"
      using raw_steps [of ls ?s "int num" dissect] Cons.prems by auto
    then show ?thesis using step Row by (cases s') (auto simp: log_rows_def List.map_filter_simps)
  qed
qed

text \<open>The packets among the events.\<close>

definition written :: "raw_event list \<Rightarrow> int list list" where
  "written evs = List.map_filter (\<lambda>e. case e of Write bs \<Rightarrow> Some bs | _ \<Rightarrow> None) evs"

definition for_fpga :: "(int list \<Rightarrow> packet_kind) \<Rightarrow> int list \<Rightarrow> bool" where
  "for_fpga dissect bs \<longleftrightarrow> (case dissect bs of Udp_packet src dst sport dport udp \<Rightarrow> dst = dst_ip | _ \<Rightarrow> False)"

lemma written_append [simp]: "written (a @ b) = written a @ written b"
  by (simp add: written_def List.map_filter_def)

lemma written_flush:
  "is_bytes bs \<Longrightarrow> written (flush_frame dissect bs m) = (if for_fpga dissect bs then [bs] else [])"
  by (auto simp: flush_frame_def for_fpga_def written_def List.map_filter_simps is_bytes_def is_byte_def list_all_iff
      split: packet_kind.splits)

lemma written_flushes:
  "list_all is_bytes (map fst xs) \<Longrightarrow>
   written (concat (map (\<lambda>(bs, m). flush_frame dissect bs m) xs)) = filter (for_fpga dissect) (map fst xs)"
  by (induction xs) (auto simp: written_flush written_def [of "[]"] List.map_filter_simps)

lemma log_frames_bytes:
  "list_all (\<lambda>(n, bs). is_bytes bs) rs \<Longrightarrow> list_all (\<lambda>(n, bs). is_bytes bs) (log_frames rs)"
  by (induction rs rule: log_frames.induct) auto

lemma log_rows_bytes: "list_all log_ok ls \<Longrightarrow> list_all (\<lambda>(n, bs). is_bytes bs) (log_rows ls)"
proof (induction ls)
  case (Cons l ls)
  then show ?case by (cases l) (simp_all add: log_rows_def List.map_filter_simps)
qed (simp add: log_rows_def List.map_filter_simps)



end
