(* ===== verification/Udp_Send.thy ===== *)
theory Udp_Send
  imports Py_Text Py_Bytes
begin

text \<open>
  \<open>udp_send.py\<close>: a script that sends one datagram a second for ever, a fixed eight bytes and a decimal
  counter, and prints each with its bytes in rows of eight. A round of its loop is a function of the
  counter; the socket and the pause are not modelled.
\<close>

section \<open>Text of bytes\<close>

text \<open>\<open>hex(x)[2:]\<close> of a byte, and the bytes joined with dashes.\<close>

definition hex_short :: "int \<Rightarrow> string" where
  "hex_short x = to_hex 1 (nat x)"

definition dashed :: "int list \<Rightarrow> string" where
  "dashed bs = join_with ''-'' (map hex_short bs)"

text \<open>\<open>str\<close> of a byte string.\<close>

definition byte_repr :: "char \<Rightarrow> int \<Rightarrow> string" where
  "byte_repr q b =
     (let c = char_of (nat b)
      in if c = q \<or> c = CHR 92 then [CHR 92, c]
         else if b = 9 then CHR 92 # ''t''
         else if b = 10 then CHR 92 # ''n''
         else if b = 13 then CHR 92 # ''r''
         else if b < 32 \<or> 127 \<le> b then CHR 92 # ''x'' @ to_hex 2 (nat b)
         else [c])"

definition bytes_repr :: "int list \<Rightarrow> string" where
  "bytes_repr bs =
     (let q = (if 39 \<in> set bs \<and> 34 \<notin> set bs then CHR 34 else CHR 39)
      in ''b'' @ [q] @ concat (map (byte_repr q) bs) @ [q])"

section \<open>The script\<close>

definition MESSAGE :: "int list" where
  "MESSAGE = [0xDE, 0xAD, 0xBE, 0xEF, 0xBE, 0xEF, 0xDE, 0xAD]"

definition udp_message :: "nat \<Rightarrow> int list" where
  "udp_message i = MESSAGE @ map of_char (''_'' @ to_dec i)"

definition full_rows :: "int list \<Rightarrow> (nat \<times> string) list" where
  "full_rows msg = map (\<lambda>j. (j, dashed (py_slice (j * 8) (j * 8 + 8) msg))) [0..<length msg div 8]"

text \<open>\<open>message[-remainder:]\<close> is the last \<open>remainder\<close> bytes.\<close>

definition last_row :: "int list \<Rightarrow> (nat \<times> nat \<times> string) option" where
  "last_row msg =
     (let remainder = length msg mod 8; rem_row = length msg div 8
      in if remainder \<noteq> 0 then Some (rem_row, remainder, dashed (drop (length msg - remainder) msg)) else None)"

definition row_lines :: "int list \<Rightarrow> string list" where
  "row_lines msg =
     map (\<lambda>(j, row). '' ['' @ pad_left 2 (to_dec j) @ '']: '' @ row) (full_rows msg) @
     (case last_row msg of
        None \<Rightarrow> []
      | Some (j, n, row) \<Rightarrow> ['' ['' @ pad_left 2 (to_dec j) @ '']: '' @ to_dec n @ '' '' @ row])"

text \<open>A round: the datagram sent, what is printed, and the next counter.\<close>

definition udp_round :: "nat \<Rightarrow> int list \<times> string list \<times> nat" where
  "udp_round i =
     (let message = udp_message i
      in (message, (''Sent: '' @ bytes_repr message @ '': '' @ dashed message) # row_lines message, i + 1))"

text \<open>The first rounds of the endless loop.\<close>

fun udp_rounds :: "nat \<Rightarrow> nat \<Rightarrow> (int list \<times> string list) list" where
  "udp_rounds 0 i = []"
| "udp_rounds (Suc n) i =
     (case udp_round i of (datagram, printed, i') \<Rightarrow> (datagram, printed) # udp_rounds n i')"

definition udp_main :: "nat \<Rightarrow> (int list \<times> string list) list" where
  "udp_main n = udp_rounds n 1"

section \<open>Reading the rows back\<close>

lemma hex_short_int: "is_byte b \<Longrightarrow> py_int 16 (hex_short b) = Inr b"
  by (simp add: hex_short_def is_byte_def)

lemma hex_short_char: "c \<in> set (hex_short b) \<Longrightarrow> 48 \<le> (of_char c :: nat)"
  using to_hex_string [of 1 "nat b"]
  by (auto simp: hex_short_def digit_string_def list_all_iff digit_char_code)

lemma hex_short_chars: "CHR ''-'' \<notin> set (hex_short b)" "CHR '' '' \<notin> set (hex_short b)"
  using hex_short_char [of "CHR ''-''" b] hex_short_char [of "CHR '' ''" b] by auto

lemma split_dashed:
  "bs \<noteq> [] \<Longrightarrow> split_on (CHR ''-'') [] (dashed bs) = map hex_short bs"
proof (induction bs)
  case Nil
  then show ?case by simp
next
  case (Cons b bs)
  show ?case
  proof (cases bs)
    case Nil
    then show ?thesis by (simp add: dashed_def split_on_none hex_short_chars)
  next
    case (Cons c cs)
    then have "dashed (b # bs) = hex_short b @ CHR ''-'' # dashed bs" by (simp add: dashed_def)
    then show ?thesis using Cons.IH Cons by (simp add: split_on_append [OF hex_short_chars(1)])
  qed
qed

lemma dashed_no_space: "CHR '' '' \<notin> set (dashed bs)"
proof (induction bs)
  case Nil
  then show ?case by (simp add: dashed_def)
next
  case (Cons b bs)
  then show ?case by (cases bs) (simp_all add: dashed_def hex_short_chars)
qed

definition read_row :: "string \<Rightarrow> int py_result list" where
  "read_row line = map (py_int 16) (split_on (CHR ''-'') [] (last (split_on (CHR '' '') [] line)))"

lemma split_on_not_empty: "split_on c w s \<noteq> []"
  by (induction s arbitrary: w) simp_all

lemma last_split: "c \<notin> set s \<Longrightarrow> last (split_on c w (u @ c # s)) = s"
  by (induction u arbitrary: w) (simp_all add: split_on_none split_on_not_empty)

lemma read_dashed:
  assumes "bs \<noteq> []" and "is_bytes bs"
  shows "read_row (u @ CHR '' '' # dashed bs) = map Inr bs"
proof -
  have "map (py_int 16) (map hex_short bs) = map Inr bs"
    using assms(2) by (auto simp: is_bytes_def list_all_iff hex_short_int)
  then show ?thesis
    by (simp add: read_row_def last_split [OF dashed_no_space] split_dashed [OF assms(1)])
qed

lemma full_rows_read:
  assumes "is_bytes msg"
  shows "concat (map (\<lambda>(j, row). read_row ('' ['' @ pad_left 2 (to_dec j) @ '']: '' @ row)) (full_rows msg)) =
    map Inr (take (8 * (length msg div 8)) msg)"
proof -
  have row: "read_row ('' ['' @ pad_left 2 (to_dec j) @ '']: '' @ dashed (py_slice (j * 8) (j * 8 + 8) msg)) =
      map Inr (take 8 (drop (8 * j) msg))" if "j < length msg div 8" for j
  proof -
    have "8 * j + 8 \<le> length msg" using that by linarith
    then have "take 8 (drop (8 * j) msg) \<noteq> []" "is_bytes (take 8 (drop (8 * j) msg))" using assms by auto
    from read_dashed [OF this, of "'' ['' @ pad_left 2 (to_dec j) @ '']:''"] show ?thesis
      by (simp add: py_slice_def mult.commute)
  qed
  have join: "concat (map (\<lambda>j. map Inr (take 8 (drop (8 * j) msg))) [0..<n]) = map Inr (take (8 * n) msg)" for n
    by (induction n) (simp_all add: take_add add.commute [of 8])
  have "concat (map (\<lambda>(j, row). read_row ('' ['' @ pad_left 2 (to_dec j) @ '']: '' @ row)) (full_rows msg)) =
      concat (map (\<lambda>j. map Inr (take 8 (drop (8 * j) msg))) [0..<length msg div 8])"
    unfolding full_rows_def map_map using row by (intro arg_cong [of _ _ concat] map_cong) simp_all
  then show ?thesis unfolding join .
qed

lemma rows_read:
  assumes "is_bytes msg"
  shows "concat (map read_row (row_lines msg)) = map Inr msg"
proof (cases "length msg mod 8 = 0")
  case True
  then have "take (8 * (length msg div 8)) msg = msg" by auto
  note full = full_rows_read [OF assms, unfolded this]
  show ?thesis using True full
    by (simp add: row_lines_def last_row_def comp_def case_prod_unfold Let_def)
next
  case False
  let ?r = "drop (length msg - length msg mod 8) msg"
  have split: "length msg - length msg mod 8 = 8 * (length msg div 8)" by (simp add: minus_mod_eq_mult_div)
  have "?r \<noteq> []" "is_bytes ?r" using False assms by auto
  from read_dashed [OF this, of "'' ['' @ pad_left 2 (to_dec (length msg div 8)) @ '']: '' @ to_dec (length msg mod 8)"]
  have "read_row ('' ['' @ pad_left 2 (to_dec (length msg div 8)) @ '']: '' @ to_dec (length msg mod 8) @ '' '' @ dashed ?r) = map Inr ?r"
    by simp
  then have "concat (map read_row (row_lines msg)) = map Inr (take (8 * (length msg div 8)) msg) @ map Inr ?r"
    using False full_rows_read [OF assms]
    by (simp add: row_lines_def last_row_def comp_def case_prod_unfold Let_def)
  also have "\<dots> = map Inr msg" unfolding split by (simp flip: map_append)
  finally show ?thesis .
qed

section \<open>Properties\<close>

lemma udp_rounds_nth:
  "k < n \<Longrightarrow> udp_rounds n i ! k = (udp_message (i + k), (''Sent: '' @ bytes_repr (udp_message (i + k)) @ '': '' @ dashed (udp_message (i + k))) # row_lines (udp_message (i + k)))"
proof (induction n arbitrary: i k)
  case (Suc n)
  then show ?case by (cases k) (simp_all add: udp_round_def Let_def)
qed simp

lemma udp_message_bytes: "is_bytes (udp_message i)"
proof -
  have "is_byte (of_char c)" for c :: char
    using of_nat_of_char [of c, where ?'a = int, symmetric] by (simp only: is_byte_def) simp
  then show ?thesis by (auto simp: udp_message_def MESSAGE_def is_byte_def is_bytes_def list_all_iff)
qed

text \<open>What \<open>udp_send.py\<close> prints is what it sends: in each of the first rounds, reading the hexadecimal
  bytes in the rows printed below the first line, full rows and remainder, gives the datagram's bytes,
  all of them, in order; and the text behind the datagram's fixed bytes is the round's number, so that no
  two datagrams are equal.\<close>
theorem sent_rows_complete:
  assumes "k < n"
  shows "let (datagram, printed) = udp_main n ! k
    in concat (map read_row (tl printed)) = map Inr datagram \<and>
       take 8 datagram = MESSAGE \<and> py_int 10 (map (\<lambda>b. char_of (nat b)) (drop 9 datagram)) = Inr (int k + 1)"
proof -
  have "map (\<lambda>b. char_of (nat b)) (map of_char s) = s" for s :: string by (induction s) simp_all
  then have "map (\<lambda>b. char_of (nat b)) (drop 9 (udp_message (1 + k))) = to_dec (1 + k)"
    by (simp add: udp_message_def MESSAGE_def)
  then show ?thesis
    by (simp add: udp_main_def udp_rounds_nth [OF assms] rows_read [OF udp_message_bytes])
      (simp add: udp_message_def MESSAGE_def)
qed

theorem sent_rows_complete_witness:
  "fst (udp_main 20 ! 11) = [0xDE, 0xAD, 0xBE, 0xEF, 0xBE, 0xEF, 0xDE, 0xAD, 95, 49, 50] \<and>
   concat (map read_row (tl (snd (udp_main 20 ! 11)))) = map Inr (fst (udp_main 20 ! 11))"
proof -
  have "udp_message 12 = [0xDE, 0xAD, 0xBE, 0xEF, 0xBE, 0xEF, 0xDE, 0xAD, 95, 49, 50]" by code_simp
  moreover have "fst (udp_main 20 ! 11) = udp_message 12" by (simp add: udp_main_def udp_rounds_nth)
  ultimately show ?thesis using sent_rows_complete [of 11 20] by (simp add: case_prod_beta)
qed

end
