(* ===== verification/Generated_Path.thy ===== *)
theory Generated_Path
  imports Pitch_Pcap NI_Receive
begin

text \<open>
  The capture that \<open>gen_pitch_pcap.py\<close> writes, on its two ways to the parser: \<open>send_pcap_udp.py\<close> sends its
  payloads, and \<open>gen_frames.py\<close> with the receive path of \<open>ni_stream_model.py\<close> carries them through the
  filters. scapy is a parameter: how it stacks the headers of a packet and the file it writes.
\<close>

section \<open>The packets\<close>

definition DST_MAC :: string where "DST_MAC = ''00:0a:35:18:3c:1f''"
definition SRC_MAC :: string where "SRC_MAC = ''24:5e:be:8b:b1:94''"
definition DST_IP :: string where "DST_IP = ''10.0.1.14''"
definition SRC_IP :: string where "SRC_IP = ''10.0.1.10''"
definition DST_PORT :: int where "DST_PORT = 8000"
definition SRC_PORT :: int where "SRC_PORT = 54816"

type_synonym packet_builder = "string \<Rightarrow> string \<Rightarrow> string \<Rightarrow> string \<Rightarrow> int \<Rightarrow> int \<Rightarrow> int list \<Rightarrow> int list"

text \<open>\<open>Ether(dst, src) / IP(src, dst) / UDP(sport, dport) / Raw(load)\<close> for each unit.\<close>

definition write_packets :: "packet_builder \<Rightarrow> ('h, 'm) unit_lib \<Rightarrow> 'h list \<Rightarrow> int list list" where
  "write_packets stack L frames =
     map (\<lambda>hdr. stack DST_MAC SRC_MAC SRC_IP DST_IP SRC_PORT DST_PORT (ul_all_bytes L hdr)) frames"

text \<open>What \<open>write_outputs\<close> writes: the capture file and the audit text.\<close>

definition write_outputs ::
    "packet_builder \<Rightarrow> (int list list \<Rightarrow> int list) \<Rightarrow> ('h, 'm) unit_lib \<Rightarrow> 'h list \<Rightarrow> int list \<times> string" where
  "write_outputs stack wrpcap L frames = (wrpcap (write_packets stack L frames), audit_text L frames)"

section \<open>What scapy documents\<close>

text \<open>An address as bytes: its parts between separators, read in the given base.\<close>

definition addr_bytes :: "nat \<Rightarrow> char \<Rightarrow> string \<Rightarrow> int list" where
  "addr_bytes base sep s =
     List.map_filter (\<lambda>w. case py_int base w of Inl e \<Rightarrow> None | Inr n \<Rightarrow> Some n) (split_on sep [] s)"

text \<open>The bytes of a datagram behind an IPv4 header without options: addresses, type, version and header
  length, total length, no fragment, protocol, destination port; the payload follows 42 header bytes.\<close>

definition udp_frame :: "string \<Rightarrow> string \<Rightarrow> int \<Rightarrow> int list \<Rightarrow> int list \<Rightarrow> bool" where
  "udp_frame dst_mac dst_ip dport load f \<longleftrightarrow>
     length f = 42 + length load \<and> drop 42 f = load \<and> is_bytes (take 42 f) \<and>
     take 6 f = addr_bytes 16 (CHR '':'') dst_mac \<and> py_slice 12 15 f = [0x08, 0x00, 0x45] \<and>
     py_slice 16 18 f = to_be 2 (int (28 + length load)) \<and> py_slice 20 22 f = [0, 0] \<and> f ! 23 = 17 \<and>
     py_slice 30 34 f = addr_bytes 10 (CHR ''.'') dst_ip \<and> py_slice 36 38 f = to_be 2 dport"

definition address :: "nat \<Rightarrow> char \<Rightarrow> nat \<Rightarrow> string \<Rightarrow> bool" where
  "address base sep n s \<longleftrightarrow> length (addr_bytes base sep s) = n \<and> is_bytes (addr_bytes base sep s)"

definition stacks_headers :: "packet_builder \<Rightarrow> bool" where
  "stacks_headers stack \<longleftrightarrow>
     (\<forall>dst_mac src_mac src_ip dst_ip sport dport load.
        address 16 (CHR '':'') 6 dst_mac \<and> address 16 (CHR '':'') 6 src_mac \<and>
        address 10 (CHR ''.'') 4 src_ip \<and> address 10 (CHR ''.'') 4 dst_ip \<and>
        0 \<le> sport \<and> sport < 65536 \<and> 0 \<le> dport \<and> dport < 65536 \<and> is_bytes load \<and> length load \<le> 65507 \<longrightarrow>
        udp_frame dst_mac dst_ip dport load (stack dst_mac src_mac src_ip dst_ip sport dport load))"

definition writes_pcap :: "(int list list \<Rightarrow> int list) \<Rightarrow> bool" where
  "writes_pcap wrpcap \<longleftrightarrow>
     (\<forall>frames. list_all (\<lambda>f. is_bytes f \<and> length f < 65536 + 14) frames \<longrightarrow>
        is_bytes (wrpcap frames) \<and>
        (\<exists>hdr recs. wf_pcap hdr recs \<and> map snd recs = frames \<and> wrpcap frames = pcap_file hdr recs))"

section \<open>The board's address\<close>

lemma board_address:
  "addr_bytes 16 (CHR '':'') DST_MAC = MAC_ADDR" "addr_bytes 10 (CHR ''.'') DST_IP = IP_ADDR" "DST_PORT = UDP_PORT"
  by code_simp+

lemma tool_addresses:
  "address 16 (CHR '':'') 6 DST_MAC" "address 16 (CHR '':'') 6 SRC_MAC"
  "address 10 (CHR ''.'') 4 SRC_IP" "address 10 (CHR ''.'') 4 DST_IP"
  by code_simp+

lemma address_match_prefix: "take (length addr) xs = addr \<Longrightarrow> address_match xs addr"
  using nth_take [of _ "length addr" xs] by (simp add: address_match_def list_all_iff)

lemma slice_nth: "py_slice a b xs = ys \<Longrightarrow> i < b - a \<Longrightarrow> a + i < length xs \<Longrightarrow> xs ! (a + i) = ys ! i"
  by (auto simp: py_slice_def)

lemma slice_fields:
  assumes "py_slice a (a + 2) xs = [y, z]" and "a + 2 \<le> length xs"
  shows "xs ! a = y" "xs ! (a + 1) = z"
  using slice_nth [OF assms(1), of 0] slice_nth [OF assms(1), of 1] assms(2) by simp_all

lemma to_be_pair: "to_be 2 n = [n div 256 mod 256, n mod 256]"
  by (simp add: to_be_def numeral_2_eq_2)

text \<open>A frame that the tool builds is one that the receive path accepts, unless its last word fills lane 6
  or 7 or the packet counts as small.\<close>

lemma udp_frame_accepted:
  assumes f: "udp_frame DST_MAC DST_IP DST_PORT load f" and "18 \<le> length load" "length load \<le> 65507"
    and "length load mod 8 \<notin> {5, 6}"
  shows "path_accepts f" and "plain_ip f"
proof -
  have len: "length f = 42 + length load" using f by (simp add: udp_frame_def)
  have "to_be 2 DST_PORT = [31, 64]" by code_simp
  then have port: "f ! 36 = 31" "f ! 37 = 64"
    using f slice_fields [of 36 f 31 64] by (simp_all add: udp_frame_def)
  have frag: "f ! 20 = 0" "f ! 21 = 0" using f slice_fields [of 20 f 0 0] by (simp_all add: udp_frame_def)
  have "f ! 14 = 0x45" using f slice_nth [of 12 15 f "[0x08, 0x00, 0x45]" 2] by (simp add: udp_frame_def)
  moreover have "to_be 2 (int (28 + length load)) = [int (28 + length load) div 256, int (28 + length load) mod 256]"
    using assms(3) by (simp add: to_be_pair)
  then have total: "f ! 16 = int (28 + length load) div 256" "f ! 17 = int (28 + length load) mod 256"
    using f slice_fields [of 16 f] by (simp_all add: udp_frame_def)
  have "\<not> (f ! 16 = 0 \<and> f ! 17 < 46)" unfolding total using assms(2) by presburger
  ultimately have small: "ipv4_not_small (drop 14 f)" by (simp add: ipv4_not_small_def len)
  have "length MAC_ADDR = 6" "length IP_ADDR = 4" by (simp_all add: MAC_ADDR_def IP_ADDR_def)
  then have "address_match f MAC_ADDR" "address_match (drop 30 f) IP_ADDR"
    using f address_match_prefix [of MAC_ADDR f] address_match_prefix [of IP_ADDR "drop 30 f"]
    by (simp_all add: udp_frame_def board_address py_slice_def)
  moreover have "length load mod 8 \<noteq> 5" "length load mod 8 \<noteq> 6" using assms(4) by simp_all
  then have "0 < length f mod 8 \<and> length f mod 8 \<le> 6" unfolding len by presburger
  ultimately show "path_accepts f" using small f assms(2) len
    by (simp add: path_accepts_def udp_frame_def UDP_PORT_def port frag push_bit_eq_mult)
  show "plain_ip f" using \<open>f ! 14 = 0x45\<close> len by (simp add: plain_ip_def)
qed

section \<open>Properties\<close>

text \<open>A unit whose bytes are as long as its length says, large enough for the filters, and whose frame's last
  word does not fill lane 6 or 7.\<close>

definition fits_path :: "('h, 'm) unit_lib \<Rightarrow> 'h \<Rightarrow> bool" where
  "fits_path L u \<longleftrightarrow> is_bytes (ul_all_bytes L u) \<and> length (ul_all_bytes L u) = ul_length L u \<and>
     18 \<le> ul_length L u \<and> ul_length L u mod 8 \<notin> {5, 6}"

lemma packets_accepted:
  assumes "stacks_headers stack" and "list_all (fits_path L) us" and "list_all (\<lambda>u. ul_length L u \<le> 65507) us"
  shows "list_all path_accepts (write_packets stack L us)" and "list_all plain_ip (write_packets stack L us)"
    and "map (drop 42) (write_packets stack L us) = map (ul_all_bytes L) us"
    and "list_all (\<lambda>f. is_bytes f \<and> length f < 65536 + 14) (write_packets stack L us)"
proof -
  have f: "udp_frame DST_MAC DST_IP DST_PORT (ul_all_bytes L u)
      (stack DST_MAC SRC_MAC SRC_IP DST_IP SRC_PORT DST_PORT (ul_all_bytes L u))"
    and u: "18 \<le> length (ul_all_bytes L u)" "length (ul_all_bytes L u) \<le> 65507"
      "length (ul_all_bytes L u) mod 8 \<notin> {5, 6}" "is_bytes (ul_all_bytes L u)" if "u \<in> set us" for u
  proof -
    have "fits_path L u" "ul_length L u \<le> 65507" using assms(2,3) that by (simp_all add: list_all_iff)
    then show u: "18 \<le> length (ul_all_bytes L u)" "length (ul_all_bytes L u) \<le> 65507"
      "length (ul_all_bytes L u) mod 8 \<notin> {5, 6}" "is_bytes (ul_all_bytes L u)" by (simp_all add: fits_path_def)
    show "udp_frame DST_MAC DST_IP DST_PORT (ul_all_bytes L u)
      (stack DST_MAC SRC_MAC SRC_IP DST_IP SRC_PORT DST_PORT (ul_all_bytes L u))"
      using assms(1) u tool_addresses by (simp add: stacks_headers_def SRC_PORT_def DST_PORT_def)
  qed
  show "list_all path_accepts (write_packets stack L us)" "list_all plain_ip (write_packets stack L us)"
    using udp_frame_accepted [OF f u(1-3)] by (auto simp: write_packets_def list_all_iff)
  show "map (drop 42) (write_packets stack L us) = map (ul_all_bytes L) us"
    using f by (simp add: write_packets_def udp_frame_def)
  show "list_all (\<lambda>f. is_bytes f \<and> length f < 65536 + 14) (write_packets stack L us)"
  proof (unfold list_all_iff, intro ballI conjI)
    fix x assume "x \<in> set (write_packets stack L us)"
    then obtain v where v: "v \<in> set us" "udp_frame DST_MAC DST_IP DST_PORT (ul_all_bytes L v) x"
      using f by (auto simp: write_packets_def)
    then have "is_bytes (take 42 x @ drop 42 x)" using u(4) unfolding is_bytes_simps udp_frame_def by simp
    then show "is_bytes x" by simp
    show "length x < 65536 + 14" using v u(2) [of v] by (simp add: udp_frame_def)
  qed
qed


text \<open>Headers as scapy stacks them, check sums left at zero, a capture file with zero time stamps, and two
  units of the example generator.\<close>

definition plain_stack :: packet_builder where
  "plain_stack dst_mac src_mac src_ip dst_ip sport dport load =
     addr_bytes 16 (CHR '':'') dst_mac @ addr_bytes 16 (CHR '':'') src_mac @ [0x08, 0x00] @
     [0x45, 0] @ to_be 2 (int (28 + length load)) @ [0, 1, 0, 0, 64, 17, 0, 0] @
     addr_bytes 10 (CHR ''.'') src_ip @ addr_bytes 10 (CHR ''.'') dst_ip @
     to_be 2 sport @ to_be 2 dport @ to_be 2 (int (8 + length load)) @ [0, 0] @ load"

definition plain_wrpcap :: "int list list \<Rightarrow> int list" where
  "plain_wrpcap frames = pcap_file (replicate 20 0) (map (\<lambda>f. (replicate 8 0, f)) frames)"

lemma plain_stack_ok: "stacks_headers plain_stack"
  by (auto simp: stacks_headers_def address_def udp_frame_def plain_stack_def py_slice_def nth_append is_byte_def to_be_pair)

lemma plain_wrpcap_ok: "writes_pcap plain_wrpcap"
  unfolding writes_pcap_def
proof (intro allI impI conjI)
  fix frames :: "int list list" assume f: "list_all (\<lambda>f. is_bytes f \<and> length f < 65536 + 14) frames"
  then show "is_bytes (plain_wrpcap frames)"
    by (induction frames) (simp_all add: plain_wrpcap_def pcap_file_def pcap_record_def is_byte_def)
  have "wf_pcap (replicate 20 0) (map (\<lambda>f. (replicate 8 0, f)) frames)"
    using f by (auto simp: wf_pcap_def list_all_iff)
  then show "\<exists>hdr recs. wf_pcap hdr recs \<and> map snd recs = frames \<and> plain_wrpcap frames = pcap_file hdr recs"
    by (intro exI [of _ "replicate 20 0"] exI [of _ "map (\<lambda>f. (replicate 8 0, f)) frames"])
      (simp add: plain_wrpcap_def comp_def)
qed

definition example_units :: "(nat \<times> int list list) list" where
  "example_units = [(1, [[6, 0x20, 1, 0, 0, 0], [6, 0x20, 2, 0, 0, 0]]), (3, [[6, 0x20, 4, 0, 0, 0], [6, 0x20, 5, 0, 0, 0]])]"

lemma example_built: "build_units example_lib example_gen 2 24 0 = Some (example_units, 8)"
  by (simp add: build_units_def build_loop.simps example_lib_def example_gen_def example_units_def)

lemma example_fits: "list_all (fits_path example_lib) example_units"
  by code_simp


end
