(* ===== verification/Spec2Isabelle.thy ===== *)
theory Spec2Isabelle
  imports Replay_Check Parser_Variants NI_Parser Sim_Pass Bats_Loader Filter_Bench Eth_Frame Entity_Parser
    Pitch_Pcap Fifo_Server Parser_Backlog Loader_Tests Filter_Text Repo_Capture Raw_Dump Udp_Send Generated_Path
begin

text \<open>
  A verification library for the Python code of Market.Data.PoC: the software models, test-bench
  drivers and board tools around an FPGA parser of Cboe PITCH market data.

  \<^bold>\<open>The program.\<close> UDP frames with PITCH messages reach the FPGA as 8-byte AXI-stream beats, pass four
  National Instruments filter stages (MAC, IPv4 subframe, IPv4, UDP) and end in the LabVIEW parser
  \<open>bats.parser.vi\<close>. The Python code models that path bit by bit, generates its inputs, drives the
  simulations and serves the board's capture FIFOs:
  \<^item> \<open>ip_export/netlist_sim/gen_frames.py\<close> turns captures into beat files, \<open>ni_stream_model.py\<close> is the
    model of the filter stages, \<open>parser_model.py\<close> that of the parser, \<open>check_parser_variants.py\<close>
    compares proposed repairs of the parser, \<open>eval_sim.py\<close> scores simulator output;
  \<^item> \<open>ip_export/poc_ip.py\<close>, \<open>bats_loader.py\<close> (submodule Market.Data.Bats.Parser) and
    \<open>filter_msg_gen.py\<close> (submodule Market.Data.Filter) are called from SystemVerilog test benches;
  \<^item> \<open>scripts/fifo_server.py\<close> streams the capture FIFOs of the board to TCP subscribers,
    \<open>fifo_subscribe.py\<close> prints such a stream as a hex dump and \<open>apps/poc_inject/decode_capture.py\<close>
    decodes the dump;
  \<^item> \<open>scripts/gen_pitch_pcap.py\<close> packs generated messages into units and \<open>send_pcap_udp.py\<close> sends the
    payloads of a capture; \<open>ip_export/parse.py\<close> turns a VHDL wrapper into the ports of a test bench;
  \<^item> \<open>tools/labview-aixml/gen_message_vi.py\<close> writes the LabVIEW VIs that decode single message kinds,
    \<open>s_parse.py\<close> recovers a capture from the board's console log, \<open>udp_send.py\<close> sends test datagrams;
    \<open>tests_bats_loader.py\<close>, \<open>tests_filter_msg_gen.py\<close> and \<open>tests_poc_ip.py\<close> test the modules above.

  \<^bold>\<open>Theories.\<close>
  \<^item> \<open>Prelude\<close>: Python results and exceptions (\<open>py_result\<close>), indexing and slicing, \<open>run_loop\<close>, the
    locales \<open>clocked\<close> and \<open>guarded_clocked\<close> for step functions with an invariant. \<open>Py_Bytes\<close> and
    \<open>Py_Text\<close>: the byte and text functions of the language that the code calls.
  \<^item> \<open>Byte_Queue\<close>: the interface between the parser and its buffer, a locale. \<open>Parser_Buffer\<close>: the
    nine-word buffer of \<open>parser_model.py\<close> (\<open>add_data_to_buffer\<close>, \<open>compress_buffer\<close>, \<open>byte_at\<close>) and its
    interpretation as a byte queue. \<open>Parser_Model\<close>: class \<open>Parser\<close> (\<open>parser_step\<close>,
    \<open>parser_step_elem\<close>), a specification on byte lists and the refinement. \<open>Parser_Frames\<close>: the
    replay of payloads and what is emitted for well-formed and for awkward units. \<open>Parser_Backlog\<close>:
    what is lost when short messages queue up in the buffer.
  \<^item> \<open>Pcap_Files\<close>: the capture readers. \<open>Frame_Beats\<close>: beat files, their reader, and the comparison in
    \<open>main\<close> of \<open>parser_model.py\<close>. \<open>Replay_Check\<close>: that comparison end to end.
  \<^item> \<open>NI_Stream\<close>: the four filter stages as records of their feedback registers, one step function
    each. \<open>NI_Mac\<close>: whole frames through the MAC filter. \<open>NI_Driver\<close>: the stages chained and fed from a
    beat file. \<open>NI_Bursts\<close>: bursts of words and the subframe finder, \<open>NI_Ip\<close>: packets through the IPv4
    filter, \<open>NI_Path\<close>: datagrams through the UDP stage and frames through all four, \<open>NI_Receive\<close>: a beat
    file through \<open>run\<close>, \<open>NI_Parser\<close>: the debug records of that run. \<open>Parser_Variants\<close>: the pad-beat
    change and class \<open>P\<close> of \<open>check_parser_variants.py\<close>.
  \<^item> \<open>Byte_List\<close>: \<open>MyList\<close>. \<open>Bats_Loader\<close>: the message builders, with the JSON text they send and a
    parameter for the external \<open>cboe_pitch\<close> library. \<open>Filter_Bench\<close>: \<open>OBCommand\<close> and \<open>FilterBench\<close>.
    \<open>Eth_Frame\<close>: \<open>EthernetFrame\<close> and \<open>Pcap\<close> of \<open>poc_ip.py\<close>.
  \<^item> \<open>Fifo_Poller\<close>: the register reads of \<open>fifo_server.py\<close>. \<open>Fifo_Broker\<close>: the broker, its clients and
    the subscription request. \<open>Fifo_Server\<close>: pollers, accepted connections and client threads as a step
    relation, with the subscriber at its end.
  \<^item> \<open>Capture_Text\<close>: the hex dump of \<open>fifo_subscribe.py\<close> and the whole of \<open>decode_capture.py\<close>.
    \<open>Sim_Records\<close>: the readers of simulator output and board captures in \<open>eval_sim.py\<close> and
    \<open>ni_stream_model.py\<close> and the verdict of the latter's \<open>main\<close>. \<open>Sim_Score\<close>: the scoring of \<open>eval_sim.py\<close>.
    \<open>Sim_Pass\<close>: a correct run from the simulator's text to its score.
  \<^item> \<open>Entity_Parser\<close>: \<open>parse.py\<close>. \<open>Pitch_Pcap\<close>: \<open>build\<close> and the audit text of \<open>gen_pitch_pcap.py\<close>, and
    the payloads of \<open>send_pcap_udp.py\<close>. \<open>Generated_Path\<close>: the capture written with scapy, on both its ways
    to the parser. \<open>Raw_Dump\<close>: \<open>s_parse.py\<close>. \<open>Udp_Send\<close>: \<open>udp_send.py\<close>.
  \<^item> \<open>Message_Vi\<close>: \<open>gen_message_vi.py\<close>, its document as a list of elements and when such a document is
    well formed.
  \<^item> \<open>Loader_Tests\<close>, \<open>Filter_Text\<close>, \<open>Repo_Capture\<close>: the repository's unit tests run on the models, with its
    configuration file and its capture as data; \<open>Filter_Text\<close> also holds \<open>OBCommand.to_str\<close> and
    \<open>FilterBench.print_header\<close>.

  \<^bold>\<open>Modelling.\<close> Python's unbounded integers are \<open>int\<close>, with the source's masks written out; the 32-bit
  registers of the FIFO poller are \<open>32 word\<close>. A byte string is a list of integers from 0 to 255. An
  operation that can raise returns a sum, \<open>Inl\<close> with the exception. A loop that need not end (the walk
  over length-prefixed messages, the generation of units) is a partial function into \<open>option\<close>, with
  \<open>None\<close> for not returning; every other loop is a total function and no fuel is used anywhere. A regular
  expression is a function that reads its pattern from the front of a string. Concurrency in
  \<open>fifo_server.py\<close> is interleaving: for the broker alone a list of events, one per operation that runs
  under its lock or on a client's own queue, in any order; for the whole server the step relation
  \<open>server_step\<close>, with one step per round of a poller, per accepted connection and per action of a
  client's thread. Code outside the repository is a parameter: the \<open>cboe_pitch\<close>
  library, its field converter, scapy's packets, the unit headers of the generator (\<open>unit_laws\<close>), and the
  FIFO hardware. What the theorems need of it
  is a named hypothesis (\<open>documented_header\<close>, \<open>stacks_headers\<close>, \<open>writes_pcap\<close>, \<open>reads_frames\<close>, the premises on register reads), with a concrete
  instance in the witnesses.

  \<^bold>\<open>What is shown.\<close> The word buffer is a byte queue of 72 bytes as long as at most one word remains
  after a drop; the parser over it refines the specification under \<open>step_fits\<close>, and that condition
  holds throughout for units of messages of 2 to 65 bytes with which the parser keeps pace (\<open>paced\<close>: at
  most a word is left behind each message, always so when every message has at least 8 bytes), so
  whole captures replay to exactly their messages and \<open>main\<close> reports them OK; the repository's own
  capture, with its Time messages, is one of these. The lemmas also fix where the model, and so the
  design it transcribes, goes wrong: a short message in the last beat, a unit without messages, a short
  message while more than a word is waiting (which the repository's capture
  \<open>frame_boundary_repro.pcap\<close> contains), a frame whose last word fills the upper lanes. The MAC filter's byte-exact
  behaviour is proved for accepted and rejected frames, and that pad beats repair its flush. The
  broker delivers in order, bounded, and each client independently of the others. The bench's
  expected count is the filter's promise.

  The receive path is followed to its end: for frames addressed to the board the four stages pass
  exactly the UDP payloads, and the debug records of \<open>run\<close> are those of the units; frames for others
  leave nothing behind, while a gap at the third word of a packet stops the IPv4 filter for good. The
  scoring chain is shown right in both directions: the readers see exactly the records of a stream
  whatever is interleaved with it, a correct run gets full marks, and a mismatch is listed exactly
  where a command disagrees with its message. For the server, in every reachable state, each client
  has been sent frames of its FIFOs in order and none twice, the frames are numbered without a gap,
  what is queued can always be delivered, the server can always be stopped, and the printed stream
  decodes to the words of its frames. The generator's units are contiguous, bounded and complete up to
  the last message, and both the datagrams sent from its capture and the simulated receive path carry
  them byte for byte. A generated test bench declares and connects every port once.

  Every VI that \<open>gen_message_vi.py\<close> writes is well formed, its nets driven before they are read and with
  the expected types, and its field offsets agree with the builders' tests and with \<open>eval_sim.py\<close>. If
  the builders' tests pass, what they test is parsed back by the parser model. The bench's tests of
  \<open>sim/bench_1.cfg\<close> do not pass, and a bench from an incomplete configuration fails only when it is used.
  From a console log the frames for the board are written in order, all but the last.

  \<^bold>\<open>Not modelled.\<close> Sockets, pauses, argument parsing, signals and the clock (a time stamp is an argument);
  the traces that the tools print besides their results; how scapy stacks the headers of a packet in
  \<open>gen_pitch_pcap.py\<close> and dissects packets in \<open>s_parse.py\<close> and \<open>poc_ip.py\<close> (a parameter); reading TOML and
  other files (the parsed document or the text is an input); the bench of \<open>poc_ip.py\<close>, which is
  commented out; \<open>Entity.__str__\<close>, which nothing calls; \<open>compile\<close> of the modules that only call the
  \<open>pysv\<close> code generator. The copies of \<open>MyList\<close> in \<open>poc_ip.py\<close> and \<open>filter_msg_gen.py\<close> and the copy of
  \<open>parse.py\<close> in the parser's submodule are modelled once.
\<close>

end
